(* ===== verification/Prelude.thy ===== *)
theory Prelude
  imports Main "HOL-Library.Word" "HOL-Library.Monad_Syntax"
begin

unbundle bit_operations_syntax

text \<open>
  Shared material of the RedPar development: the types of machine values, the collections of
  rewrite rules that carry the component proofs, and generic facts on lists, maps and words.

  \<^item> \<open>addr\<close> is a machine address (\<^verbatim>\<open>uintptr_t\<close> on the 64-bit targets of the Makefile); the address
    \<open>0\<close> is the null pointer.
  \<^item> \<open>int64\<close> is the bit pattern of an \<^verbatim>\<open>int64_t\<close> or \<^verbatim>\<open>long long\<close>; \<open>sint\<close> reads it as the signed value.
  \<^item> \<open>size64\<close> is a \<^verbatim>\<open>size_t\<close> or \<^verbatim>\<open>uint64_t\<close>, with the wrap-around of the machine.

  A program fragment that reads or writes memory returns an \<open>option\<close>: \<open>None\<close> stands for every
  way not to produce a result (a dereference of an address that is not allocated, a read past the
  end of an array, a double free, or a loop that never ends), so a theorem of the form
  \<open>f x = Some y\<close> says that none of these happens.
\<close>

type_synonym addr = "64 word"
type_synonym int64 = "64 word"
type_synonym size64 = "64 word"

text \<open>Rewrite rules that read a heap after an update (\<open>heap_simps\<close>) and that unfold one
  operation of a component into its effect (\<open>op_simps\<close>).\<close>

named_theorems heap_simps "reading a heap after an update"
named_theorems op_simps "the effect of one operation"

subsection \<open>Lists\<close>

text \<open>The element a forward pointer refers to: the first of the remaining addresses, or null.\<close>

definition first_or_null :: "addr list \<Rightarrow> addr" where
  "first_or_null xs = (case xs of [] \<Rightarrow> 0 | x # _ \<Rightarrow> x)"

lemma first_or_null_simps [simp]:
  "first_or_null [] = 0" "first_or_null (x # xs) = x"
  by (simp_all add: first_or_null_def)

lemma first_or_null_append [simp]:
  "first_or_null (xs @ y # ys) = first_or_null (xs @ [y])"
  by (cases xs) simp_all

lemma first_or_null_eq_0: "0 \<notin> set xs \<Longrightarrow> first_or_null xs = 0 \<longleftrightarrow> xs = []"
  by (cases xs) auto

lemma last_Cons_append [simp]: "last (x # xs @ [y]) = y"
  by simp

text \<open>A bounds-checked read: \<open>None\<close> is a read past the end.\<close>

definition at :: "'a list \<Rightarrow> nat \<Rightarrow> 'a option" where
  "at xs i = (if i < length xs then Some (xs ! i) else None)"

lemma at_simps [simp]:
  "i < length xs \<Longrightarrow> at xs i = Some (xs ! i)"
  "length xs \<le> i \<Longrightarrow> at xs i = None"
  by (simp_all add: at_def)

text \<open>A sorted list splits at a bound into the smaller elements and the rest.\<close>

lemma dropWhile_sorted_le:
  assumes "sorted (map f xs)" and "x \<in> set (dropWhile (\<lambda>x. f x < (k :: 'a :: linorder)) xs)"
  shows "k \<le> f x"
  using assms
proof (induction xs)
  case (Cons a xs)
  then show ?case
    by (cases "f a < k") (auto intro: order_trans)
qed simp

lemma takeWhile_less: "x \<in> set (takeWhile (\<lambda>x. f x < k) xs) \<Longrightarrow> f x < k"
  by (auto dest: set_takeWhileD)

subsection \<open>Options and maps\<close>

lemma bind_eq_Some [simp]:
  "Option.bind x f = Some y \<longleftrightarrow> (\<exists>z. x = Some z \<and> f z = Some y)"
  by (cases x) auto

lemma restrict_map_notin: "a \<in> A \<Longrightarrow> (m |` (- A)) a = None"
  by (simp add: restrict_map_def)

lemma restrict_map_in [heap_simps]: "a \<notin> A \<Longrightarrow> (m |` (- A)) a = m a"
  by (simp add: restrict_map_def)

lemma restrict_map_None: "(m(a := None)) |` (- A) = m |` (- insert a A)"
  by (auto simp: restrict_map_def)

subsection \<open>Words\<close>

lemma sint_eq_iff: "sint a = sint b \<longleftrightarrow> a = (b :: 'a :: len word)"
  by (auto intro: signed_word_eqI)

lemma sless_irrefl_iff: "a <s b \<longleftrightarrow> sint a < sint (b :: 'a :: len word)"
  by (simp add: word_sless_alt)

subsection \<open>Runs of refined operations\<close>

text \<open>
  The contract of a component whose operations implement functions on abstract values: from related
  states, \<open>exec\<close> returns, answers as \<open>spec\<close> does and leads to related states. The index of \<open>rel\<close> is
  the number of operations for which resources (memory, for the components here) are left.
\<close>

fun spec_seq :: "('e \<Rightarrow> 'a \<Rightarrow> 'r \<times> 'a) \<Rightarrow> 'e list \<Rightarrow> 'a \<Rightarrow> 'r list \<times> 'a" where
  "spec_seq spec [] a = ([], a)"
| "spec_seq spec (e # es) a =
     (let (r, a) = spec e a; (rs, a) = spec_seq spec es a in (r # rs, a))"

fun exec_seq :: "('e \<Rightarrow> 'c \<Rightarrow> ('r \<times> 'c) option) \<Rightarrow> 'e list \<Rightarrow> 'c \<Rightarrow> ('r list \<times> 'c) option" where
  "exec_seq exec [] c = Some ([], c)"
| "exec_seq exec (e # es) c = do {
     (r, c) \<leftarrow> exec e c;
     (rs, c) \<leftarrow> exec_seq exec es c;
     Some (r # rs, c)
   }"

locale step_refinement =
  fixes rel :: "nat \<Rightarrow> 'c \<Rightarrow> 'a \<Rightarrow> bool"
    and exec :: "'e \<Rightarrow> 'c \<Rightarrow> ('r \<times> 'c) option"
    and spec :: "'e \<Rightarrow> 'a \<Rightarrow> 'r \<times> 'a"
    and valid :: "'e \<Rightarrow> bool"
  assumes step: "valid e \<Longrightarrow> rel (Suc n) c a \<Longrightarrow>
    \<exists>c'. exec e c = Some (fst (spec e a), c') \<and> rel n c' (snd (spec e a))"
begin

lemma run:
  "\<forall>e \<in> set es. valid e \<Longrightarrow> rel (n + length es) c a \<Longrightarrow>
     \<exists>c'. exec_seq exec es c = Some (fst (spec_seq spec es a), c') \<and> rel n c' (snd (spec_seq spec es a))"
proof (induction es arbitrary: c a)
  case Nil
  then show ?case by simp
next
  case (Cons e es)
  then obtain c1 where "exec e c = Some (fst (spec e a), c1)" "rel (n + length es) c1 (snd (spec e a))"
    using step [of e "n + length es" c a] by auto
  with Cons.IH [of c1 "snd (spec e a)"] Cons.prems(1) show ?case
    by (auto simp: split_beta Let_def)
qed

text \<open>What every operation of the specification keeps holds after a run.\<close>

lemma run_invariant:
  assumes "\<And>e a. I a \<Longrightarrow> I (snd (spec e a))" and "I a"
  shows "I (snd (spec_seq spec es a))"
  using assms(2) by (induction es arbitrary: a) (auto simp: split_beta Let_def assms(1))

end

end
