(* ===== verification/Llca_List.thy ===== *)
theory Llca_List
  imports Prelude
begin

text \<open>
  The linked list of \<^verbatim>\<open>src/src/llca.cpp\<close>: \<open>llca_node\<close>, \<open>llca_obj\<close> and the operations
  \<open>createLLCAObject\<close>, \<open>llca_insert\<close>, \<open>llca_remove\<close>, \<open>llca_contains\<close> and \<open>llca_release\<close>.
  The heap maps the address of every live node and of every live list object to its fields, so an
  operation that follows a pointer to freed or unallocated memory has the result \<open>None\<close>.

  \<^verbatim>\<open>RedisModule_Alloc\<close> is the server's allocator. The address it returns is an input of the
  operations that allocate; an address that is null or already in use is a broken allocator and
  makes the operation \<open>None\<close>. The lines written to \<^verbatim>\<open>std::cerr\<close> are left out.

  The lemmas relate the pointer program to lists: \<open>ll_repr h obj vs\<close> says that the object at \<open>obj\<close> is
  a null-terminated chain of live nodes with the values \<open>vs\<close>, and each operation is shown to
  return normally and to compute its list function on \<open>vs\<close>.
\<close>

subsection \<open>Data\<close>

record llca_node =
  ln_value :: int64
  ln_next :: addr

record llca_obj =
  lo_head :: addr
  lo_len :: size64

record llca_heap =
  ll_nodes :: "addr \<rightharpoonup> llca_node"
  ll_objs :: "addr \<rightharpoonup> llca_obj"

subsection \<open>Operations\<close>

definition createLLCAObject :: "addr \<Rightarrow> llca_heap \<Rightarrow> llca_heap option" where
  "createLLCAObject a h =
     (if a = 0 \<or> ll_objs h a \<noteq> None then None
      else Some (h\<lparr>ll_objs := (ll_objs h)(a \<mapsto> \<lparr>lo_head = 0, lo_len = 0\<rparr>)\<rparr>))"

text \<open>The loop \<^verbatim>\<open>while(next && next->value < val){ prev = next; next = next->next; }\<close>, which returns
  the final \<open>prev\<close> and \<open>next\<close>.\<close>

partial_function (option) insert_loop ::
  "(addr \<rightharpoonup> llca_node) \<Rightarrow> int64 \<Rightarrow> addr \<Rightarrow> addr \<Rightarrow> (addr \<times> addr) option" where
  "insert_loop N val prev next =
     (if next = 0 then Some (prev, next)
      else case N next of
        None \<Rightarrow> None
      | Some n \<Rightarrow>
          if ln_value n <s val then insert_loop N val next (ln_next n)
          else Some (prev, next))"

definition llca_insert :: "addr \<Rightarrow> addr \<Rightarrow> int64 \<Rightarrow> llca_heap \<Rightarrow> llca_heap option" where
  "llca_insert newnode obj val h =
     (case ll_objs h obj of
        None \<Rightarrow> None
      | Some ob \<Rightarrow>
        (case insert_loop (ll_nodes h) val 0 (lo_head ob) of
           None \<Rightarrow> None
         | Some (prev, next) \<Rightarrow>
             if newnode = 0 \<or> ll_nodes h newnode \<noteq> None then None
             else
               let N = (ll_nodes h)(newnode \<mapsto> \<lparr>ln_value = val, ln_next = next\<rparr>) in
               if prev \<noteq> 0 then
                 (case N prev of
                    None \<Rightarrow> None
                  | Some p \<Rightarrow> Some (h\<lparr>ll_nodes := N(prev \<mapsto> p\<lparr>ln_next := newnode\<rparr>),
                                     ll_objs := (ll_objs h)(obj \<mapsto> ob\<lparr>lo_len := lo_len ob + 1\<rparr>)\<rparr>))
               else
                 Some (h\<lparr>ll_nodes := N,
                         ll_objs := (ll_objs h)
                           (obj \<mapsto> ob\<lparr>lo_head := newnode, lo_len := lo_len ob + 1\<rparr>)\<rparr>)))"

text \<open>\<^verbatim>\<open>RedisModule_Free\<close> on a node: freeing an address that is not live is undefined.\<close>

definition free_node :: "addr \<Rightarrow> llca_heap \<Rightarrow> llca_heap option" where
  "free_node a h =
     (if ll_nodes h a = None then None else Some (h\<lparr>ll_nodes := (ll_nodes h)(a := None)\<rparr>))"

definition set_next :: "addr \<Rightarrow> addr \<Rightarrow> llca_heap \<Rightarrow> llca_heap option" where
  "set_next p q h =
     (case ll_nodes h p of
        None \<Rightarrow> None
      | Some n \<Rightarrow> Some (h\<lparr>ll_nodes := (ll_nodes h)(p \<mapsto> n\<lparr>ln_next := q\<rparr>)\<rparr>))"

text \<open>The loop \<^verbatim>\<open>while(cur->next != NULL && cur->value != val){ prev = cur; cur = cur->next; }\<close>.\<close>

partial_function (option) remove_loop ::
  "(addr \<rightharpoonup> llca_node) \<Rightarrow> int64 \<Rightarrow> addr \<Rightarrow> addr \<Rightarrow> (addr \<times> addr) option" where
  "remove_loop N val prev cur =
     (case N cur of
        None \<Rightarrow> None
      | Some n \<Rightarrow>
          if ln_next n \<noteq> 0 \<and> ln_value n \<noteq> val then remove_loop N val cur (ln_next n)
          else Some (prev, cur))"

definition llca_remove :: "addr \<Rightarrow> int64 \<Rightarrow> llca_heap \<Rightarrow> (bool \<times> llca_heap) option" where
  "llca_remove obj val h =
     (case ll_objs h obj of
        None \<Rightarrow> None
      | Some ob \<Rightarrow>
        if lo_head ob = 0 then Some (False, h)
        else
          (case ll_nodes h (lo_head ob) of
             None \<Rightarrow> None
           | Some hd_node \<Rightarrow>
             if ln_value hd_node = val then
               do { h' \<leftarrow> free_node (lo_head ob)
                      (h\<lparr>ll_objs := (ll_objs h)(obj \<mapsto> ob\<lparr>lo_head := ln_next hd_node\<rparr>)\<rparr>);
                    Some (True, h') }
             else
               (case remove_loop (ll_nodes h) val (lo_head ob) (lo_head ob) of
                  None \<Rightarrow> None
                | Some (prev, cur) \<Rightarrow>
                  (case ll_nodes h cur of
                     None \<Rightarrow> None
                   | Some n \<Rightarrow>
                     if ln_next n = 0 then
                       (if ln_value n = val then
                          do { h' \<leftarrow> set_next prev 0 h; h'' \<leftarrow> free_node cur h'; Some (True, h'') }
                        else Some (False, h))
                     else
                       do { h' \<leftarrow> set_next prev (ln_next n) h;
                            h'' \<leftarrow> free_node cur h';
                            Some (True, h'') }))))"

partial_function (option) contains_loop :: "(addr \<rightharpoonup> llca_node) \<Rightarrow> int64 \<Rightarrow> addr \<Rightarrow> bool option" where
  "contains_loop N val cur =
     (if cur = 0 then Some False
      else case N cur of
        None \<Rightarrow> None
      | Some n \<Rightarrow> if ln_value n = val then Some True else contains_loop N val (ln_next n))"

definition llca_contains :: "addr \<Rightarrow> int64 \<Rightarrow> llca_heap \<Rightarrow> bool option" where
  "llca_contains obj val h =
     (case ll_objs h obj of
        None \<Rightarrow> None
      | Some ob \<Rightarrow> contains_loop (ll_nodes h) val (lo_head ob))"

partial_function (option) release_loop :: "addr \<Rightarrow> llca_heap \<Rightarrow> llca_heap option" where
  "release_loop cur h =
     (if cur = 0 then Some h
      else case ll_nodes h cur of
        None \<Rightarrow> None
      | Some n \<Rightarrow> release_loop (ln_next n) (h\<lparr>ll_nodes := (ll_nodes h)(cur := None)\<rparr>))"

definition llca_release :: "addr \<Rightarrow> llca_heap \<Rightarrow> llca_heap option" where
  "llca_release obj h =
     (case ll_objs h obj of
        None \<Rightarrow> None
      | Some ob \<Rightarrow>
        (case release_loop (lo_head ob) h of
           None \<Rightarrow> None
         | Some h' \<Rightarrow>
             if ll_objs h' obj = None then None
             else Some (h'\<lparr>ll_objs := (ll_objs h')(obj := None)\<rparr>)))"

text \<open>The value field of a live node.\<close>

definition node_val :: "(addr \<rightharpoonup> llca_node) \<Rightarrow> addr \<Rightarrow> int64" where
  "node_val N a = (case N a of None \<Rightarrow> 0 | Some n \<Rightarrow> ln_value n)"

text \<open>\<open>ll_path N p as q\<close>: following \<open>next\<close> from \<open>p\<close> visits the live nodes \<open>as\<close> and arrives at \<open>q\<close>.\<close>

fun ll_path :: "(addr \<rightharpoonup> llca_node) \<Rightarrow> addr \<Rightarrow> addr list \<Rightarrow> addr \<Rightarrow> bool" where
  "ll_path N p [] q = (p = q)"
| "ll_path N p (a # as) q =
     (p = a \<and> a \<noteq> 0 \<and> (case N a of None \<Rightarrow> False | Some n \<Rightarrow> ll_path N (ln_next n) as q))"

text \<open>The list object at \<open>obj\<close> is the chain \<open>as\<close> of live nodes.\<close>

definition ll_chain :: "llca_heap \<Rightarrow> addr \<Rightarrow> addr list \<Rightarrow> bool" where
  "ll_chain h obj as =
     (case ll_objs h obj of None \<Rightarrow> False | Some ob \<Rightarrow> ll_path (ll_nodes h) (lo_head ob) as 0)"

text \<open>The values a chain holds.\<close>

definition ll_vals :: "llca_heap \<Rightarrow> addr list \<Rightarrow> int64 list" where
  "ll_vals h as = map (node_val (ll_nodes h)) as"

subsection \<open>Paths\<close>

lemma node_val_simps [heap_simps]:
  "N a = Some n \<Longrightarrow> node_val N a = ln_value n"
  "a \<noteq> b \<Longrightarrow> node_val (N(b := x)) a = node_val N a"
  "node_val (N(b \<mapsto> n)) b = ln_value n"
  by (simp_all add: node_val_def)

lemma node_val_next [heap_simps]:
  "N b = Some n \<Longrightarrow> node_val (N(b \<mapsto> n\<lparr>ln_next := q\<rparr>)) a = node_val N a"
  by (simp add: node_val_def)

lemma ll_path_null [simp]: "ll_path N 0 as q \<longleftrightarrow> as = [] \<and> q = 0"
  by (cases as) auto

lemma ll_path_append [simp]:
  "ll_path N p (as @ bs) q \<longleftrightarrow> (\<exists>r. ll_path N p as r \<and> ll_path N r bs q)"
  by (induction as arbitrary: p) (auto split: option.splits)

lemma ll_path_upd [heap_simps]:
  "a \<notin> set as \<Longrightarrow> ll_path (N(a := x)) p as q = ll_path N p as q"
  by (induction as arbitrary: p) (auto split: option.splits)

lemma ll_path_upd_next [heap_simps]:
  "N a = Some n \<Longrightarrow> a \<notin> set as \<Longrightarrow> ll_path (N(a \<mapsto> m)) p as q = ll_path N p as q"
  by (simp add: heap_simps)

lemma ll_path_dom: "ll_path N p as q \<Longrightarrow> set as \<subseteq> dom N - {0}"
proof (induction as arbitrary: p)
  case (Cons a as)
  then show ?case by (fastforce split: option.splits)
qed simp

lemma ll_path_first: "ll_path N p as 0 \<Longrightarrow> p = first_or_null as"
  by (cases as) auto

lemma ll_path_first': "ll_path N p as q \<Longrightarrow> as \<noteq> [] \<Longrightarrow> p = hd as"
  by (cases as) auto

lemma ll_path_unique: "ll_path N p as 0 \<Longrightarrow> ll_path N p bs 0 \<Longrightarrow> as = bs"
proof (induction as arbitrary: p bs)
  case Nil
  then show ?case by simp
next
  case (Cons a as)
  then show ?case
    by (cases bs) (auto split: option.splits)
qed

lemma ll_path_distinct: "ll_path N p as 0 \<Longrightarrow> distinct as"
proof (induction as arbitrary: p)
  case Nil
  then show ?case by simp
next
  case (Cons a as)
  from Cons.prems obtain n where n: "N a = Some n" and path: "ll_path N (ln_next n) as 0"
    and p: "p = a" and a: "a \<noteq> 0"
    by (auto split: option.splits)
  have "a \<notin> set as"
  proof
    assume "a \<in> set as"
    then obtain bs cs where as: "as = bs @ a # cs"
      by (meson split_list)
    with path n have "ll_path N (ln_next n) cs 0"
      by (auto split: option.splits)
    with path have "as = cs"
      by (rule ll_path_unique)
    with as show False by simp
  qed
  with Cons.IH [OF path] show ?case by simp
qed

lemma ll_path_snoc_next:
  "ll_path N p (as @ [a]) q \<Longrightarrow> \<exists>n. N a = Some n \<and> ln_next n = q"
  by (auto split: option.splits)

text \<open>Redirecting the last node of a path.\<close>

lemma ll_path_redirect:
  assumes "ll_path N p (as @ [a]) q" and "a \<notin> set as" and "N a = Some n"
  shows "ll_path (N(a \<mapsto> n\<lparr>ln_next := r\<rparr>)) p (as @ [a]) r"
  using assms by (auto simp: heap_simps)

subsection \<open>The loops\<close>

lemma insert_loop_spec:
  assumes "ll_path N next as 0"
  shows "insert_loop N val prev next =
    Some (last (prev # takeWhile (\<lambda>a. node_val N a <s val) as),
          first_or_null (dropWhile (\<lambda>a. node_val N a <s val) as))"
  using assms
proof (induction as arbitrary: prev "next")
  case Nil
  then show ?case by (simp add: insert_loop.simps)
next
  case (Cons a as)
  then show ?case
    by (subst insert_loop.simps) (auto simp: heap_simps split: option.splits)
qed

lemma remove_loop_spec:
  assumes "ll_path N cur (a # as) 0"
  shows "\<exists>pre c post. a # as = pre @ c # post \<and> (\<forall>x \<in> set pre. node_val N x \<noteq> val) \<and>
    (post = [] \<or> node_val N c = val) \<and> remove_loop N val prev cur = Some (last (prev # pre), c)"
  using assms
proof (induction as arbitrary: a cur prev)
  case Nil
  then obtain n where "N a = Some n" "cur = a" "ln_next n = 0"
    by (auto split: option.splits)
  then have "remove_loop N val prev cur = Some (last (prev # []), a)"
    by (subst remove_loop.simps) simp
  then show ?case
    by (intro exI [of _ "[]"] exI [of _ a]) simp
next
  case (Cons b as)
  then obtain n where n: "N a = Some n" "cur = a" and path: "ll_path N (ln_next n) (b # as) 0"
    by (auto split: option.splits)
  show ?case
  proof (cases "ln_value n = val")
    case True
    with n have "remove_loop N val prev cur = Some (last (prev # []), a)"
      by (subst remove_loop.simps) simp
    with True n show ?thesis
      by (intro exI [of _ "[]"] exI [of _ a] exI [of _ "b # as"]) (simp add: heap_simps)
  next
    case False
    from Cons.IH [OF path, of a] obtain pre c post
      where "b # as = pre @ c # post" "\<forall>x \<in> set pre. node_val N x \<noteq> val"
        "post = [] \<or> node_val N c = val" "remove_loop N val a (ln_next n) = Some (last (a # pre), c)"
      by blast
    moreover from path n False have "remove_loop N val prev cur = remove_loop N val a (ln_next n)"
      by (subst remove_loop.simps) (simp split: option.splits)
    ultimately show ?thesis
      using n False
      by (intro exI [of _ "a # pre"] exI [of _ c] exI [of _ post]) (simp add: heap_simps)
  qed
qed

lemma contains_loop_spec:
  assumes "ll_path N cur as 0"
  shows "contains_loop N val cur = Some (val \<in> node_val N ` set as)"
  using assms
proof (induction as arbitrary: cur)
  case Nil
  then show ?case by (simp add: contains_loop.simps)
next
  case (Cons a as)
  then show ?case
    by (subst contains_loop.simps) (auto simp: heap_simps split: option.splits)
qed

lemma release_loop_spec:
  assumes "ll_path (ll_nodes h) cur as 0"
  shows "release_loop cur h = Some (h\<lparr>ll_nodes := ll_nodes h |` (- set as)\<rparr>)"
  using assms
proof (induction as arbitrary: cur h)
  case Nil
  then show ?case by (simp add: release_loop.simps)
next
  case (Cons a as)
  then obtain n where n: "ll_nodes h a = Some n" "cur = a" "a \<noteq> 0"
    and path: "ll_path (ll_nodes h) (ln_next n) as 0"
    by (auto split: option.splits)
  have "a \<notin> set as"
    using ll_path_distinct [OF Cons.prems] by simp
  then have "ll_path (ll_nodes (h\<lparr>ll_nodes := (ll_nodes h)(a := None)\<rparr>)) (ln_next n) as 0"
    using path by (simp add: heap_simps)
  from Cons.IH [OF this]
  have "release_loop (ln_next n) (h\<lparr>ll_nodes := (ll_nodes h)(a := None)\<rparr>)
      = Some (h\<lparr>ll_nodes := ((ll_nodes h)(a := None)) |` (- set as)\<rparr>)"
    by (cases h) (simp only: llca_heap.select_convs llca_heap.update_convs)
  then have "release_loop (ln_next n) (h\<lparr>ll_nodes := (ll_nodes h)(a := None)\<rparr>)
      = Some (h\<lparr>ll_nodes := ll_nodes h |` (- set (a # as))\<rparr>)"
    by (simp only: restrict_map_None list.set)
  with n show ?case
    by (subst release_loop.simps) (simp only: option.case if_False)
qed

subsection \<open>The abstract store\<close>

text \<open>
  The heap as a whole: every list object is a chain of live nodes, no two objects share a node and
  every live node belongs to an object (so nothing is leaked). \<open>ll_abs h S\<close> reads such a heap as
  a map from object addresses to the values of the list and the count in \<open>len\<close>.
\<close>

definition ll_layout :: "llca_heap \<Rightarrow> (addr \<rightharpoonup> addr list) \<Rightarrow> bool" where
  "ll_layout h F \<longleftrightarrow> dom F = dom (ll_objs h) \<and> 0 \<notin> dom F \<and>
     (\<forall>ob as. F ob = Some as \<longrightarrow> ll_chain h ob as) \<and>
     (\<forall>o1 o2 as bs. F o1 = Some as \<longrightarrow> F o2 = Some bs \<longrightarrow> o1 \<noteq> o2 \<longrightarrow> set as \<inter> set bs = {}) \<and>
     (\<forall>a. ll_nodes h a \<noteq> None \<longleftrightarrow> (\<exists>ob as. F ob = Some as \<and> a \<in> set as))"

definition ll_view :: "llca_heap \<Rightarrow> (addr \<rightharpoonup> addr list) \<Rightarrow> addr \<Rightarrow> (int64 list \<times> size64) option" where
  "ll_view h F ob =
     (case (ll_objs h ob, F ob) of
        (Some r, Some as) \<Rightarrow> Some (ll_vals h as, lo_len r)
      | _ \<Rightarrow> None)"

definition ll_abs :: "llca_heap \<Rightarrow> (addr \<rightharpoonup> int64 list \<times> size64) \<Rightarrow> bool" where
  "ll_abs h S \<longleftrightarrow> (\<exists>F. ll_layout h F \<and> S = ll_view h F)"

lemma ll_path_cong:
  "(\<And>a. a \<in> set as \<Longrightarrow> N a = M a) \<Longrightarrow> ll_path N p as q = ll_path M p as q"
  by (induction as arbitrary: p) (auto split: option.splits)

lemma ll_vals_cong:
  "(\<And>a. a \<in> set as \<Longrightarrow> ll_nodes h a = ll_nodes g a) \<Longrightarrow> ll_vals h as = ll_vals g as"
  by (simp add: ll_vals_def node_val_def)

lemma ll_layoutD:
  assumes "ll_layout h F" and "ll_objs h ob = Some r"
  obtains as where "F ob = Some as" "ll_path (ll_nodes h) (lo_head r) as 0" "distinct as"
    "set as \<subseteq> dom (ll_nodes h)"
proof -
  from assms obtain as where as: "F ob = Some as" "ll_chain h ob as"
    unfolding ll_layout_def by (metis domD domI)
  with assms have "ll_path (ll_nodes h) (lo_head r) as 0"
    by (simp add: ll_chain_def)
  with as that show ?thesis
    using ll_path_distinct ll_path_dom by blast
qed

lemma ll_layout_chain: "ll_layout h F \<Longrightarrow> F ob = Some as \<Longrightarrow> ll_chain h ob as"
  unfolding ll_layout_def by blast

lemma ll_layout_node: "ll_layout h F \<Longrightarrow> F ob = Some as \<Longrightarrow> a \<in> set as \<Longrightarrow> ll_nodes h a \<noteq> None"
  unfolding ll_layout_def by blast

lemma ll_layout_apart:
  "ll_layout h F \<Longrightarrow> F o1 = Some as \<Longrightarrow> F o2 = Some bs \<Longrightarrow> o1 \<noteq> o2 \<Longrightarrow> a \<in> set bs \<Longrightarrow> a \<notin> set as"
  unfolding ll_layout_def by blast

lemma ll_layout_owner:
  "ll_layout h F \<Longrightarrow> ll_nodes h a \<noteq> None \<Longrightarrow> \<exists>ob as. F ob = Some as \<and> a \<in> set as"
  unfolding ll_layout_def by blast

text \<open>Changing one object and its nodes leaves every other object as it was.\<close>

lemma ll_layout_update:
  assumes L: "ll_layout h F" and F: "F ob = Some as"
    and objs: "ll_objs h' = (ll_objs h)(ob \<mapsto> r)"
    and path: "ll_path (ll_nodes h') (lo_head r) as' 0"
    and same: "\<And>a. a \<notin> set as \<Longrightarrow> a \<notin> set as' \<Longrightarrow> ll_nodes h' a = ll_nodes h a"
    and new: "\<And>a. a \<in> set as' \<Longrightarrow> a \<notin> set as \<Longrightarrow> ll_nodes h a = None"
    and gone: "\<And>a. a \<in> set as \<Longrightarrow> a \<notin> set as' \<Longrightarrow> ll_nodes h' a = None"
  shows "ll_layout h' (F(ob \<mapsto> as'))"
    and "ll_view h' (F(ob \<mapsto> as')) = (ll_view h F)(ob \<mapsto> (ll_vals h' as', lo_len r))"
proof -
  have sep1: "a \<notin> set as" if "F o2 = Some bs" "o2 \<noteq> ob" "a \<in> set bs" for o2 bs a
    using ll_layout_apart [OF L F that(1) not_sym [OF that(2)] that(3)] .
  have sep2: "a \<notin> set as'" if "F o2 = Some bs" "o2 \<noteq> ob" "a \<in> set bs" for o2 bs a
    using new [OF _ sep1 [OF that]] ll_layout_node [OF L that(1,3)] by argo
  have keep: "ll_nodes h' a = ll_nodes h a"
    if "F o2 = Some bs" "o2 \<noteq> ob" "a \<in> set bs" for o2 bs a
    using same [OF sep1 [OF that] sep2 [OF that]] .
  have other: "ll_chain h' o2 bs" if "F o2 = Some bs" "o2 \<noteq> ob" for o2 bs
  proof -
    have "ll_chain h o2 bs" using L that by (simp add: ll_layout_def)
    moreover have "ll_path (ll_nodes h') p bs 0 = ll_path (ll_nodes h) p bs 0" for p
      by (rule ll_path_cong) (use keep that in blast)
    ultimately show ?thesis
      using that objs by (simp add: ll_chain_def split: option.splits)
  qed
  have owned: "ll_nodes h' a \<noteq> None \<longleftrightarrow> (\<exists>o2 bs. (F(ob \<mapsto> as')) o2 = Some bs \<and> a \<in> set bs)" for a
  proof (cases "a \<in> set as'")
    case True
    moreover from path True have "ll_nodes h' a \<noteq> None" using ll_path_dom by blast
    ultimately show ?thesis by auto
  next
    case False
    show ?thesis
    proof (cases "a \<in> set as")
      case True
      with False gone have "ll_nodes h' a = None" by blast
      moreover have "a \<notin> set bs" if "F o2 = Some bs" "o2 \<noteq> ob" for o2 bs
        using sep1 that True by blast
      ultimately show ?thesis using False by (auto split: if_splits)
    next
      case out: False
      have "ll_nodes h' a \<noteq> None \<longleftrightarrow> (\<exists>o2 bs. F o2 = Some bs \<and> a \<in> set bs)"
        using same [OF out False] ll_layout_node [OF L] ll_layout_owner [OF L] by metis
      also have "\<dots> \<longleftrightarrow> (\<exists>o2 bs. (F(ob \<mapsto> as')) o2 = Some bs \<and> a \<in> set bs)"
        using F out False by (metis fun_upd_apply option.inject)
      finally show ?thesis .
    qed
  qed
  have mine: "ll_chain h' ob as'"
    using path objs by (simp add: ll_chain_def)
  have "dom (F(ob \<mapsto> as')) = dom (ll_objs h')" "0 \<notin> dom (F(ob \<mapsto> as'))"
    using L F objs by (auto simp: ll_layout_def)
  moreover have "set xs \<inter> set ys = {}"
    if "(F(ob \<mapsto> as')) o1 = Some xs" "(F(ob \<mapsto> as')) o2 = Some ys" "o1 \<noteq> o2" for o1 o2 xs ys
  proof (cases "o1 = ob")
    case True
    with that sep2 [of o2 ys] show ?thesis by auto
  next
    case False
    show ?thesis
    proof (cases "o2 = ob")
      case True
      with False that sep2 [of o1 xs] show ?thesis by auto
    next
      case False
      with \<open>o1 \<noteq> ob\<close> that ll_layout_apart [OF L, of o1 xs o2 ys] show ?thesis by auto
    qed
  qed
  ultimately show "ll_layout h' (F(ob \<mapsto> as'))"
    using mine other owned unfolding ll_layout_def by (simp del: fun_upd_apply) (metis fun_upd_apply option.inject)
  show "ll_view h' (F(ob \<mapsto> as')) = (ll_view h F)(ob \<mapsto> (ll_vals h' as', lo_len r))"
  proof
    fix x
    show "ll_view h' (F(ob \<mapsto> as')) x = ((ll_view h F)(ob \<mapsto> (ll_vals h' as', lo_len r))) x"
      using objs ll_vals_cong [of _ h' h] keep [of x]
      by (cases "x = ob") (simp_all add: ll_view_def split: option.splits)
  qed
qed

lemma ll_abs_update:
  assumes L: "ll_layout h F" and F: "F ob = Some as" and S: "S = ll_view h F"
    and objs: "ll_objs h' = (ll_objs h)(ob \<mapsto> r)"
    and path: "ll_path (ll_nodes h') (lo_head r) as' 0"
    and same: "\<And>a. a \<notin> set as \<Longrightarrow> a \<notin> set as' \<Longrightarrow> ll_nodes h' a = ll_nodes h a"
    and new: "\<And>a. a \<in> set as' \<Longrightarrow> a \<notin> set as \<Longrightarrow> ll_nodes h a = None"
    and gone: "\<And>a. a \<in> set as \<Longrightarrow> a \<notin> set as' \<Longrightarrow> ll_nodes h' a = None"
    and res: "ll_vals h' as' = vs'" "lo_len r = n'"
  shows "ll_abs h' (S(ob \<mapsto> (vs', n')))"
  unfolding ll_abs_def
  using ll_layout_update [OF L F objs path same new gone] S res by metis

lemma ll_layout_add:
  assumes L: "ll_layout h F" and a: "a \<noteq> 0" "ll_objs h a = None"
    and h': "h' = h\<lparr>ll_objs := (ll_objs h)(a \<mapsto> r)\<rparr>" "lo_head r = 0"
  shows "ll_layout h' (F(a \<mapsto> []))" and "ll_view h' (F(a \<mapsto> [])) = (ll_view h F)(a \<mapsto> ([], lo_len r))"
proof -
  have F: "F a = None"
    using L a by (metis domIff ll_layout_def)
  show "ll_layout h' (F(a \<mapsto> []))"
  proof -
    have "ll_nodes h' b \<noteq> None \<longleftrightarrow> (\<exists>o2 bs. (F(a \<mapsto> [])) o2 = Some bs \<and> b \<in> set bs)" for b
    proof -
      have "ll_nodes h' b \<noteq> None \<longleftrightarrow> (\<exists>o2 bs. F o2 = Some bs \<and> b \<in> set bs)"
        using ll_layout_node [OF L] ll_layout_owner [OF L] h' by (simp, metis)
      also have "\<dots> \<longleftrightarrow> (\<exists>o2 bs. (F(a \<mapsto> [])) o2 = Some bs \<and> b \<in> set bs)"
        using F by (metis empty_iff fun_upd_apply list.set(1) option.distinct(1) option.inject)
      finally show ?thesis .
    qed
    moreover have "dom (F(a \<mapsto> [])) = dom (ll_objs h')" "0 \<notin> dom (F(a \<mapsto> []))"
      using L a h' by (auto simp: ll_layout_def)
    moreover have "ll_chain h' o2 bs" if "(F(a \<mapsto> [])) o2 = Some bs" for o2 bs
      using ll_layout_chain [OF L, of o2 bs] h' that
      by (cases "o2 = a") (simp_all add: ll_chain_def split: option.splits)
    moreover have "set xs \<inter> set ys = {}"
      if "(F(a \<mapsto> [])) o1 = Some xs" "(F(a \<mapsto> [])) o2 = Some ys" "o1 \<noteq> o2" for o1 o2 xs ys
      using that ll_layout_apart [OF L, of o1 xs o2 ys] by (auto split: if_splits)
    ultimately show ?thesis
      unfolding ll_layout_def by (simp del: fun_upd_apply)
  qed
  show "ll_view h' (F(a \<mapsto> [])) = (ll_view h F)(a \<mapsto> ([], lo_len r))"
    using h' by (auto simp: ll_view_def ll_vals_def fun_eq_iff split: option.splits)
qed

lemma ll_layout_drop:
  assumes L: "ll_layout h F" and F: "F a = Some as"
    and h': "h' = h\<lparr>ll_nodes := ll_nodes h |` (- set as), ll_objs := (ll_objs h)(a := None)\<rparr>"
  shows "ll_layout h' (F(a := None))" and "ll_view h' (F(a := None)) = (ll_view h F)(a := None)"
proof -
  have same: "ll_nodes h' b = ll_nodes h b" if "F o2 = Some bs" "o2 \<noteq> a" "b \<in> set bs" for o2 bs b
    using ll_layout_apart [OF L F that(1) not_sym [OF that(2)] that(3)] h' by (simp add: heap_simps)
  have other: "ll_chain h' o2 bs" if "F o2 = Some bs" "o2 \<noteq> a" for o2 bs
  proof -
    have "ll_chain h o2 bs" using L that by (simp add: ll_layout_def)
    moreover have "ll_path (ll_nodes h') p bs 0 = ll_path (ll_nodes h) p bs 0" for p
      by (rule ll_path_cong) (use same that in blast)
    ultimately show ?thesis
      using that h' by (simp add: ll_chain_def split: option.splits)
  qed
  have owned: "ll_nodes h' b \<noteq> None \<longleftrightarrow> (\<exists>o2 bs. (F(a := None)) o2 = Some bs \<and> b \<in> set bs)" for b
  proof (cases "b \<in> set as")
    case True
    then show ?thesis
      using ll_layout_apart [OF L _ F] h' by (fastforce simp: restrict_map_def split: if_splits)
  next
    case False
    then have "ll_nodes h' b \<noteq> None \<longleftrightarrow> ll_nodes h b \<noteq> None"
      using h' by (simp add: heap_simps)
    also have "\<dots> \<longleftrightarrow> (\<exists>o2 bs. F o2 = Some bs \<and> b \<in> set bs)"
      using ll_layout_node [OF L] ll_layout_owner [OF L] by metis
    also have "\<dots> \<longleftrightarrow> (\<exists>o2 bs. (F(a := None)) o2 = Some bs \<and> b \<in> set bs)"
      using F False by (metis fun_upd_apply option.inject option.distinct(1))
    finally show ?thesis .
  qed
  have "dom (F(a := None)) = dom (ll_objs h')" "0 \<notin> dom (F(a := None))"
    using L h' by (auto simp: ll_layout_def)
  moreover have "set xs \<inter> set ys = {}"
    if "(F(a := None)) o1 = Some xs" "(F(a := None)) o2 = Some ys" "o1 \<noteq> o2" for o1 o2 xs ys
    using that ll_layout_apart [OF L, of o1 xs o2 ys] by (auto split: if_splits)
  ultimately show "ll_layout h' (F(a := None))"
    using other owned unfolding ll_layout_def
    by (simp del: fun_upd_apply) (metis fun_upd_apply option.distinct(1))
  show "ll_view h' (F(a := None)) = (ll_view h F)(a := None)"
  proof
    fix x
    show "ll_view h' (F(a := None)) x = ((ll_view h F)(a := None)) x"
      using h' ll_vals_cong [of _ h' h] same [of x]
      by (cases "x = a") (simp_all add: ll_view_def split: option.splits)
  qed
qed

subsection \<open>Splicing a node in and out\<close>

lemma ll_path_suffix:
  assumes "ll_path N p (lo @ hi) 0"
  shows "ll_path N (first_or_null hi) hi 0" and "ll_path N p lo (first_or_null hi)"
  using assms ll_path_first by auto

lemma ll_path_link:
  assumes path: "ll_path N p (lo @ hi) 0" and new: "N new = None" "new \<noteq> 0"
    and M: "M = N(new \<mapsto> \<lparr>ln_value = v, ln_next = first_or_null hi\<rparr>)"
  shows "ll_path M new (new # hi) 0"
    and "lo \<noteq> [] \<Longrightarrow> M (last lo) = Some n \<Longrightarrow>
      ll_path (M(last lo \<mapsto> n\<lparr>ln_next := new\<rparr>)) p (lo @ new # hi) 0"
proof -
  have fresh: "new \<notin> set (lo @ hi)"
    using ll_path_dom [OF path] new by blast
  with ll_path_suffix(1) [OF path] M have hi: "ll_path M (first_or_null hi) hi 0"
    by (simp add: heap_simps)
  with M new show first: "ll_path M new (new # hi) 0" by simp
  assume "lo \<noteq> []" and n: "M (last lo) = Some n"
  then obtain xs a where lo: "lo = xs @ [a]" by (metis append_butlast_last_id)
  have d: "a \<noteq> new" "a \<notin> set xs" "a \<notin> set (new # hi)"
    using ll_path_distinct [OF path] fresh lo by auto
  have "ll_path M p (xs @ [a]) (first_or_null hi)"
    using ll_path_suffix(2) [OF path] fresh lo M by (subst M, subst ll_path_upd) auto
  with d n lo have "ll_path (M(a \<mapsto> n\<lparr>ln_next := new\<rparr>)) p (xs @ [a]) new"
    by (intro ll_path_redirect [of _ _ _ _ "first_or_null hi"]) simp_all
  moreover have "ll_path (M(a \<mapsto> n\<lparr>ln_next := new\<rparr>)) new (new # hi) 0"
    using first d by (subst ll_path_upd) simp_all
  ultimately have "ll_path (M(a \<mapsto> n\<lparr>ln_next := new\<rparr>)) p ((xs @ [a]) @ new # hi) 0"
    unfolding ll_path_append [of _ p "xs @ [a]"] by blast
  with lo show "ll_path (M(last lo \<mapsto> n\<lparr>ln_next := new\<rparr>)) p (lo @ new # hi) 0"
    by (metis last_snoc)
qed

lemma ll_path_unlink:
  assumes path: "ll_path N p (lo @ c # hi) 0" and lo: "lo \<noteq> []" and n: "N (last lo) = Some n"
  shows "ll_path (N(last lo \<mapsto> n\<lparr>ln_next := first_or_null hi\<rparr>, c := None)) p (lo @ hi) 0"
proof -
  obtain xs a where lo: "lo = xs @ [a]" using lo by (metis append_butlast_last_id)
  have d: "a \<noteq> c" "a \<notin> set xs" "a \<notin> set hi" "c \<notin> set hi" "c \<notin> set (xs @ [a])"
    using ll_path_distinct [OF path] lo by auto
  have "ll_path N p ((lo @ [c]) @ hi) 0" using path by simp
  from ll_path_suffix(1) [OF this] d
  have hi: "ll_path (N(a \<mapsto> n\<lparr>ln_next := first_or_null hi\<rparr>, c := None)) (first_or_null hi) hi 0"
    by (simp add: heap_simps)
  have "ll_path (N(a \<mapsto> n\<lparr>ln_next := first_or_null hi\<rparr>)) p (xs @ [a]) (first_or_null hi)"
    using ll_path_suffix(2) [OF path] d n lo by (intro ll_path_redirect [of _ _ _ _ c]) simp_all
  with d have "ll_path (N(a \<mapsto> n\<lparr>ln_next := first_or_null hi\<rparr>, c := None)) p (xs @ [a]) (first_or_null hi)"
    by (subst ll_path_upd) simp_all
  with hi have "ll_path (N(a \<mapsto> n\<lparr>ln_next := first_or_null hi\<rparr>, c := None)) p ((xs @ [a]) @ hi) 0"
    unfolding ll_path_append [of _ p "xs @ [a]"] by blast
  with lo show ?thesis
    by (metis last_snoc)
qed

subsection \<open>The operations on the abstract store\<close>

text \<open>The position \<open>llca_insert\<close> chooses: before the first value that is not smaller.\<close>

definition ins_before :: "int64 \<Rightarrow> int64 list \<Rightarrow> int64 list" where
  "ins_before v vs = takeWhile (\<lambda>x. x <s v) vs @ v # dropWhile (\<lambda>x. x <s v) vs"

text \<open>Ascending order of the signed values.\<close>

abbreviation ascending :: "int64 list \<Rightarrow> bool" where
  "ascending vs \<equiv> sorted (map sint vs)"

lemma set_ins_before [simp]: "set (ins_before v vs) = insert v (set vs)"
  unfolding ins_before_def by (metis Un_insert_right list.simps(15) set_append takeWhile_dropWhile_id)

lemma length_ins_before [simp]: "length (ins_before v vs) = Suc (length vs)"
proof -
  have "length (takeWhile P vs) + length (dropWhile P vs) = length vs" for P :: "int64 \<Rightarrow> bool"
    by (metis length_append takeWhile_dropWhile_id)
  then show ?thesis by (simp add: ins_before_def)
qed

lemma ascending_ins_before:
  assumes "ascending vs"
  shows "ascending (ins_before v vs)"
proof -
  let ?P = "\<lambda>x. x <s v"
  have s: "ascending (takeWhile ?P vs)" "ascending (dropWhile ?P vs)"
    using assms by (metis map_append sorted_append takeWhile_dropWhile_id)+
  have lo: "sint x < sint v" if "x \<in> set (takeWhile ?P vs)" for x
    using that by (auto dest: set_takeWhileD simp: sless_irrefl_iff)
  have hi: "sint v \<le> sint x" if "x \<in> set (dropWhile ?P vs)" for x
    using dropWhile_sorted_le [OF assms, of x "sint v"] that by (simp add: sless_irrefl_iff)
  show ?thesis
    using s lo hi by (fastforce simp: ins_before_def sorted_append)
qed

lemma ll_viewD:
  assumes "ll_layout h F" and "ll_view h F ob = Some (vs, n)"
  obtains as r where "ll_objs h ob = Some r" "F ob = Some as" "vs = ll_vals h as" "n = lo_len r"
    "ll_path (ll_nodes h) (lo_head r) as 0"
proof -
  from assms(2) obtain as r where *: "ll_objs h ob = Some r" "F ob = Some as" "vs = ll_vals h as" "n = lo_len r"
    by (auto simp: ll_view_def split: option.splits)
  with ll_layout_chain [OF assms(1)] have "ll_path (ll_nodes h) (lo_head r) as 0"
    by (force simp: ll_chain_def)
  with * that show ?thesis by blast
qed

lemma createLLCAObject_abs:
  assumes "ll_abs h S" and "a \<noteq> 0" and "ll_objs h a = None"
  shows "\<exists>h'. createLLCAObject a h = Some h' \<and> ll_nodes h' = ll_nodes h \<and> ll_abs h' (S(a \<mapsto> ([], 0)))"
proof -
  from assms obtain F where L: "ll_layout h F" and S: "S = ll_view h F"
    by (auto simp: ll_abs_def)
  let ?h = "h\<lparr>ll_objs := (ll_objs h)(a \<mapsto> \<lparr>lo_head = 0, lo_len = 0\<rparr>)\<rparr>"
  have "ll_abs ?h (S(a \<mapsto> ([], 0)))"
    unfolding ll_abs_def S using ll_layout_add [OF L assms(2,3) refl, of "\<lparr>lo_head = 0, lo_len = 0\<rparr>"]
    by (intro exI [of _ "F(a \<mapsto> [])"]) (simp del: fun_upd_apply)
  then show ?thesis
    using assms by (simp add: createLLCAObject_def)
qed

lemma llca_insert_abs:
  assumes "ll_abs h S" and "S obj = Some (vs, n)" and "newnode \<noteq> 0" and "ll_nodes h newnode = None"
  shows "\<exists>h'. llca_insert newnode obj v h = Some h' \<and>
    dom (ll_nodes h') = insert newnode (dom (ll_nodes h)) \<and> ll_abs h' (S(obj \<mapsto> (ins_before v vs, n + 1)))"
proof -
  from assms obtain F where L: "ll_layout h F" and S: "S = ll_view h F"
    by (auto simp: ll_abs_def)
  obtain as r where r: "ll_objs h obj = Some r" "F obj = Some as" "vs = ll_vals h as"
    "n = lo_len r" and path: "ll_path (ll_nodes h) (lo_head r) as 0"
    using assms(2) unfolding S by (rule ll_viewD [OF L])
  define N where "N = ll_nodes h"
  define lo where "lo = takeWhile (\<lambda>a. node_val N a <s v) as"
  define hi where "hi = dropWhile (\<lambda>a. node_val N a <s v) as"
  define M where "M = N(newnode \<mapsto> \<lparr>ln_value = v, ln_next = first_or_null hi\<rparr>)"
  have as: "as = lo @ hi" by (simp add: lo_def hi_def)
  have fresh: "newnode \<notin> set as" "set as \<subseteq> dom N"
    using ll_path_dom [OF path] assms(4) by (auto simp: N_def)
  have vs: "ins_before v vs = ll_vals h lo @ v # ll_vals h hi"
    unfolding r ins_before_def ll_vals_def lo_def hi_def N_def
    by (simp add: takeWhile_map dropWhile_map comp_def)
  have loop: "insert_loop (ll_nodes h) v 0 (lo_head r) = Some (last (0 # lo), first_or_null hi)"
    using insert_loop_spec [OF path] by (simp only: lo_def hi_def N_def)
  have link: "ll_path M newnode (newnode # hi) 0"
    "lo \<noteq> [] \<Longrightarrow> M (last lo) = Some q \<Longrightarrow>
       ll_path (M(last lo \<mapsto> q\<lparr>ln_next := newnode\<rparr>)) (lo_head r) (lo @ newnode # hi) 0" for q
    using ll_path_link [OF path [unfolded as]] assms(3,4) M_def N_def by auto
  have val: "node_val M a = node_val N a" if "a \<in> set as" for a
    using that fresh by (auto simp: M_def node_val_def)
  show ?thesis
  proof (cases "lo = []")
    case True
    let ?r = "r\<lparr>lo_head := newnode, lo_len := lo_len r + 1\<rparr>"
    let ?h = "h\<lparr>ll_nodes := M, ll_objs := (ll_objs h)(obj \<mapsto> ?r)\<rparr>"
    have run: "llca_insert newnode obj v h = Some ?h"
      using r(1) loop True assms(3,4) by (simp add: llca_insert_def M_def N_def Let_def)
    have vals: "ll_vals ?h (newnode # hi) = ins_before v vs"
      using True as val unfolding vs ll_vals_def by (simp add: M_def N_def node_val_def)
    have "ll_abs ?h (S(obj \<mapsto> (ins_before v vs, n + 1)))"
    proof (rule ll_abs_update [OF L r(2) S _ _ _ _ _ vals])
      show "ll_path (ll_nodes ?h) (lo_head ?r) (newnode # hi) 0"
        using link(1) by simp
    qed (use True as r(4) assms(4) in \<open>simp_all add: M_def N_def\<close>)
    moreover have "dom (ll_nodes ?h) = insert newnode (dom (ll_nodes h))"
      by (simp add: M_def N_def)
    ultimately show ?thesis using run by blast
  next
    case False
    then have in_as: "last lo \<in> set as" using as by simp
    then have last: "last lo \<in> set as" "last lo \<noteq> 0" "last lo \<noteq> newnode"
      using fresh(1) ll_path_dom [OF path] by blast+
    then obtain q where q: "M (last lo) = Some q" using fresh(2) by (auto simp: M_def)
    let ?M = "M(last lo \<mapsto> q\<lparr>ln_next := newnode\<rparr>)"
    let ?r = "r\<lparr>lo_len := lo_len r + 1\<rparr>"
    let ?h = "h\<lparr>ll_nodes := ?M, ll_objs := (ll_objs h)(obj \<mapsto> ?r)\<rparr>"
    have run: "llca_insert newnode obj v h = Some ?h"
      using r(1) loop False q assms(3,4) last by (simp add: llca_insert_def M_def N_def Let_def)
    have vals: "ll_vals ?h (lo @ newnode # hi) = ins_before v vs"
    proof -
      have "node_val ?M = node_val M"
        using q by (simp add: fun_eq_iff node_val_def)
      then show ?thesis
        using as val unfolding vs ll_vals_def by (simp add: N_def) (simp add: M_def node_val_def)
    qed
    have "ll_abs ?h (S(obj \<mapsto> (ins_before v vs, n + 1)))"
    proof (rule ll_abs_update [OF L r(2) S _ _ _ _ _ vals])
      show "ll_path (ll_nodes ?h) (lo_head ?r) (lo @ newnode # hi) 0"
        using link(2) [OF False q] by simp
      show "ll_nodes ?h a = ll_nodes h a" if "a \<notin> set as" "a \<notin> set (lo @ newnode # hi)" for a
        using that last by (auto simp: M_def N_def)
    qed (use False as r(4) assms(4) in auto)
    moreover have "dom (ll_nodes ?h) = insert newnode (dom (ll_nodes h))"
      using last fresh by (auto simp: M_def N_def)
    ultimately show ?thesis using run by blast
  qed
qed

text \<open>Taking the node of a found value out of the chain.\<close>

lemma ll_abs_unlink:
  assumes L: "ll_layout h F" and F: "F obj = Some (pre @ c # post)" and S: "S = ll_view h F"
    and r: "ll_objs h obj = Some r" and pre: "pre \<noteq> []"
    and val: "node_val (ll_nodes h) c = v" "\<forall>x \<in> set pre. node_val (ll_nodes h) x \<noteq> v"
  shows "\<exists>h'. do { h1 \<leftarrow> set_next (last pre) (first_or_null post) h; free_node c h1 } = Some h' \<and>
    ll_abs h' (S(obj \<mapsto> (remove1 v (ll_vals h (pre @ c # post)), lo_len r)))"
proof -
  have path: "ll_path (ll_nodes h) (lo_head r) (pre @ c # post) 0"
    using ll_layout_chain [OF L F] r by (simp add: ll_chain_def)
  have dist: "distinct (pre @ c # post)" using ll_path_distinct [OF path] .
  have "last pre \<in> set (pre @ c # post)" using pre by simp
  then obtain q where q: "ll_nodes h (last pre) = Some q"
    using ll_path_dom [OF path] by blast
  let ?N = "(ll_nodes h)(last pre \<mapsto> q\<lparr>ln_next := first_or_null post\<rparr>)"
  let ?h = "h\<lparr>ll_nodes := ?N(c := None)\<rparr>"
  have ne: "c \<noteq> last pre" using dist pre by auto
  obtain m where m: "ll_nodes h c = Some m"
    using ll_path_dom [OF path] by auto
  have run: "do { h1 \<leftarrow> set_next (last pre) (first_or_null post) h; free_node c h1 } = Some ?h"
    using q m ne by (simp add: set_next_def free_node_def)
  have nv: "node_val ?N = node_val (ll_nodes h)"
    using q by (simp add: fun_eq_iff node_val_def)
  have vals: "ll_vals ?h (pre @ post) = remove1 v (ll_vals h (pre @ c # post))"
  proof -
    have keep: "node_val (?N(c := None)) x = node_val (ll_nodes h) x" if "x \<in> set (pre @ post)" for x
      using that dist by (subst node_val_simps(2)) (auto simp only: nv set_append list.set distinct_append distinct.simps)
    have "v \<notin> set (map (node_val (ll_nodes h)) pre)" using val(2) by auto
    with val(1) have "remove1 v (ll_vals h (pre @ c # post)) = ll_vals h (pre @ post)"
      by (simp add: ll_vals_def remove1_append)
    also have "\<dots> = ll_vals ?h (pre @ post)"
      using keep by (simp add: ll_vals_def del: fun_upd_apply)
    finally show ?thesis by simp
  qed
  have "ll_abs ?h (S(obj \<mapsto> (remove1 v (ll_vals h (pre @ c # post)), lo_len r)))"
  proof (rule ll_abs_update [OF L F S _ _ _ _ _ vals refl])
    show "ll_path (ll_nodes ?h) (lo_head r) (pre @ post) 0"
      using ll_path_unlink [OF path pre q] by simp
    show "ll_nodes ?h a = ll_nodes h a" if "a \<notin> set (pre @ c # post)" for a
      using that pre by auto
    show "ll_nodes ?h a = None" if "a \<in> set (pre @ c # post)" "a \<notin> set (pre @ post)" for a
      using that by auto
    show "ll_objs ?h = (ll_objs h)(obj \<mapsto> r)"
      using r by auto
  qed auto
  with run show ?thesis by blast
qed

lemma llca_remove_abs:
  assumes "ll_abs h S" and "S obj = Some (vs, n)"
  shows "\<exists>h'. llca_remove obj v h = Some (v \<in> set vs, h') \<and> ll_abs h' (S(obj \<mapsto> (remove1 v vs, n)))"
proof -
  from assms obtain F where L: "ll_layout h F" and S: "S = ll_view h F"
    by (auto simp: ll_abs_def)
  obtain as r where r: "ll_objs h obj = Some r" "F obj = Some as" "vs = ll_vals h as"
    "n = lo_len r" and path: "ll_path (ll_nodes h) (lo_head r) as 0"
    using assms(2) unfolding S by (rule ll_viewD [OF L])
  have unchanged: "ll_abs h (S(obj \<mapsto> (vs, n)))"
    using assms by (simp add: fun_upd_idem)
  show ?thesis
  proof (cases as)
    case Nil
    then show ?thesis
      using r path unchanged by (simp add: llca_remove_def ll_vals_def)
  next
    case (Cons a as')
    then obtain m where m: "ll_nodes h a = Some m" "lo_head r = a" "a \<noteq> 0"
      and rest: "ll_path (ll_nodes h) (ln_next m) as' 0"
      using path by (auto split: option.splits)
    show ?thesis
    proof (cases "ln_value m = v")
      case True
      let ?h = "h\<lparr>ll_objs := (ll_objs h)(obj \<mapsto> r\<lparr>lo_head := ln_next m\<rparr>),
                  ll_nodes := (ll_nodes h)(a := None)\<rparr>"
      have run: "llca_remove obj v h = Some (True, ?h)"
        using r(1) m True by (simp add: llca_remove_def free_node_def)
      have fresh: "a \<notin> set as'"
        using ll_path_distinct [OF path] Cons by simp
      have vals: "ll_vals ?h as' = remove1 v vs"
        using fresh m True Cons unfolding r(3) ll_vals_def by (auto simp: node_val_def)
      have "ll_abs ?h (S(obj \<mapsto> (remove1 v vs, n)))"
      proof (rule ll_abs_update [OF L r(2) S _ _ _ _ _ vals])
        show "ll_path (ll_nodes ?h) (lo_head (r\<lparr>lo_head := ln_next m\<rparr>)) as' 0"
          using rest fresh by (simp add: heap_simps)
      qed (use Cons fresh r(4) in auto)
      moreover have "v \<in> set vs" using r(3) m True Cons by (simp add: ll_vals_def heap_simps)
      ultimately show ?thesis using run by simp
    next
      case False
      obtain pre c post where split: "as = pre @ c # post" "\<forall>x \<in> set pre. node_val (ll_nodes h) x \<noteq> v"
        and stop: "post = [] \<or> node_val (ll_nodes h) c = v"
        and loop: "remove_loop (ll_nodes h) v (lo_head r) (lo_head r) = Some (last (lo_head r # pre), c)"
        using remove_loop_spec [OF path [unfolded Cons], of v "lo_head r"] Cons by blast
      from path split obtain k where k: "ll_nodes h c = Some k" "ln_next k = first_or_null post"
        using ll_path_suffix(1) [of "ll_nodes h" "lo_head r" "pre @ [c]" post]
        by (auto split: option.splits dest: ll_path_first)
      have post0: "first_or_null post = 0 \<longleftrightarrow> post = []"
        using ll_path_dom [OF path] split by (intro first_or_null_eq_0) auto
      show ?thesis
      proof (cases "ln_value k = v")
        case True
        with False m have pre: "pre \<noteq> []" using split Cons k by auto
        with split k True have "\<exists>h'. do { h1 \<leftarrow> set_next (last pre) (first_or_null post) h; free_node c h1 } = Some h' \<and>
            ll_abs h' (S(obj \<mapsto> (remove1 v vs, n)))"
          using ll_abs_unlink [OF L _ S r(1), of pre c post v] r(2,3,4) by (simp add: heap_simps)
        moreover have "v \<in> set vs" using r(3) split k True by (simp add: ll_vals_def heap_simps)
        ultimately show ?thesis
          using r(1) m False loop k True pre post0 by (auto simp: llca_remove_def)
      next
        case absent: False
        with stop k have "post = []" by (auto simp: heap_simps)
        moreover have "v \<notin> set vs"
          using r(3) split k absent \<open>post = []\<close> by (auto simp: ll_vals_def heap_simps)
        ultimately show ?thesis
          using r(1) m False loop k absent unchanged by (simp add: llca_remove_def remove1_idem)
      qed
    qed
  qed
qed

lemma llca_contains_abs:
  assumes "ll_abs h S" and "S obj = Some (vs, n)"
  shows "llca_contains obj v h = Some (v \<in> set vs)"
proof -
  from assms obtain F where L: "ll_layout h F" and S: "S = ll_view h F"
    by (auto simp: ll_abs_def)
  obtain as r where "ll_objs h obj = Some r" "vs = ll_vals h as"
    "ll_path (ll_nodes h) (lo_head r) as 0"
    using assms(2) unfolding S by (rule ll_viewD [OF L])
  then show ?thesis
    using contains_loop_spec by (simp add: llca_contains_def ll_vals_def)
qed

lemma llca_release_abs:
  assumes "ll_abs h S" and "S obj \<noteq> None"
  shows "\<exists>h'. llca_release obj h = Some h' \<and> ll_abs h' (S(obj := None))"
proof -
  from assms obtain F where L: "ll_layout h F" and S: "S = ll_view h F"
    by (auto simp: ll_abs_def)
  from assms(2) obtain vs n where "ll_view h F obj = Some (vs, n)" using S by auto
  then obtain as r where r: "ll_objs h obj = Some r" "F obj = Some as"
    and path: "ll_path (ll_nodes h) (lo_head r) as 0"
    by (rule ll_viewD [OF L])
  let ?h = "h\<lparr>ll_nodes := ll_nodes h |` (- set as), ll_objs := (ll_objs h)(obj := None)\<rparr>"
  have "llca_release obj h = Some ?h"
    using r release_loop_spec [OF path] by (simp add: llca_release_def)
  moreover have "ll_abs ?h (S(obj := None))"
    unfolding ll_abs_def S using ll_layout_drop [OF L r(2) refl] by metis
  ultimately show ?thesis by blast
qed

subsection \<open>Properties\<close>

text \<open>A heap with one list object, at \<open>256\<close>, that holds \<open>5\<close> and \<open>9\<close>.\<close>

definition demo_heap :: llca_heap where
  "demo_heap =
     \<lparr>ll_nodes = [16 \<mapsto> \<lparr>ln_value = 5, ln_next = 32\<rparr>, 32 \<mapsto> \<lparr>ln_value = 9, ln_next = 0\<rparr>],
      ll_objs = [256 \<mapsto> \<lparr>lo_head = 16, lo_len = 2\<rparr>]\<rparr>"

lemma demo_layout: "ll_layout demo_heap [256 \<mapsto> [16, 32]]"
  by (auto simp: ll_layout_def demo_heap_def ll_chain_def split: if_splits)

lemma demo_abs: "ll_abs demo_heap [256 \<mapsto> ([5, 9], 2)]"
proof -
  have "ll_view demo_heap [256 \<mapsto> [16, 32]] = [256 \<mapsto> ([5, 9], 2)]"
    by (auto simp: ll_view_def ll_vals_def node_val_def demo_heap_def)
  with demo_layout show ?thesis unfolding ll_abs_def by metis
qed

lemma demo_lookup: "[256 \<mapsto> ([5, 9 :: int64], 2 :: size64)] (256 :: addr) = Some ([5, 9], 2)"
  by simp

text \<open>C23: \<open>llca_insert\<close> on a list with ascending values returns; it links in the new node before the
  first value that is not smaller, so the values stay ascending and gain exactly \<open>v\<close>, it adds one
  to \<open>len\<close>, and no other list of the heap changes and no node is lost.\<close>

theorem llca_insert_correct:
  assumes "ll_abs h S" and "S obj = Some (vs, n)" and "ascending vs"
    and "newnode \<noteq> 0" and "ll_nodes h newnode = None"
  shows "\<exists>h' vs'. llca_insert newnode obj v h = Some h' \<and> ll_abs h' (S(obj \<mapsto> (vs', n + 1))) \<and>
    vs' = takeWhile (\<lambda>x. x <s v) vs @ v # dropWhile (\<lambda>x. x <s v) vs \<and>
    ascending vs' \<and> set vs' = insert v (set vs) \<and> length vs' = Suc (length vs)"
proof -
  obtain h' where "llca_insert newnode obj v h = Some h'" "ll_abs h' (S(obj \<mapsto> (ins_before v vs, n + 1)))"
    using llca_insert_abs assms by blast
  then show ?thesis
    using ascending_ins_before [OF assms(3), of v]
    by (intro exI [of _ h'] exI [of _ "ins_before v vs"]) (simp add: ins_before_def [symmetric])
qed

theorem llca_insert_correct_witness:
  "\<exists>h' vs'. llca_insert 48 256 7 demo_heap = Some h' \<and> ll_abs h' ([256 \<mapsto> ([5, 9], 2)](256 \<mapsto> (vs', 2 + 1))) \<and>
    vs' = takeWhile (\<lambda>x. x <s 7) [5, 9] @ 7 # dropWhile (\<lambda>x. x <s 7) [5, 9] \<and>
    ascending vs' \<and> set vs' = insert 7 (set [5, 9]) \<and> length vs' = Suc (length [5 :: int64, 9])"
  by (rule llca_insert_correct [OF demo_abs demo_lookup]) (simp_all add: demo_heap_def)

text \<open>C24: \<open>llca_remove\<close> returns on every list of the heap; it reports whether the value occurs, unlinks
  and frees the node of its first occurrence if it does and changes nothing if it does not, with no
  access to freed memory and no effect on any other list. The count \<open>len\<close> keeps its value either way.\<close>

theorem llca_remove_correct:
  assumes "ll_abs h S" and "S obj = Some (vs, n)"
  shows "\<exists>h'. llca_remove obj v h = Some (v \<in> set vs, h') \<and> ll_abs h' (S(obj \<mapsto> (remove1 v vs, n))) \<and>
    (ascending vs \<longrightarrow> ascending (remove1 v vs))"
  using llca_remove_abs [OF assms, of v] by (auto simp: sorted_map_remove1)

theorem llca_remove_correct_witness:
  "\<exists>h'. llca_remove 256 9 demo_heap = Some (9 \<in> set [5, 9 :: int64], h') \<and>
    ll_abs h' ([256 \<mapsto> ([5, 9], 2)](256 \<mapsto> (remove1 9 [5, 9], 2))) \<and>
    (ascending [5 :: int64, 9] \<longrightarrow> ascending (remove1 9 [5, 9]))"
  by (rule llca_remove_correct [OF demo_abs demo_lookup])

text \<open>\<open>llca_contains\<close> returns on every list of the heap, and its answer is whether the value is one
  of the list's values, in whatever order they are.\<close>

theorem llca_contains_correct:
  assumes "ll_abs h S" and "S obj = Some (vs, n)"
  shows "llca_contains obj v h = Some (v \<in> set vs)"
  using assms by (rule llca_contains_abs)

theorem llca_contains_correct_witness: "llca_contains 256 9 demo_heap = Some (9 \<in> set [5, 9 :: int64])"
  by (rule llca_contains_correct [OF demo_abs demo_lookup])

text \<open>\<open>llca_release\<close> frees the list object and each of its nodes exactly once, and nothing else:
  it never frees an address that is not live, and the remaining lists of the heap are as before and
  still own all live nodes.\<close>

theorem llca_release_correct:
  assumes "ll_abs h S" and "S obj \<noteq> None"
  shows "\<exists>h'. llca_release obj h = Some h' \<and> ll_abs h' (S(obj := None)) \<and> ll_objs h' obj = None"
proof -
  obtain h' where "llca_release obj h = Some h'" "ll_abs h' (S(obj := None))"
    using llca_release_abs [OF assms] by blast
  moreover from this have "ll_objs h' obj = None"
    by (auto simp: llca_release_def split: option.splits if_splits)
  ultimately show ?thesis by blast
qed

theorem llca_release_correct_witness:
  "\<exists>h'. llca_release 256 demo_heap = Some h' \<and> ll_abs h' ([256 \<mapsto> ([5, 9], 2)](256 := None)) \<and>
    ll_objs h' 256 = None"
  by (rule llca_release_correct [OF demo_abs]) simp

end
