(* ===== verification/RedisModule.thy ===== *)
theory RedisModule
  imports Prelude
begin

text \<open>
  The interface between the module and the Redis server: \<^verbatim>\<open>src/src/redis/redismodule.h\<close>,
  \<^verbatim>\<open>redismodule_wrapper.h\<close> and \<^verbatim>\<open>redismodule.c\<close>.

  \<^item> The constants, the list of API functions \<open>RedisModule_Init\<close> resolves, and \<open>RedisModule_Init\<close>.
  \<^item> The server is not under \<^verbatim>\<open>src/\<close>. It is a parameter: a value of \<open>'w redis_api\<close> gives, for each
    API function the module calls, a function on the server's own state \<open>'w\<close>, of which nothing is
    known. Each call the module makes appends an entry to the trace \<open>st_trace\<close> of the state, so
    what the module asks of the server is visible whatever the server answers.
  \<^item> \<open>redis_laws\<close> states what the module relies on of the server: how key handles, the keyspace,
    the allocator and RDB streams behave. It is a hypothesis where a property needs it.

  A \<^verbatim>\<open>RedisModuleString\<close> is modelled by its bytes; contexts, keys, types, clients and streams are
  addresses. Of the variadic \<open>RedisModule_EmitAOF\<close> the model has the one argument list the module
  uses (a key and an integer, format \<^verbatim>\<open>"sl"\<close>).
\<close>

subsection \<open>Constants\<close>

definition REDISMODULE_OK :: int where "REDISMODULE_OK = 0"
definition REDISMODULE_ERR :: int where "REDISMODULE_ERR = 1"
definition REDISMODULE_APIVER_1 :: int where "REDISMODULE_APIVER_1 = 1"
definition REDISMODULE_READ :: int where "REDISMODULE_READ = 1"
definition REDISMODULE_WRITE :: int where "REDISMODULE_WRITE = 2"
definition REDISMODULE_KEYTYPE_EMPTY :: int where "REDISMODULE_KEYTYPE_EMPTY = 0"
definition REDISMODULE_KEYTYPE_MODULE :: int where "REDISMODULE_KEYTYPE_MODULE = 6"
definition REDISMODULE_ERRORMSG_WRONGTYPE :: string where
  "REDISMODULE_ERRORMSG_WRONGTYPE = ''WRONGTYPE Operation against a key holding the wrong kind of value''"

lemmas redis_constants = REDISMODULE_OK_def REDISMODULE_ERR_def REDISMODULE_APIVER_1_def
  REDISMODULE_READ_def REDISMODULE_WRITE_def REDISMODULE_KEYTYPE_EMPTY_def
  REDISMODULE_KEYTYPE_MODULE_def

lemma redis_constants_neq [simp]:
  "REDISMODULE_OK \<noteq> REDISMODULE_ERR" "REDISMODULE_ERR \<noteq> REDISMODULE_OK"
  "REDISMODULE_KEYTYPE_EMPTY \<noteq> REDISMODULE_KEYTYPE_MODULE"
  "REDISMODULE_KEYTYPE_MODULE \<noteq> REDISMODULE_KEYTYPE_EMPTY"
  by (simp_all add: redis_constants)

subsection \<open>The calls of the module\<close>

text \<open>The callbacks the module hands to the server, by name: the type methods of
  \<^verbatim>\<open>RedisModuleTypeMethods\<close> and the command functions \<open>conc_handler<E>\<close> and \<open>seq_handler<E>\<close>.\<close>

record type_methods =
  tm_version :: size64
  tm_rdb_load :: string
  tm_rdb_save :: string
  tm_aof_rewrite :: string
  tm_mem_usage :: string
  tm_digest :: string
  tm_free :: string

datatype cmd_func = Conc_Handler string | Seq_Handler string

datatype call =
    C_Alloc size64 addr
  | C_Free addr
  | C_AutoMemory addr
  | C_CreateString addr string size64
  | C_OpenKey addr string int addr
  | C_KeyType addr int
  | C_ModuleTypeGetType addr addr
  | C_ModuleTypeGetValue addr addr
  | C_ModuleTypeSetValue addr addr addr int
  | C_DeleteKey addr int
  | C_StringToLongLong string "int \<times> int64"
  | C_ReplyWithString addr string int
  | C_ReplyWithError addr string int
  | C_ReplyWithSimpleString addr string int
  | C_ThreadSafeContextLock addr
  | C_ThreadSafeContextUnlock addr
  | C_BlockClient addr int64 addr
  | C_UnblockClient addr addr int
  | C_GetThreadSafeContext addr addr
  | C_FreeThreadSafeContext addr
  | C_CreateDataType addr string int type_methods addr
  | C_CreateCommand addr string cmd_func string int int int int
  | C_SetModuleAttribs addr string int int
  | C_SaveUnsigned addr size64
  | C_SaveSigned addr int64
  | C_LoadUnsigned addr size64
  | C_LoadSigned addr int64
  | C_EmitAOF addr string string string int64
  | C_DigestAddLongLong addr int64
  | C_DigestEndSequence addr

text \<open>The server. \<open>r_Alloc\<close> is also given the addresses in use, which the server's allocator knows.\<close>

record 'w redis_api =
  r_Alloc :: "size64 \<Rightarrow> addr set \<Rightarrow> 'w \<Rightarrow> addr \<times> 'w"
  r_Free :: "addr \<Rightarrow> 'w \<Rightarrow> unit \<times> 'w"
  r_AutoMemory :: "addr \<Rightarrow> 'w \<Rightarrow> unit \<times> 'w"
  r_OpenKey :: "addr \<Rightarrow> string \<Rightarrow> int \<Rightarrow> 'w \<Rightarrow> addr \<times> 'w"
  r_KeyType :: "addr \<Rightarrow> 'w \<Rightarrow> int \<times> 'w"
  r_ModuleTypeGetType :: "addr \<Rightarrow> 'w \<Rightarrow> addr \<times> 'w"
  r_ModuleTypeGetValue :: "addr \<Rightarrow> 'w \<Rightarrow> addr \<times> 'w"
  r_ModuleTypeSetValue :: "addr \<Rightarrow> addr \<Rightarrow> addr \<Rightarrow> 'w \<Rightarrow> int \<times> 'w"
  r_DeleteKey :: "addr \<Rightarrow> 'w \<Rightarrow> int \<times> 'w"
  r_StringToLongLong :: "string \<Rightarrow> 'w \<Rightarrow> (int \<times> int64) \<times> 'w"
  r_ReplyWithString :: "addr \<Rightarrow> string \<Rightarrow> 'w \<Rightarrow> int \<times> 'w"
  r_ReplyWithError :: "addr \<Rightarrow> string \<Rightarrow> 'w \<Rightarrow> int \<times> 'w"
  r_ReplyWithSimpleString :: "addr \<Rightarrow> string \<Rightarrow> 'w \<Rightarrow> int \<times> 'w"
  r_ThreadSafeContextLock :: "addr \<Rightarrow> 'w \<Rightarrow> unit \<times> 'w"
  r_ThreadSafeContextUnlock :: "addr \<Rightarrow> 'w \<Rightarrow> unit \<times> 'w"
  r_BlockClient :: "addr \<Rightarrow> int64 \<Rightarrow> 'w \<Rightarrow> addr \<times> 'w"
  r_UnblockClient :: "addr \<Rightarrow> addr \<Rightarrow> 'w \<Rightarrow> int \<times> 'w"
  r_GetThreadSafeContext :: "addr \<Rightarrow> 'w \<Rightarrow> addr \<times> 'w"
  r_FreeThreadSafeContext :: "addr \<Rightarrow> 'w \<Rightarrow> unit \<times> 'w"
  r_CreateDataType :: "addr \<Rightarrow> string \<Rightarrow> int \<Rightarrow> type_methods \<Rightarrow> 'w \<Rightarrow> addr \<times> 'w"
  r_CreateCommand :: "addr \<Rightarrow> string \<Rightarrow> cmd_func \<Rightarrow> string \<Rightarrow> int \<Rightarrow> int \<Rightarrow> int \<Rightarrow> 'w \<Rightarrow> int \<times> 'w"
  r_SetModuleAttribs :: "addr \<Rightarrow> string \<Rightarrow> int \<Rightarrow> int \<Rightarrow> 'w \<Rightarrow> unit \<times> 'w"
  r_SaveUnsigned :: "addr \<Rightarrow> size64 \<Rightarrow> 'w \<Rightarrow> unit \<times> 'w"
  r_SaveSigned :: "addr \<Rightarrow> int64 \<Rightarrow> 'w \<Rightarrow> unit \<times> 'w"
  r_LoadUnsigned :: "addr \<Rightarrow> 'w \<Rightarrow> size64 \<times> 'w"
  r_LoadSigned :: "addr \<Rightarrow> 'w \<Rightarrow> int64 \<times> 'w"
  r_EmitAOF :: "addr \<Rightarrow> string \<Rightarrow> string \<Rightarrow> string \<Rightarrow> int64 \<Rightarrow> 'w \<Rightarrow> unit \<times> 'w"
  r_DigestAddLongLong :: "addr \<Rightarrow> int64 \<Rightarrow> 'w \<Rightarrow> unit \<times> 'w"
  r_DigestEndSequence :: "addr \<Rightarrow> 'w \<Rightarrow> unit \<times> 'w"

text \<open>The state of the module's process that the calls thread: the server and the calls so far.\<close>

record 'w host_state =
  st_srv :: 'w
  st_trace :: "call list"

definition host_call ::
  "('w \<Rightarrow> 'r \<times> 'w) \<Rightarrow> ('r \<Rightarrow> call) \<Rightarrow> ('w, 'm) host_state_scheme \<Rightarrow> 'r \<times> ('w, 'm) host_state_scheme" where
  "host_call f c st =
     (let (r, w) = f (st_srv st) in (r, st\<lparr>st_srv := w, st_trace := st_trace st @ [c r]\<rparr>))"

lemma host_call_eq:
  "host_call f c st =
     (fst (f (st_srv st)),
      st\<lparr>st_srv := snd (f (st_srv st)), st_trace := st_trace st @ [c (fst (f (st_srv st)))]\<rparr>)"
  by (simp add: host_call_def split_beta)

definition RedisModule_Alloc :: "'w redis_api \<Rightarrow> size64 \<Rightarrow> addr set \<Rightarrow> ('w, 'm) host_state_scheme \<Rightarrow>
    addr \<times> ('w, 'm) host_state_scheme" where
  "RedisModule_Alloc api n live = host_call (r_Alloc api n live) (C_Alloc n)"

text \<open>\<open>RedisModule_CreateString(ctx, ptr, len)\<close> copies \<open>len\<close> bytes from a string literal. Reading past
  the terminating zero of the literal is undefined.\<close>

definition RedisModule_CreateString :: "addr \<Rightarrow> string \<Rightarrow> size64 \<Rightarrow> ('w, 'm) host_state_scheme \<Rightarrow>
    (string \<times> ('w, 'm) host_state_scheme) option" where
  "RedisModule_CreateString ctx ptr len st =
     (if unat len \<le> Suc (length ptr)
      then Some (take (unat len) (ptr @ [CHR 0x00]),
                 st\<lparr>st_trace := st_trace st @ [C_CreateString ctx ptr len]\<rparr>)
      else None)"

definition RedisModule_Free :: "'w redis_api \<Rightarrow> addr \<Rightarrow> ('w, 'm) host_state_scheme \<Rightarrow>
    unit \<times> ('w, 'm) host_state_scheme" where
  "RedisModule_Free api p = host_call (r_Free api p) (\<lambda>_. C_Free p)"

definition RedisModule_AutoMemory :: "'w redis_api \<Rightarrow> addr \<Rightarrow> ('w, 'm) host_state_scheme \<Rightarrow>
    unit \<times> ('w, 'm) host_state_scheme" where
  "RedisModule_AutoMemory api ctx = host_call (r_AutoMemory api ctx) (\<lambda>_. C_AutoMemory ctx)"

definition RedisModule_OpenKey :: "'w redis_api \<Rightarrow> addr \<Rightarrow> string \<Rightarrow> int \<Rightarrow> ('w, 'm) host_state_scheme \<Rightarrow>
    addr \<times> ('w, 'm) host_state_scheme" where
  "RedisModule_OpenKey api ctx name mode = host_call (r_OpenKey api ctx name mode) (C_OpenKey ctx name mode)"

definition RedisModule_KeyType :: "'w redis_api \<Rightarrow> addr \<Rightarrow> ('w, 'm) host_state_scheme \<Rightarrow>
    int \<times> ('w, 'm) host_state_scheme" where
  "RedisModule_KeyType api k = host_call (r_KeyType api k) (C_KeyType k)"

definition RedisModule_ModuleTypeGetType :: "'w redis_api \<Rightarrow> addr \<Rightarrow> ('w, 'm) host_state_scheme \<Rightarrow>
    addr \<times> ('w, 'm) host_state_scheme" where
  "RedisModule_ModuleTypeGetType api k = host_call (r_ModuleTypeGetType api k) (C_ModuleTypeGetType k)"

definition RedisModule_ModuleTypeGetValue :: "'w redis_api \<Rightarrow> addr \<Rightarrow> ('w, 'm) host_state_scheme \<Rightarrow>
    addr \<times> ('w, 'm) host_state_scheme" where
  "RedisModule_ModuleTypeGetValue api k = host_call (r_ModuleTypeGetValue api k) (C_ModuleTypeGetValue k)"

definition RedisModule_ModuleTypeSetValue :: "'w redis_api \<Rightarrow> addr \<Rightarrow> addr \<Rightarrow> addr \<Rightarrow> ('w, 'm) host_state_scheme \<Rightarrow>
    int \<times> ('w, 'm) host_state_scheme" where
  "RedisModule_ModuleTypeSetValue api k mt v = host_call (r_ModuleTypeSetValue api k mt v) (C_ModuleTypeSetValue k mt v)"

definition RedisModule_DeleteKey :: "'w redis_api \<Rightarrow> addr \<Rightarrow> ('w, 'm) host_state_scheme \<Rightarrow>
    int \<times> ('w, 'm) host_state_scheme" where
  "RedisModule_DeleteKey api k = host_call (r_DeleteKey api k) (C_DeleteKey k)"

definition RedisModule_StringToLongLong :: "'w redis_api \<Rightarrow> string \<Rightarrow> ('w, 'm) host_state_scheme \<Rightarrow>
    (int \<times> int64) \<times> ('w, 'm) host_state_scheme" where
  "RedisModule_StringToLongLong api s = host_call (r_StringToLongLong api s) (C_StringToLongLong s)"

definition RedisModule_ReplyWithString :: "'w redis_api \<Rightarrow> addr \<Rightarrow> string \<Rightarrow> ('w, 'm) host_state_scheme \<Rightarrow>
    int \<times> ('w, 'm) host_state_scheme" where
  "RedisModule_ReplyWithString api ctx s = host_call (r_ReplyWithString api ctx s) (C_ReplyWithString ctx s)"

definition RedisModule_ReplyWithError :: "'w redis_api \<Rightarrow> addr \<Rightarrow> string \<Rightarrow> ('w, 'm) host_state_scheme \<Rightarrow>
    int \<times> ('w, 'm) host_state_scheme" where
  "RedisModule_ReplyWithError api ctx s = host_call (r_ReplyWithError api ctx s) (C_ReplyWithError ctx s)"

definition RedisModule_ReplyWithSimpleString :: "'w redis_api \<Rightarrow> addr \<Rightarrow> string \<Rightarrow> ('w, 'm) host_state_scheme \<Rightarrow>
    int \<times> ('w, 'm) host_state_scheme" where
  "RedisModule_ReplyWithSimpleString api ctx s = host_call (r_ReplyWithSimpleString api ctx s) (C_ReplyWithSimpleString ctx s)"

definition RedisModule_ThreadSafeContextLock :: "'w redis_api \<Rightarrow> addr \<Rightarrow> ('w, 'm) host_state_scheme \<Rightarrow>
    unit \<times> ('w, 'm) host_state_scheme" where
  "RedisModule_ThreadSafeContextLock api ctx = host_call (r_ThreadSafeContextLock api ctx) (\<lambda>_. C_ThreadSafeContextLock ctx)"

definition RedisModule_ThreadSafeContextUnlock :: "'w redis_api \<Rightarrow> addr \<Rightarrow> ('w, 'm) host_state_scheme \<Rightarrow>
    unit \<times> ('w, 'm) host_state_scheme" where
  "RedisModule_ThreadSafeContextUnlock api ctx = host_call (r_ThreadSafeContextUnlock api ctx) (\<lambda>_. C_ThreadSafeContextUnlock ctx)"

definition RedisModule_BlockClient :: "'w redis_api \<Rightarrow> addr \<Rightarrow> int64 \<Rightarrow> ('w, 'm) host_state_scheme \<Rightarrow>
    addr \<times> ('w, 'm) host_state_scheme" where
  "RedisModule_BlockClient api ctx timeout = host_call (r_BlockClient api ctx timeout) (C_BlockClient ctx timeout)"

definition RedisModule_UnblockClient :: "'w redis_api \<Rightarrow> addr \<Rightarrow> addr \<Rightarrow> ('w, 'm) host_state_scheme \<Rightarrow>
    int \<times> ('w, 'm) host_state_scheme" where
  "RedisModule_UnblockClient api bc priv = host_call (r_UnblockClient api bc priv) (C_UnblockClient bc priv)"

definition RedisModule_GetThreadSafeContext :: "'w redis_api \<Rightarrow> addr \<Rightarrow> ('w, 'm) host_state_scheme \<Rightarrow>
    addr \<times> ('w, 'm) host_state_scheme" where
  "RedisModule_GetThreadSafeContext api bc = host_call (r_GetThreadSafeContext api bc) (C_GetThreadSafeContext bc)"

definition RedisModule_FreeThreadSafeContext :: "'w redis_api \<Rightarrow> addr \<Rightarrow> ('w, 'm) host_state_scheme \<Rightarrow>
    unit \<times> ('w, 'm) host_state_scheme" where
  "RedisModule_FreeThreadSafeContext api ctx = host_call (r_FreeThreadSafeContext api ctx) (\<lambda>_. C_FreeThreadSafeContext ctx)"

definition RedisModule_CreateDataType :: "'w redis_api \<Rightarrow> addr \<Rightarrow> string \<Rightarrow> int \<Rightarrow> type_methods \<Rightarrow> ('w, 'm) host_state_scheme \<Rightarrow>
    addr \<times> ('w, 'm) host_state_scheme" where
  "RedisModule_CreateDataType api ctx name encver tm = host_call (r_CreateDataType api ctx name encver tm) (C_CreateDataType ctx name encver tm)"

definition RedisModule_CreateCommand :: "'w redis_api \<Rightarrow> addr \<Rightarrow> string \<Rightarrow> cmd_func \<Rightarrow> string \<Rightarrow> int \<Rightarrow> int \<Rightarrow> int \<Rightarrow> ('w, 'm) host_state_scheme \<Rightarrow>
    int \<times> ('w, 'm) host_state_scheme" where
  "RedisModule_CreateCommand api ctx name f flags firstkey lastkey keystep = host_call (r_CreateCommand api ctx name f flags firstkey lastkey keystep) (C_CreateCommand ctx name f flags firstkey lastkey keystep)"

definition RedisModule_SetModuleAttribs :: "'w redis_api \<Rightarrow> addr \<Rightarrow> string \<Rightarrow> int \<Rightarrow> int \<Rightarrow> ('w, 'm) host_state_scheme \<Rightarrow>
    unit \<times> ('w, 'm) host_state_scheme" where
  "RedisModule_SetModuleAttribs api ctx name ver apiver = host_call (r_SetModuleAttribs api ctx name ver apiver) (\<lambda>_. C_SetModuleAttribs ctx name ver apiver)"

definition RedisModule_SaveUnsigned :: "'w redis_api \<Rightarrow> addr \<Rightarrow> size64 \<Rightarrow> ('w, 'm) host_state_scheme \<Rightarrow>
    unit \<times> ('w, 'm) host_state_scheme" where
  "RedisModule_SaveUnsigned api io v = host_call (r_SaveUnsigned api io v) (\<lambda>_. C_SaveUnsigned io v)"

definition RedisModule_SaveSigned :: "'w redis_api \<Rightarrow> addr \<Rightarrow> int64 \<Rightarrow> ('w, 'm) host_state_scheme \<Rightarrow>
    unit \<times> ('w, 'm) host_state_scheme" where
  "RedisModule_SaveSigned api io v = host_call (r_SaveSigned api io v) (\<lambda>_. C_SaveSigned io v)"

definition RedisModule_LoadUnsigned :: "'w redis_api \<Rightarrow> addr \<Rightarrow> ('w, 'm) host_state_scheme \<Rightarrow>
    size64 \<times> ('w, 'm) host_state_scheme" where
  "RedisModule_LoadUnsigned api io = host_call (r_LoadUnsigned api io) (C_LoadUnsigned io)"

definition RedisModule_LoadSigned :: "'w redis_api \<Rightarrow> addr \<Rightarrow> ('w, 'm) host_state_scheme \<Rightarrow>
    int64 \<times> ('w, 'm) host_state_scheme" where
  "RedisModule_LoadSigned api io = host_call (r_LoadSigned api io) (C_LoadSigned io)"

definition RedisModule_EmitAOF :: "'w redis_api \<Rightarrow> addr \<Rightarrow> string \<Rightarrow> string \<Rightarrow> string \<Rightarrow> int64 \<Rightarrow> ('w, 'm) host_state_scheme \<Rightarrow>
    unit \<times> ('w, 'm) host_state_scheme" where
  "RedisModule_EmitAOF api io cmd fmt key v = host_call (r_EmitAOF api io cmd fmt key v) (\<lambda>_. C_EmitAOF io cmd fmt key v)"

definition RedisModule_DigestAddLongLong :: "'w redis_api \<Rightarrow> addr \<Rightarrow> int64 \<Rightarrow> ('w, 'm) host_state_scheme \<Rightarrow>
    unit \<times> ('w, 'm) host_state_scheme" where
  "RedisModule_DigestAddLongLong api md v = host_call (r_DigestAddLongLong api md v) (\<lambda>_. C_DigestAddLongLong md v)"

definition RedisModule_DigestEndSequence :: "'w redis_api \<Rightarrow> addr \<Rightarrow> ('w, 'm) host_state_scheme \<Rightarrow>
    unit \<times> ('w, 'm) host_state_scheme" where
  "RedisModule_DigestEndSequence api md = host_call (r_DigestEndSequence api md) (\<lambda>_. C_DigestEndSequence md)"

text \<open>A call as its effect on the state.\<close>

lemmas host_simps = host_call_eq
  RedisModule_Alloc_def
  RedisModule_CreateString_def
  RedisModule_Free_def
  RedisModule_AutoMemory_def
  RedisModule_OpenKey_def
  RedisModule_KeyType_def
  RedisModule_ModuleTypeGetType_def
  RedisModule_ModuleTypeGetValue_def
  RedisModule_ModuleTypeSetValue_def
  RedisModule_DeleteKey_def
  RedisModule_StringToLongLong_def
  RedisModule_ReplyWithString_def
  RedisModule_ReplyWithError_def
  RedisModule_ReplyWithSimpleString_def
  RedisModule_ThreadSafeContextLock_def
  RedisModule_ThreadSafeContextUnlock_def
  RedisModule_BlockClient_def
  RedisModule_UnblockClient_def
  RedisModule_GetThreadSafeContext_def
  RedisModule_FreeThreadSafeContext_def
  RedisModule_CreateDataType_def
  RedisModule_CreateCommand_def
  RedisModule_SetModuleAttribs_def
  RedisModule_SaveUnsigned_def
  RedisModule_SaveSigned_def
  RedisModule_LoadUnsigned_def
  RedisModule_LoadSigned_def
  RedisModule_EmitAOF_def
  RedisModule_DigestAddLongLong_def
  RedisModule_DigestEndSequence_def

subsection \<open>Resolving the API\<close>

text \<open>The names \<open>RedisModule_Init\<close> passes to \<open>REDISMODULE_GET_API\<close>, in its order; the second list is
  under \<^verbatim>\<open>REDISMODULE_EXPERIMENTAL_API\<close>, which \<^verbatim>\<open>redismodule.c\<close> and \<^verbatim>\<open>redismodule_wrapper.h\<close> define.\<close>

definition init_api_names :: "string list" where
  "init_api_names = [
    ''Alloc'', ''Calloc'', ''Free'', ''Realloc'', ''Strdup'', ''CreateCommand'',
    ''SetModuleAttribs'', ''WrongArity'', ''ReplyWithLongLong'', ''ReplyWithError'',
    ''ReplyWithSimpleString'', ''ReplyWithArray'', ''ReplySetArrayLength'',
    ''ReplyWithStringBuffer'', ''ReplyWithString'', ''ReplyWithNull'', ''ReplyWithCallReply'',
    ''ReplyWithDouble'', ''ReplySetArrayLength'', ''GetSelectedDb'', ''SelectDb'', ''OpenKey'',
    ''CloseKey'', ''KeyType'', ''ValueLength'', ''ListPush'', ''ListPop'',
    ''StringToLongLong'', ''StringToDouble'', ''Call'', ''CallReplyProto'', ''FreeCallReply'',
    ''CallReplyInteger'', ''CallReplyType'', ''CallReplyLength'', ''CallReplyArrayElement'',
    ''CallReplyStringPtr'', ''CreateStringFromCallReply'', ''CreateString'',
    ''CreateStringFromLongLong'', ''CreateStringFromString'', ''CreateStringPrintf'',
    ''FreeString'', ''StringPtrLen'', ''AutoMemory'', ''Replicate'', ''ReplicateVerbatim'',
    ''DeleteKey'', ''StringSet'', ''StringDMA'', ''StringTruncate'', ''GetExpire'',
    ''SetExpire'', ''ZsetAdd'', ''ZsetIncrby'', ''ZsetScore'', ''ZsetRem'', ''ZsetRangeStop'',
    ''ZsetFirstInScoreRange'', ''ZsetLastInScoreRange'', ''ZsetFirstInLexRange'',
    ''ZsetLastInLexRange'', ''ZsetRangeCurrentElement'', ''ZsetRangeNext'', ''ZsetRangePrev'',
    ''ZsetRangeEndReached'', ''HashSet'', ''HashGet'', ''IsKeysPositionRequest'', ''KeyAtPos'',
    ''GetClientId'', ''GetContextFlags'', ''PoolAlloc'', ''CreateDataType'',
    ''ModuleTypeSetValue'', ''ModuleTypeGetType'', ''ModuleTypeGetValue'', ''SaveUnsigned'',
    ''LoadUnsigned'', ''SaveSigned'', ''LoadSigned'', ''SaveString'', ''SaveStringBuffer'',
    ''LoadString'', ''LoadStringBuffer'', ''SaveDouble'', ''LoadDouble'', ''SaveFloat'',
    ''LoadFloat'', ''EmitAOF'', ''Log'', ''LogIOError'', ''StringAppendBuffer'',
    ''RetainString'', ''StringCompare'', ''GetContextFromIO'', ''Milliseconds'',
    ''DigestAddStringBuffer'', ''DigestAddLongLong'', ''DigestEndSequence'']"

definition init_experimental_names :: "string list" where
  "init_experimental_names = [
    ''GetThreadSafeContext'', ''FreeThreadSafeContext'', ''ThreadSafeContextLock'',
    ''ThreadSafeContextUnlock'', ''BlockClient'', ''UnblockClient'', ''IsBlockedReplyRequest'',
    ''IsBlockedTimeoutRequest'', ''GetBlockedClientPrivateData'', ''AbortBlock'']"

text \<open>The function-pointer variables of the header, null until resolved. \<open>getapi\<close> is the server's
  table; \<open>RedisModule_GetApi\<close> returns an error and leaves the variable alone for a name it lacks.\<close>

definition REDISMODULE_GET_API ::
  "(string \<rightharpoonup> addr) \<Rightarrow> string \<Rightarrow> (string \<Rightarrow> addr) \<Rightarrow> int \<times> (string \<Rightarrow> addr)" where
  "REDISMODULE_GET_API getapi name fp =
     (case getapi (''RedisModule_'' @ name) of
        None \<Rightarrow> (REDISMODULE_ERR, fp)
      | Some p \<Rightarrow> (REDISMODULE_OK, fp(name := p)))"

text \<open>A call through a null function pointer is undefined.\<close>

definition RedisModule_Init :: "'w redis_api \<Rightarrow> (string \<rightharpoonup> addr) \<Rightarrow> addr \<Rightarrow> string \<Rightarrow> int \<Rightarrow> int \<Rightarrow>
    (string \<Rightarrow> addr) \<Rightarrow> ('w, 'm) host_state_scheme \<Rightarrow>
    (int \<times> (string \<Rightarrow> addr) \<times> ('w, 'm) host_state_scheme) option" where
  "RedisModule_Init api getapi ctx name ver apiver fp st =
     (let fp' = fold (\<lambda>n fp. snd (REDISMODULE_GET_API getapi n fp))
                  (init_api_names @ init_experimental_names) fp
      in if fp' ''SetModuleAttribs'' = 0 then None
         else let (_, st') = RedisModule_SetModuleAttribs api ctx name ver apiver st
              in Some (REDISMODULE_OK, fp', st'))"

definition Export_RedisModule_Init :: "'w redis_api \<Rightarrow> (string \<rightharpoonup> addr) \<Rightarrow> addr \<Rightarrow> string \<Rightarrow> int \<Rightarrow> int \<Rightarrow>
    (string \<Rightarrow> addr) \<Rightarrow> ('w, 'm) host_state_scheme \<Rightarrow>
    (int \<times> (string \<Rightarrow> addr) \<times> ('w, 'm) host_state_scheme) option" where
  "Export_RedisModule_Init api getapi ctx name ver apiver fp st =
     RedisModule_Init api getapi ctx name ver apiver fp st"

end
