(* ===== verification/Event_Queue.thy ===== *)
theory Event_Queue
  imports RedisModule
begin

text \<open>
  The event queue of \<^verbatim>\<open>src/src/eventqueue.h\<close> and \<^verbatim>\<open>eventqueue.cpp\<close>: the constructor and destructor of
  \<open>event\<close>, the operations \<open>enqueue\<close> and \<open>dequeue\<close>, and the command functions \<open>conc_handler<E>\<close> and
  \<open>seq_handler<E>\<close>.

  The template argument \<open>E\<close>, the class whose \<open>execute\<close> runs, is a value of the type parameter \<open>'e\<close>; a
  queued \<open>shared_ptr<event>\<close> is that class together with the members of \<open>event\<close>. The queue's mutex
  is held for the whole body of \<open>enqueue\<close> and \<open>dequeue\<close>, so each is one step.
\<close>

subsection \<open>Events\<close>

record event =
  ev_ctx :: addr
  ev_argv :: "string list"
  ev_argc :: int
  ev_client :: addr
  ev_thread_safe :: bool

definition event_ctor :: "'w redis_api \<Rightarrow> addr \<Rightarrow> string list \<Rightarrow> int \<Rightarrow> bool \<Rightarrow>
    ('w, 'm) host_state_scheme \<Rightarrow> event \<times> ('w, 'm) host_state_scheme" where
  "event_ctor api ctx_a argv argc ts st =
     (if ts then
        (\<lparr>ev_ctx = ctx_a, ev_argv = argv, ev_argc = argc, ev_client = 0, ev_thread_safe = ts\<rparr>, st)
      else
        let (client, st) = RedisModule_BlockClient api ctx_a 0 st;
            (ctx, st) = RedisModule_GetThreadSafeContext api client st
        in (\<lparr>ev_ctx = ctx, ev_argv = argv, ev_argc = argc, ev_client = client, ev_thread_safe = ts\<rparr>, st))"

definition event_dtor :: "'w redis_api \<Rightarrow> event \<Rightarrow> ('w, 'm) host_state_scheme \<Rightarrow>
    ('w, 'm) host_state_scheme" where
  "event_dtor api e st =
     (if \<not> ev_thread_safe e then
        let (_, st) = RedisModule_FreeThreadSafeContext api (ev_ctx e) st;
            (_, st) = RedisModule_UnblockClient api (ev_client e) 0 st
        in st
      else st)"

subsection \<open>The queue\<close>

record 'e event_queue =
  eq_events :: "('e \<times> event) list"

definition enqueue :: "'e \<times> event \<Rightarrow> 'e event_queue \<Rightarrow> 'e event_queue" where
  "enqueue e q = q\<lparr>eq_events := eq_events q @ [e]\<rparr>"

definition dequeue :: "'e event_queue \<Rightarrow> ('e \<times> event) option \<times> 'e event_queue" where
  "dequeue q =
     (case eq_events q of
        [] \<Rightarrow> (None, q)
      | e # es \<Rightarrow> (Some e, q\<lparr>eq_events := es\<rparr>))"

subsection \<open>Command functions\<close>

definition conc_handler :: "'w redis_api \<Rightarrow> 'e \<Rightarrow> addr \<Rightarrow> string list \<Rightarrow> int \<Rightarrow> 'e event_queue \<Rightarrow>
    ('w, 'm) host_state_scheme \<Rightarrow> int \<times> 'e event_queue \<times> ('w, 'm) host_state_scheme" where
  "conc_handler api E ctx argv argc q st =
     (let (e, st) = event_ctor api ctx argv argc False st
      in (REDISMODULE_OK, enqueue (E, e) q, st))"

definition seq_handler :: "'w redis_api \<Rightarrow>
    (event \<Rightarrow> ('w, 'm) host_state_scheme \<Rightarrow> ('w, 'm) host_state_scheme option) \<Rightarrow>
    addr \<Rightarrow> string list \<Rightarrow> int \<Rightarrow> ('w, 'm) host_state_scheme \<Rightarrow>
    (int \<times> ('w, 'm) host_state_scheme) option" where
  "seq_handler api execute ctx argv argc st =
     (let (e, st) = event_ctor api ctx argv argc True st
      in do { st \<leftarrow> execute e st; Some (REDISMODULE_OK, event_dtor api e st) })"

subsection \<open>First in, first out\<close>

text \<open>The contract of a queue, over its items from the front. \<open>drain deq n\<close> takes \<open>n\<close> items out.\<close>

fun drain :: "('q \<Rightarrow> 'a option \<times> 'q) \<Rightarrow> nat \<Rightarrow> 'q \<Rightarrow> 'a option list \<times> 'q" where
  "drain deq 0 q = ([], q)"
| "drain deq (Suc n) q = (let (x, q) = deq q; (xs, q) = drain deq n q in (x # xs, q))"

locale fifo =
  fixes enq :: "'a \<Rightarrow> 'q \<Rightarrow> 'q" and deq :: "'q \<Rightarrow> 'a option \<times> 'q" and items :: "'q \<Rightarrow> 'a list"
  assumes items_enq: "items (enq x q) = items q @ [x]"
    and deq_Nil: "items q = [] \<Longrightarrow> deq q = (None, q)"
    and deq_Cons: "items q = x # xs \<Longrightarrow> fst (deq q) = Some x \<and> items (snd (deq q)) = xs"
begin

lemma items_enqs: "items (fold enq xs q) = items q @ xs"
  by (induction xs arbitrary: q) (simp_all add: items_enq)

lemma drain_items:
  "n \<le> length (items q) \<Longrightarrow>
     fst (drain deq n q) = map Some (take n (items q)) \<and> items (snd (drain deq n q)) = drop n (items q)"
proof (induction n arbitrary: q)
  case (Suc n)
  then obtain x xs where "items q = x # xs" by (cases "items q") auto
  with Suc.IH [of "snd (deq q)"] Suc.prems deq_Cons [of q x xs] show ?case
    by (simp add: Let_def split_beta)
qed simp

lemma drain_rest: "items q = [] \<Longrightarrow> drain deq n q = (replicate n None, q)"
  by (induction n) (simp_all add: deq_Nil)

lemma drain_add:
  "drain deq (m + n) q = (fst (drain deq m q) @ fst (drain deq n (snd (drain deq m q))),
     snd (drain deq n (snd (drain deq m q))))"
  by (induction m arbitrary: q) (simp_all add: Let_def split_beta)

end

interpretation queue: fifo enqueue dequeue "eq_events :: 'e event_queue \<Rightarrow> ('e \<times> event) list"
  by unfold_locales (auto simp: enqueue_def dequeue_def split: list.splits)

lemma dequeue_cases:
  obtains (Empty) "eq_events q = []" "dequeue q = (None, q)"
  | (Event) x xs q' where "eq_events q = x # xs" "dequeue q = (Some x, q')" "eq_events q' = xs"
proof (cases "eq_events q")
  case Nil
  then show ?thesis by (intro Empty) (simp_all add: dequeue_def)
next
  case (Cons x xs)
  then show ?thesis by (intro Event [of x xs "q\<lparr>eq_events := xs\<rparr>"]) (simp_all add: dequeue_def)
qed

subsection \<open>Properties\<close>

text \<open>The queue is first in, first out: from any queue, after enqueuing events \<open>es\<close>, dequeuing as often
  as there are events gives those that were there and then \<open>es\<close>, each once and in order, and every further
  dequeue gives null and leaves the queue alone.\<close>

theorem event_queue_fifo:
  "drain dequeue (length (eq_events q) + length es + k) (fold enqueue es q) =
     (map Some (eq_events q @ es) @ replicate k None, q\<lparr>eq_events := []\<rparr>)"
proof -
  let ?q = "fold enqueue es q" and ?n = "length (eq_events q) + length es"
  have it: "eq_events ?q = eq_events q @ es" by (rule queue.items_enqs)
  have d: "fst (drain dequeue ?n ?q) = map Some (eq_events q @ es)" "eq_events (snd (drain dequeue ?n ?q)) = []"
    using queue.drain_items [of ?n ?q] it by simp_all
  then have "snd (drain dequeue ?n ?q) = q\<lparr>eq_events := []\<rparr>"
    using d(2) by (cases "snd (drain dequeue ?n ?q)"; cases q) simp
  with d show ?thesis
    using queue.drain_add [of ?n k ?q] queue.drain_rest [OF d(2), of k] by simp
qed

text \<open>\<open>conc_handler\<close> answers OK without running the event: it blocks the client once, gets a context for
  the client, and appends to the queue one event with that context, the arguments and the client.\<close>

theorem conc_handler_queues:
  "\<exists>client ctx'. conc_handler api E ctx argv argc q st =
     (REDISMODULE_OK,
      q\<lparr>eq_events := eq_events q @ [(E, \<lparr>ev_ctx = ctx', ev_argv = argv, ev_argc = argc, ev_client = client,
          ev_thread_safe = False\<rparr>)]\<rparr>,
      snd (RedisModule_GetThreadSafeContext api client (snd (RedisModule_BlockClient api ctx 0 st)))) \<and>
     st_trace (snd (snd (conc_handler api E ctx argv argc q st))) =
       st_trace st @ [C_BlockClient ctx 0 client, C_GetThreadSafeContext client ctx']"
  by (simp add: conc_handler_def event_ctor_def enqueue_def host_simps Let_def split_beta)

end
