(* ===== verification/Redis_Server.thy ===== *)
theory Redis_Server
  imports RedisModule
begin

text \<open>
  What the module relies on of the Redis server, as a predicate over a server and a view of its
  state, with one lemma per API function that gives the effect of the call under that predicate.
  At the end, a small concrete server that satisfies it.

  The laws are the documented behaviour of the module API: a key handle names a key, the type and
  the value of a key are those last set, a handle opened for writing is never null, replies and
  the module lock do not change the keyspace, and an allocation that succeeds is fresh.
\<close>

subsection \<open>The view\<close>

datatype key_entry =
    K_Other int
  | K_Module addr addr

datatype rdb_item = RDB_Unsigned size64 | RDB_Signed int64

text \<open>\<open>v_keys\<close> is the keyspace, \<open>v_handles\<close> the keys that open handles stand for, \<open>v_parse\<close> the integer
  syntax of \<open>RedisModule_StringToLongLong\<close>, and \<open>v_room w live n\<close> says that the allocator can serve
  \<open>n\<close> more requests when \<open>live\<close> are the addresses in use. \<open>v_rdb w io\<close> are the items of the RDB stream
  \<open>io\<close> that were saved and not yet loaded.\<close>

record 'w redis_view =
  v_keys :: "'w \<Rightarrow> string \<rightharpoonup> key_entry"
  v_handles :: "'w \<Rightarrow> addr \<rightharpoonup> string"
  v_parse :: "string \<rightharpoonup> int64"
  v_room :: "'w \<Rightarrow> addr set \<Rightarrow> nat \<Rightarrow> bool"
  v_rdb :: "'w \<Rightarrow> addr \<Rightarrow> rdb_item list"

definition same_view :: "'w redis_view \<Rightarrow> 'w \<Rightarrow> 'w \<Rightarrow> bool" where
  "same_view V w w' \<longleftrightarrow> v_keys V w' = v_keys V w \<and> v_handles V w' = v_handles V w \<and>
     v_rdb V w' = v_rdb V w \<and>
     (\<forall>live n. v_room V w live n \<longrightarrow> v_room V w' live n)"

definition entry_type :: "key_entry option \<Rightarrow> int" where
  "entry_type e = (case e of
      None \<Rightarrow> REDISMODULE_KEYTYPE_EMPTY
    | Some (K_Other t) \<Rightarrow> t
    | Some (K_Module _ _) \<Rightarrow> REDISMODULE_KEYTYPE_MODULE)"

definition entry_module_type :: "key_entry option \<Rightarrow> addr" where
  "entry_module_type e = (case e of Some (K_Module mt _) \<Rightarrow> mt | _ \<Rightarrow> 0)"

definition entry_value :: "key_entry option \<Rightarrow> addr" where
  "entry_value e = (case e of Some (K_Module _ v) \<Rightarrow> v | _ \<Rightarrow> 0)"

subsection \<open>The laws\<close>

definition law_OpenKey :: "'w redis_api \<Rightarrow> 'w redis_view \<Rightarrow> bool" where
  "law_OpenKey api V \<longleftrightarrow> (\<forall>ctx name w k w'.
     r_OpenKey api ctx name (or REDISMODULE_READ REDISMODULE_WRITE) w = (k, w') \<longrightarrow>
     v_handles V w' k = Some name \<and> v_keys V w' = v_keys V w \<and>
     (\<forall>live n. v_room V w live n \<longrightarrow> v_room V w' live n))"

definition law_KeyType :: "'w redis_api \<Rightarrow> 'w redis_view \<Rightarrow> bool" where
  "law_KeyType api V \<longleftrightarrow> (\<forall>k name w t w'.
     v_handles V w k = Some name \<longrightarrow> r_KeyType api k w = (t, w') \<longrightarrow>
     t = entry_type (v_keys V w name) \<and> same_view V w w')"

definition law_ModuleTypeGetType :: "'w redis_api \<Rightarrow> 'w redis_view \<Rightarrow> bool" where
  "law_ModuleTypeGetType api V \<longleftrightarrow> (\<forall>k name w mt w'.
     v_handles V w k = Some name \<longrightarrow> r_ModuleTypeGetType api k w = (mt, w') \<longrightarrow>
     mt = entry_module_type (v_keys V w name) \<and> same_view V w w')"

definition law_ModuleTypeGetValue :: "'w redis_api \<Rightarrow> 'w redis_view \<Rightarrow> bool" where
  "law_ModuleTypeGetValue api V \<longleftrightarrow> (\<forall>k name w v w'.
     v_handles V w k = Some name \<longrightarrow> r_ModuleTypeGetValue api k w = (v, w') \<longrightarrow>
     v = entry_value (v_keys V w name) \<and> same_view V w w')"

definition law_ModuleTypeSetValue :: "'w redis_api \<Rightarrow> 'w redis_view \<Rightarrow> bool" where
  "law_ModuleTypeSetValue api V \<longleftrightarrow> (\<forall>k name mt v w r w'.
     v_handles V w k = Some name \<longrightarrow> r_ModuleTypeSetValue api k mt v w = (r, w') \<longrightarrow>
     v_keys V w' = (v_keys V w)(name \<mapsto> K_Module mt v) \<and> v_handles V w' = v_handles V w \<and>
     (\<forall>live n. v_room V w live n \<longrightarrow> v_room V w' live n))"

definition law_DeleteKey :: "'w redis_api \<Rightarrow> 'w redis_view \<Rightarrow> bool" where
  "law_DeleteKey api V \<longleftrightarrow> (\<forall>k name w r w'.
     v_handles V w k = Some name \<longrightarrow> r_DeleteKey api k w = (r, w') \<longrightarrow>
     v_keys V w' = (v_keys V w)(name := None) \<and> v_handles V w' = v_handles V w \<and>
     (\<forall>live n. v_room V w live n \<longrightarrow> v_room V w' live n))"

definition law_StringToLongLong :: "'w redis_api \<Rightarrow> 'w redis_view \<Rightarrow> bool" where
  "law_StringToLongLong api V \<longleftrightarrow> (\<forall>s w r v w'.
     r_StringToLongLong api s w = ((r, v), w') \<longrightarrow> same_view V w w' \<and>
     (case v_parse V s of None \<Rightarrow> r \<noteq> REDISMODULE_OK | Some n \<Rightarrow> r = REDISMODULE_OK \<and> v = n))"

definition law_Alloc :: "'w redis_api \<Rightarrow> 'w redis_view \<Rightarrow> bool" where
  "law_Alloc api V \<longleftrightarrow> (\<forall>bytes live n w a w'.
     v_room V w live (Suc n) \<longrightarrow> r_Alloc api bytes live w = (a, w') \<longrightarrow>
     a \<noteq> 0 \<and> a \<notin> live \<and> v_room V w' (insert a live) n \<and>
     v_keys V w' = v_keys V w \<and> v_handles V w' = v_handles V w \<and> v_rdb V w' = v_rdb V w)"

definition law_room :: "'w redis_view \<Rightarrow> bool" where
  "law_room V \<longleftrightarrow> (\<forall>w live live' n n'.
     v_room V w live n \<longrightarrow> live' \<subseteq> live \<longrightarrow> n' \<le> n \<longrightarrow> v_room V w live' n')"

definition law_rdb :: "'w redis_api \<Rightarrow> 'w redis_view \<Rightarrow> bool" where
  "law_rdb api V \<longleftrightarrow> (\<forall>io v w.
     v_rdb V (snd (r_SaveUnsigned api io v w)) io = v_rdb V w io @ [RDB_Unsigned v] \<and>
     v_rdb V (snd (r_SaveSigned api io v w)) io = v_rdb V w io @ [RDB_Signed v] \<and>
     (\<forall>u rest. v_rdb V w io = RDB_Unsigned u # rest \<longrightarrow>
        fst (r_LoadUnsigned api io w) = u \<and> v_rdb V (snd (r_LoadUnsigned api io w)) io = rest) \<and>
     (\<forall>i rest. v_rdb V w io = RDB_Signed i # rest \<longrightarrow>
        fst (r_LoadSigned api io w) = i \<and> v_rdb V (snd (r_LoadSigned api io w)) io = rest) \<and>
     (\<forall>live n. v_room V w live n \<longrightarrow> v_room V (snd (r_LoadUnsigned api io w)) live n \<and>
        v_room V (snd (r_LoadSigned api io w)) live n))"

definition law_neutral :: "'w redis_api \<Rightarrow> 'w redis_view \<Rightarrow> bool" where
  "law_neutral api V \<longleftrightarrow> (\<forall>ctx p s w.
     same_view V w (snd (r_AutoMemory api ctx w)) \<and>
     same_view V w (snd (r_Free api p w)) \<and>
     same_view V w (snd (r_ThreadSafeContextLock api ctx w)) \<and>
     same_view V w (snd (r_ThreadSafeContextUnlock api ctx w)) \<and>
     same_view V w (snd (r_ReplyWithString api ctx s w)) \<and>
     same_view V w (snd (r_ReplyWithError api ctx s w)) \<and>
     same_view V w (snd (r_ReplyWithSimpleString api ctx s w)))"

definition law_types :: "'w redis_view \<Rightarrow> bool" where
  "law_types V \<longleftrightarrow> (\<forall>w name t. v_keys V w name = Some (K_Other t) \<longrightarrow>
     t \<noteq> REDISMODULE_KEYTYPE_EMPTY \<and> t \<noteq> REDISMODULE_KEYTYPE_MODULE)"

definition redis_laws :: "'w redis_api \<Rightarrow> 'w redis_view \<Rightarrow> bool" where
  "redis_laws api V \<longleftrightarrow> law_OpenKey api V \<and> law_KeyType api V \<and> law_ModuleTypeGetType api V \<and>
     law_ModuleTypeGetValue api V \<and> law_ModuleTypeSetValue api V \<and> law_DeleteKey api V \<and>
     law_StringToLongLong api V \<and> law_Alloc api V \<and> law_neutral api V \<and> law_room V \<and> law_rdb api V \<and> law_types V"

lemmas redis_law_defs = redis_laws_def law_OpenKey_def law_KeyType_def law_ModuleTypeGetType_def
  law_ModuleTypeGetValue_def law_ModuleTypeSetValue_def law_DeleteKey_def law_StringToLongLong_def
  law_Alloc_def law_neutral_def law_room_def law_rdb_def law_types_def

subsection \<open>The effect of the calls\<close>

text \<open>The laws as rewrite rules: what the view is after a call, and what the call returns.\<close>

lemma same_view_refl [simp]: "same_view V w w"
  by (simp add: same_view_def)

lemma same_viewD:
  assumes "same_view V w w'"
  shows "v_keys V w' = v_keys V w" "v_handles V w' = v_handles V w" "v_rdb V w' = v_rdb V w"
    "v_room V w live n \<Longrightarrow> v_room V w' live n"
  using assms by (simp_all add: same_view_def)

lemma server_neutral:
  assumes "redis_laws api V"
  shows
  "v_keys V (snd (r_AutoMemory api ctx w)) = v_keys V w" "v_handles V (snd (r_AutoMemory api ctx w)) = v_handles V w"
    "v_rdb V (snd (r_AutoMemory api ctx w)) = v_rdb V w" "v_room V w live n \<Longrightarrow> v_room V (snd (r_AutoMemory api ctx w)) live n"
  "v_keys V (snd (r_Free api p w)) = v_keys V w" "v_handles V (snd (r_Free api p w)) = v_handles V w"
    "v_rdb V (snd (r_Free api p w)) = v_rdb V w" "v_room V w live n \<Longrightarrow> v_room V (snd (r_Free api p w)) live n"
  "v_keys V (snd (r_ThreadSafeContextLock api ctx w)) = v_keys V w" "v_handles V (snd (r_ThreadSafeContextLock api ctx w)) = v_handles V w"
    "v_rdb V (snd (r_ThreadSafeContextLock api ctx w)) = v_rdb V w" "v_room V w live n \<Longrightarrow> v_room V (snd (r_ThreadSafeContextLock api ctx w)) live n"
  "v_keys V (snd (r_ThreadSafeContextUnlock api ctx w)) = v_keys V w" "v_handles V (snd (r_ThreadSafeContextUnlock api ctx w)) = v_handles V w"
    "v_rdb V (snd (r_ThreadSafeContextUnlock api ctx w)) = v_rdb V w" "v_room V w live n \<Longrightarrow> v_room V (snd (r_ThreadSafeContextUnlock api ctx w)) live n"
  "v_keys V (snd (r_ReplyWithString api ctx s w)) = v_keys V w" "v_handles V (snd (r_ReplyWithString api ctx s w)) = v_handles V w"
    "v_rdb V (snd (r_ReplyWithString api ctx s w)) = v_rdb V w" "v_room V w live n \<Longrightarrow> v_room V (snd (r_ReplyWithString api ctx s w)) live n"
  "v_keys V (snd (r_ReplyWithError api ctx s w)) = v_keys V w" "v_handles V (snd (r_ReplyWithError api ctx s w)) = v_handles V w"
    "v_rdb V (snd (r_ReplyWithError api ctx s w)) = v_rdb V w" "v_room V w live n \<Longrightarrow> v_room V (snd (r_ReplyWithError api ctx s w)) live n"
  "v_keys V (snd (r_ReplyWithSimpleString api ctx s w)) = v_keys V w" "v_handles V (snd (r_ReplyWithSimpleString api ctx s w)) = v_handles V w"
    "v_rdb V (snd (r_ReplyWithSimpleString api ctx s w)) = v_rdb V w" "v_room V w live n \<Longrightarrow> v_room V (snd (r_ReplyWithSimpleString api ctx s w)) live n"
proof -
  have "same_view V w (snd (r_AutoMemory api ctx w))" "same_view V w (snd (r_Free api p w))"
    "same_view V w (snd (r_ThreadSafeContextLock api ctx w))"
    "same_view V w (snd (r_ThreadSafeContextUnlock api ctx w))"
    "same_view V w (snd (r_ReplyWithString api ctx s w))"
    "same_view V w (snd (r_ReplyWithError api ctx s w))"
    "same_view V w (snd (r_ReplyWithSimpleString api ctx s w))" for ctx p s w
    using assms by (simp_all add: redis_laws_def law_neutral_def)
  note same_viewD [OF this(1)] same_viewD [OF this(2)] same_viewD [OF this(3)] same_viewD [OF this(4)]
    same_viewD [OF this(5)] same_viewD [OF this(6)] same_viewD [OF this(7)]
  then show
    "v_keys V (snd (r_AutoMemory api ctx w)) = v_keys V w" "v_handles V (snd (r_AutoMemory api ctx w)) = v_handles V w"
      "v_rdb V (snd (r_AutoMemory api ctx w)) = v_rdb V w" "v_room V w live n \<Longrightarrow> v_room V (snd (r_AutoMemory api ctx w)) live n"
    "v_keys V (snd (r_Free api p w)) = v_keys V w" "v_handles V (snd (r_Free api p w)) = v_handles V w"
      "v_rdb V (snd (r_Free api p w)) = v_rdb V w" "v_room V w live n \<Longrightarrow> v_room V (snd (r_Free api p w)) live n"
    "v_keys V (snd (r_ThreadSafeContextLock api ctx w)) = v_keys V w" "v_handles V (snd (r_ThreadSafeContextLock api ctx w)) = v_handles V w"
      "v_rdb V (snd (r_ThreadSafeContextLock api ctx w)) = v_rdb V w" "v_room V w live n \<Longrightarrow> v_room V (snd (r_ThreadSafeContextLock api ctx w)) live n"
    "v_keys V (snd (r_ThreadSafeContextUnlock api ctx w)) = v_keys V w" "v_handles V (snd (r_ThreadSafeContextUnlock api ctx w)) = v_handles V w"
      "v_rdb V (snd (r_ThreadSafeContextUnlock api ctx w)) = v_rdb V w" "v_room V w live n \<Longrightarrow> v_room V (snd (r_ThreadSafeContextUnlock api ctx w)) live n"
    "v_keys V (snd (r_ReplyWithString api ctx s w)) = v_keys V w" "v_handles V (snd (r_ReplyWithString api ctx s w)) = v_handles V w"
      "v_rdb V (snd (r_ReplyWithString api ctx s w)) = v_rdb V w" "v_room V w live n \<Longrightarrow> v_room V (snd (r_ReplyWithString api ctx s w)) live n"
    "v_keys V (snd (r_ReplyWithError api ctx s w)) = v_keys V w" "v_handles V (snd (r_ReplyWithError api ctx s w)) = v_handles V w"
      "v_rdb V (snd (r_ReplyWithError api ctx s w)) = v_rdb V w" "v_room V w live n \<Longrightarrow> v_room V (snd (r_ReplyWithError api ctx s w)) live n"
    "v_keys V (snd (r_ReplyWithSimpleString api ctx s w)) = v_keys V w" "v_handles V (snd (r_ReplyWithSimpleString api ctx s w)) = v_handles V w"
      "v_rdb V (snd (r_ReplyWithSimpleString api ctx s w)) = v_rdb V w" "v_room V w live n \<Longrightarrow> v_room V (snd (r_ReplyWithSimpleString api ctx s w)) live n"
    by simp_all
qed

text \<open>The entry a handle stands for.\<close>

definition entry_at :: "'w redis_view \<Rightarrow> 'w \<Rightarrow> addr \<Rightarrow> key_entry option" where
  "entry_at V w k = (case v_handles V w k of None \<Rightarrow> None | Some name \<Rightarrow> v_keys V w name)"

lemma entry_at_handle: "v_handles V w k = Some name \<Longrightarrow> entry_at V w k = v_keys V w name"
  by (simp add: entry_at_def)

lemma server_open:
  assumes "redis_laws api V"
  shows "v_handles V (snd (r_OpenKey api ctx name (or REDISMODULE_READ REDISMODULE_WRITE) w))
      (fst (r_OpenKey api ctx name (or REDISMODULE_READ REDISMODULE_WRITE) w)) = Some name"
    "v_keys V (snd (r_OpenKey api ctx name (or REDISMODULE_READ REDISMODULE_WRITE) w)) = v_keys V w"
    "v_room V w live n \<Longrightarrow> v_room V (snd (r_OpenKey api ctx name (or REDISMODULE_READ REDISMODULE_WRITE) w)) live n"
  using assms unfolding redis_laws_def law_OpenKey_def by (metis prod.collapse)+

lemma server_key:
  assumes "redis_laws api V" and "v_handles V w k \<noteq> None"
  shows "fst (r_KeyType api k w) = entry_type (entry_at V w k)"
    "v_keys V (snd (r_KeyType api k w)) = v_keys V w"
    "v_handles V (snd (r_KeyType api k w)) = v_handles V w"
    "v_room V w live n \<Longrightarrow> v_room V (snd (r_KeyType api k w)) live n"
    "fst (r_ModuleTypeGetType api k w) = entry_module_type (entry_at V w k)"
    "v_keys V (snd (r_ModuleTypeGetType api k w)) = v_keys V w"
    "v_handles V (snd (r_ModuleTypeGetType api k w)) = v_handles V w"
    "v_room V w live n \<Longrightarrow> v_room V (snd (r_ModuleTypeGetType api k w)) live n"
    "fst (r_ModuleTypeGetValue api k w) = entry_value (entry_at V w k)"
    "v_keys V (snd (r_ModuleTypeGetValue api k w)) = v_keys V w"
    "v_handles V (snd (r_ModuleTypeGetValue api k w)) = v_handles V w"
    "v_room V w live n \<Longrightarrow> v_room V (snd (r_ModuleTypeGetValue api k w)) live n"
    "v_keys V (snd (r_ModuleTypeSetValue api k mt v w))
       = (v_keys V w)(the (v_handles V w k) \<mapsto> K_Module mt v)"
    "v_handles V (snd (r_ModuleTypeSetValue api k mt v w)) = v_handles V w"
    "v_room V w live n \<Longrightarrow> v_room V (snd (r_ModuleTypeSetValue api k mt v w)) live n"
    "v_keys V (snd (r_DeleteKey api k w)) = (v_keys V w)(the (v_handles V w k) := None)"
    "v_handles V (snd (r_DeleteKey api k w)) = v_handles V w"
    "v_room V w live n \<Longrightarrow> v_room V (snd (r_DeleteKey api k w)) live n"
proof -
  from assms(2) obtain name where n: "v_handles V w k = Some name" by auto
  have "fst (r_KeyType api k w) = entry_type (entry_at V w k) \<and> same_view V w (snd (r_KeyType api k w))"
    "fst (r_ModuleTypeGetType api k w) = entry_module_type (entry_at V w k) \<and>
      same_view V w (snd (r_ModuleTypeGetType api k w))"
    "fst (r_ModuleTypeGetValue api k w) = entry_value (entry_at V w k) \<and>
      same_view V w (snd (r_ModuleTypeGetValue api k w))"
    using assms(1) n unfolding redis_laws_def law_KeyType_def law_ModuleTypeGetType_def
      law_ModuleTypeGetValue_def entry_at_handle [OF n] by (metis prod.collapse)+
  then show
    "fst (r_KeyType api k w) = entry_type (entry_at V w k)"
    "v_keys V (snd (r_KeyType api k w)) = v_keys V w"
    "v_handles V (snd (r_KeyType api k w)) = v_handles V w"
    "v_room V w live n \<Longrightarrow> v_room V (snd (r_KeyType api k w)) live n"
    "fst (r_ModuleTypeGetType api k w) = entry_module_type (entry_at V w k)"
    "v_keys V (snd (r_ModuleTypeGetType api k w)) = v_keys V w"
    "v_handles V (snd (r_ModuleTypeGetType api k w)) = v_handles V w"
    "v_room V w live n \<Longrightarrow> v_room V (snd (r_ModuleTypeGetType api k w)) live n"
    "fst (r_ModuleTypeGetValue api k w) = entry_value (entry_at V w k)"
    "v_keys V (snd (r_ModuleTypeGetValue api k w)) = v_keys V w"
    "v_handles V (snd (r_ModuleTypeGetValue api k w)) = v_handles V w"
    "v_room V w live n \<Longrightarrow> v_room V (snd (r_ModuleTypeGetValue api k w)) live n"
    by (auto dest: same_viewD)
  have "v_keys V (snd (r_ModuleTypeSetValue api k mt v w)) = (v_keys V w)(name \<mapsto> K_Module mt v) \<and>
      v_handles V (snd (r_ModuleTypeSetValue api k mt v w)) = v_handles V w \<and>
      (\<forall>live n. v_room V w live n \<longrightarrow> v_room V (snd (r_ModuleTypeSetValue api k mt v w)) live n)"
    "v_keys V (snd (r_DeleteKey api k w)) = (v_keys V w)(name := None) \<and>
      v_handles V (snd (r_DeleteKey api k w)) = v_handles V w \<and>
      (\<forall>live n. v_room V w live n \<longrightarrow> v_room V (snd (r_DeleteKey api k w)) live n)"
    using assms(1) n unfolding redis_laws_def law_ModuleTypeSetValue_def law_DeleteKey_def
    by (metis prod.collapse)+
  then show "v_keys V (snd (r_ModuleTypeSetValue api k mt v w))
       = (v_keys V w)(the (v_handles V w k) \<mapsto> K_Module mt v)"
    "v_handles V (snd (r_ModuleTypeSetValue api k mt v w)) = v_handles V w"
    "v_room V w live n \<Longrightarrow> v_room V (snd (r_ModuleTypeSetValue api k mt v w)) live n"
    "v_keys V (snd (r_DeleteKey api k w)) = (v_keys V w)(the (v_handles V w k) := None)"
    "v_handles V (snd (r_DeleteKey api k w)) = v_handles V w"
    "v_room V w live n \<Longrightarrow> v_room V (snd (r_DeleteKey api k w)) live n"
    using n by auto
qed

lemma server_parse:
  assumes "redis_laws api V"
  shows "v_parse V s = None \<Longrightarrow> fst (fst (r_StringToLongLong api s w)) \<noteq> REDISMODULE_OK"
    "v_parse V s = Some v \<Longrightarrow> fst (r_StringToLongLong api s w) = (REDISMODULE_OK, v)"
    "v_keys V (snd (r_StringToLongLong api s w)) = v_keys V w"
    "v_handles V (snd (r_StringToLongLong api s w)) = v_handles V w"
    "v_room V w live n \<Longrightarrow> v_room V (snd (r_StringToLongLong api s w)) live n"
proof -
  have "same_view V w (snd (r_StringToLongLong api s w)) \<and>
    (case v_parse V s of
       None \<Rightarrow> fst (fst (r_StringToLongLong api s w)) \<noteq> REDISMODULE_OK
     | Some n \<Rightarrow> fst (r_StringToLongLong api s w) = (REDISMODULE_OK, n))"
    using assms unfolding redis_laws_def law_StringToLongLong_def
    by (cases "r_StringToLongLong api s w"; cases "fst (r_StringToLongLong api s w)")
       (fastforce split: option.splits)
  then show "v_parse V s = None \<Longrightarrow> fst (fst (r_StringToLongLong api s w)) \<noteq> REDISMODULE_OK"
    "v_parse V s = Some v \<Longrightarrow> fst (r_StringToLongLong api s w) = (REDISMODULE_OK, v)"
    "v_keys V (snd (r_StringToLongLong api s w)) = v_keys V w"
    "v_handles V (snd (r_StringToLongLong api s w)) = v_handles V w"
    "v_room V w live n \<Longrightarrow> v_room V (snd (r_StringToLongLong api s w)) live n"
    by (auto dest: same_viewD)
qed

lemma server_alloc:
  assumes "redis_laws api V" and "v_room V w live (Suc n)"
  shows "fst (r_Alloc api bytes live w) \<noteq> 0" "fst (r_Alloc api bytes live w) \<notin> live"
    "v_room V (snd (r_Alloc api bytes live w)) (insert (fst (r_Alloc api bytes live w)) live) n"
    "v_keys V (snd (r_Alloc api bytes live w)) = v_keys V w"
    "v_handles V (snd (r_Alloc api bytes live w)) = v_handles V w"
    "v_rdb V (snd (r_Alloc api bytes live w)) = v_rdb V w"
  using assms unfolding redis_laws_def law_Alloc_def by (metis prod.collapse)+

lemma server_room:
  assumes "redis_laws api V" and "v_room V w live n" and "live' \<subseteq> live" and "n' \<le> n"
  shows "v_room V w live' n'"
  using assms unfolding redis_laws_def law_room_def by blast

lemma server_types:
  assumes "redis_laws api V" and "v_keys V w name = Some (K_Other t)"
  shows "t \<noteq> REDISMODULE_KEYTYPE_EMPTY"
  using assms by (auto simp: redis_laws_def law_types_def)

end
