(* ===== verification/Llca_Commands.thy ===== *)
theory Llca_Commands
  imports Llca_List Event_Queue Redis_Server
begin

text \<open>
  The commands, type methods, events and \<open>LLCA_OnLoad\<close> of \<^verbatim>\<open>src/src/llca.cpp\<close>.

  The state adds the heap of the lists and the static variable \<open>llca\<close> (the address of the module
  type, null until \<open>LLCA_OnLoad\<close>). A call of \<open>RedisModule_Alloc\<close> asks the server for an address; the
  effect of \<open>RedisModule_Free\<close> is that of the heap model. \<open>argv\<close> is read with a bounds check: a
  command that reads past its arguments is \<open>None\<close>.
\<close>

subsection \<open>State\<close>

record 'w llca_state = "'w host_state" +
  st_ll :: llca_heap
  st_llca :: addr

definition llca_live :: "llca_heap \<Rightarrow> addr set" where
  "llca_live h = dom (ll_nodes h) \<union> dom (ll_objs h)"

definition sizeof_llca_node :: size64 where "sizeof_llca_node = 16"
definition sizeof_llca_obj :: size64 where "sizeof_llca_obj = 16"

subsection \<open>Commands\<close>

definition llca_remove_RedisCommand :: "'w redis_api \<Rightarrow> addr \<Rightarrow> string list \<Rightarrow> int \<Rightarrow>
    ('w, 'm) llca_state_scheme \<Rightarrow> (string \<times> ('w, 'm) llca_state_scheme) option" where
  "llca_remove_RedisCommand api ctx argv argc st =
     (let (_, st) = RedisModule_AutoMemory api ctx st in
      if argc \<noteq> 3 then RedisModule_CreateString ctx ''wrong arity'' 11 st
      else do {
        let (_, st) = RedisModule_ThreadSafeContextLock api ctx st;
        arg1 \<leftarrow> at argv 1;
        let (key, st) = RedisModule_OpenKey api ctx arg1 (or REDISMODULE_READ REDISMODULE_WRITE) st;
        let (_, st) = RedisModule_ThreadSafeContextUnlock api ctx st;
        let (type, st) = RedisModule_KeyType api key st;
        let (wrong, st) =
          (if type \<noteq> REDISMODULE_KEYTYPE_EMPTY
           then let (mt, st) = RedisModule_ModuleTypeGetType api key st in (mt \<noteq> st_llca st, st)
           else (False, st));
        if wrong then RedisModule_CreateString ctx ''wrong type'' 10 st
        else do {
          arg2 \<leftarrow> at argv 2;
          let ((r, val), st) = RedisModule_StringToLongLong api arg2 st;
          if r \<noteq> REDISMODULE_OK then RedisModule_CreateString ctx ''wrong int type'' 14 st
          else if type = REDISMODULE_KEYTYPE_EMPTY
          then RedisModule_CreateString ctx ''List does not exist'' 19 st
          else do {
            let (ll, st) = RedisModule_ModuleTypeGetValue api key st;
            (remover, h) \<leftarrow> llca_remove ll val (st_ll st);
            let st = st\<lparr>st_ll := h\<rparr>;
            if remover then RedisModule_CreateString ctx ''success'' 7 st
            else RedisModule_CreateString ctx ''failure'' 7 st
          }
        }
      })"

definition llca_contains_RedisCommand :: "'w redis_api \<Rightarrow> addr \<Rightarrow> string list \<Rightarrow> int \<Rightarrow>
    ('w, 'm) llca_state_scheme \<Rightarrow> (string \<times> ('w, 'm) llca_state_scheme) option" where
  "llca_contains_RedisCommand api ctx argv argc st =
     (let (_, st) = RedisModule_AutoMemory api ctx st in
      if argc \<noteq> 3 then RedisModule_CreateString ctx ''wrong arity'' 11 st
      else do {
        let (_, st) = RedisModule_ThreadSafeContextLock api ctx st;
        arg1 \<leftarrow> at argv 1;
        let (key, st) = RedisModule_OpenKey api ctx arg1 (or REDISMODULE_READ REDISMODULE_WRITE) st;
        let (_, st) = RedisModule_ThreadSafeContextUnlock api ctx st;
        let (type, st) = RedisModule_KeyType api key st;
        let (wrong, st) =
          (if type \<noteq> REDISMODULE_KEYTYPE_EMPTY
           then let (mt, st) = RedisModule_ModuleTypeGetType api key st in (mt \<noteq> st_llca st, st)
           else (False, st));
        if wrong then RedisModule_CreateString ctx ''wrong type'' 10 st
        else do {
          arg2 \<leftarrow> at argv 2;
          let ((r, val), st) = RedisModule_StringToLongLong api arg2 st;
          if r \<noteq> REDISMODULE_OK then RedisModule_CreateString ctx ''wrong int type'' 14 st
          else if type = REDISMODULE_KEYTYPE_EMPTY
          then RedisModule_CreateString ctx ''List does not exist'' 19 st
          else do {
            let (ll, st) = RedisModule_ModuleTypeGetValue api key st;
            found \<leftarrow> llca_contains ll val (st_ll st);
            if found then RedisModule_CreateString ctx ''value present'' 13 st
            else RedisModule_CreateString ctx ''value not present'' 17 st
          }
        }
      })"

definition llca_insert_RedisCommand :: "'w redis_api \<Rightarrow> addr \<Rightarrow> string list \<Rightarrow> int \<Rightarrow>
    ('w, 'm) llca_state_scheme \<Rightarrow> (string \<times> ('w, 'm) llca_state_scheme) option" where
  "llca_insert_RedisCommand api ctx argv argc st =
     (let (_, st) = RedisModule_AutoMemory api ctx st in
      if argc \<noteq> 3 then RedisModule_CreateString ctx ''wrong arity'' 11 st
      else do {
        let (_, st) = RedisModule_ThreadSafeContextLock api ctx st;
        arg1 \<leftarrow> at argv 1;
        let (key, st) = RedisModule_OpenKey api ctx arg1 (or REDISMODULE_READ REDISMODULE_WRITE) st;
        let (_, st) = RedisModule_ThreadSafeContextUnlock api ctx st;
        let (type, st) = RedisModule_KeyType api key st;
        let (wrong, st) =
          (if type \<noteq> REDISMODULE_KEYTYPE_EMPTY
           then let (mt, st) = RedisModule_ModuleTypeGetType api key st in (mt \<noteq> st_llca st, st)
           else (False, st));
        if wrong then RedisModule_CreateString ctx ''wrong type'' 10 st
        else do {
          arg2 \<leftarrow> at argv 2;
          let ((r, val), st) = RedisModule_StringToLongLong api arg2 st;
          if r \<noteq> REDISMODULE_OK then RedisModule_CreateString ctx ''wrong int type'' 14 st
          else do {
            (ll, st) \<leftarrow>
              (if type = REDISMODULE_KEYTYPE_EMPTY
               then do {
                 let (a, st) = RedisModule_Alloc api sizeof_llca_obj (llca_live (st_ll st)) st;
                 h \<leftarrow> createLLCAObject a (st_ll st);
                 let st = st\<lparr>st_ll := h\<rparr>;
                 let (_, st) = RedisModule_ModuleTypeSetValue api key (st_llca st) a st;
                 Some (a, st)
               }
               else Some (RedisModule_ModuleTypeGetValue api key st));
            let (newnode, st) = RedisModule_Alloc api sizeof_llca_node (llca_live (st_ll st)) st;
            h \<leftarrow> llca_insert newnode ll val (st_ll st);
            RedisModule_CreateString ctx ''success'' 7 (st\<lparr>st_ll := h\<rparr>)
          }
        }
      })"

subsection \<open>Type methods\<close>

text \<open>The loop \<^verbatim>\<open>while(elements--)\<close> of \<open>llca_rdb_load\<close>.\<close>

primrec rdb_load_loop :: "'w redis_api \<Rightarrow> addr \<Rightarrow> addr \<Rightarrow> nat \<Rightarrow>
    ('w, 'm) llca_state_scheme \<Rightarrow> ('w, 'm) llca_state_scheme option" where
  "rdb_load_loop api rdb ll 0 st = Some st"
| "rdb_load_loop api rdb ll (Suc n) st = do {
     let (ele, st) = RedisModule_LoadSigned api rdb st;
     let (newnode, st) = RedisModule_Alloc api sizeof_llca_node (llca_live (st_ll st)) st;
     h \<leftarrow> llca_insert newnode ll ele (st_ll st);
     rdb_load_loop api rdb ll n (st\<lparr>st_ll := h\<rparr>)
   }"

definition llca_rdb_load :: "'w redis_api \<Rightarrow> addr \<Rightarrow> int \<Rightarrow>
    ('w, 'm) llca_state_scheme \<Rightarrow> (addr \<times> ('w, 'm) llca_state_scheme) option" where
  "llca_rdb_load api rdb encver st =
     (if encver \<noteq> 0 then Some (0, st)
      else do {
        let (elements, st) = RedisModule_LoadUnsigned api rdb st;
        let (a, st) = RedisModule_Alloc api sizeof_llca_obj (llca_live (st_ll st)) st;
        h \<leftarrow> createLLCAObject a (st_ll st);
        st \<leftarrow> rdb_load_loop api rdb a (unat elements) (st\<lparr>st_ll := h\<rparr>);
        Some (a, st)
      })"

text \<open>The loop \<^verbatim>\<open>while(node) { body(node->value); node = node->next; }\<close> of the methods below.\<close>

partial_function (option) node_loop ::
  "(int64 \<Rightarrow> 's \<Rightarrow> 's) \<Rightarrow> (addr \<rightharpoonup> llca_node) \<Rightarrow> addr \<Rightarrow> 's \<Rightarrow> 's option" where
  "node_loop body N node st =
     (if node = 0 then Some st
      else case N node of
        None \<Rightarrow> None
      | Some n \<Rightarrow> node_loop body N (ln_next n) (body (ln_value n) st))"

definition llca_rdb_save :: "'w redis_api \<Rightarrow> addr \<Rightarrow> addr \<Rightarrow>
    ('w, 'm) llca_state_scheme \<Rightarrow> ('w, 'm) llca_state_scheme option" where
  "llca_rdb_save api rdb obj st = do {
     ll \<leftarrow> ll_objs (st_ll st) obj;
     let (_, st) = RedisModule_SaveUnsigned api rdb (lo_len ll) st;
     node_loop (\<lambda>v st. snd (RedisModule_SaveSigned api rdb v st)) (ll_nodes (st_ll st)) (lo_head ll) st
   }"

definition llca_aof_rewrite :: "'w redis_api \<Rightarrow> addr \<Rightarrow> string \<Rightarrow> addr \<Rightarrow>
    ('w, 'm) llca_state_scheme \<Rightarrow> ('w, 'm) llca_state_scheme option" where
  "llca_aof_rewrite api aof key obj st = do {
     ll \<leftarrow> ll_objs (st_ll st) obj;
     node_loop (\<lambda>v st. snd (RedisModule_EmitAOF api aof ''LLCA_TYPE.INSERT'' ''sl'' key v st))
       (ll_nodes (st_ll st)) (lo_head ll) st
   }"

definition llca_mem_usage :: "addr \<Rightarrow> ('w, 'm) llca_state_scheme \<Rightarrow> size64 option" where
  "llca_mem_usage obj st = do {
     ll \<leftarrow> ll_objs (st_ll st) obj;
     Some (sizeof_llca_obj + sizeof_llca_node * lo_len ll)
   }"

definition llca_free :: "addr \<Rightarrow> ('w, 'm) llca_state_scheme \<Rightarrow> ('w, 'm) llca_state_scheme option" where
  "llca_free obj st = do { h \<leftarrow> llca_release obj (st_ll st); Some (st\<lparr>st_ll := h\<rparr>) }"

definition llca_digest :: "'w redis_api \<Rightarrow> addr \<Rightarrow> addr \<Rightarrow>
    ('w, 'm) llca_state_scheme \<Rightarrow> ('w, 'm) llca_state_scheme option" where
  "llca_digest api md obj st = do {
     ll \<leftarrow> ll_objs (st_ll st) obj;
     st \<leftarrow> node_loop (\<lambda>v st. snd (RedisModule_DigestAddLongLong api md v st))
       (ll_nodes (st_ll st)) (lo_head ll) st;
     Some (snd (RedisModule_DigestEndSequence api md st))
   }"

subsection \<open>Events\<close>

definition llca_remove_event_execute :: "'w redis_api \<Rightarrow> event \<Rightarrow>
    ('w, 'm) llca_state_scheme \<Rightarrow> ('w, 'm) llca_state_scheme option" where
  "llca_remove_event_execute api e st = do {
     (result, st) \<leftarrow> llca_remove_RedisCommand api (ev_ctx e) (ev_argv e) (ev_argc e) st;
     Some (snd (RedisModule_ReplyWithString api (ev_ctx e) result st))
   }"

definition llca_contains_event_execute :: "'w redis_api \<Rightarrow> event \<Rightarrow>
    ('w, 'm) llca_state_scheme \<Rightarrow> ('w, 'm) llca_state_scheme option" where
  "llca_contains_event_execute api e st = do {
     (result, st) \<leftarrow> llca_contains_RedisCommand api (ev_ctx e) (ev_argv e) (ev_argc e) st;
     Some (snd (RedisModule_ReplyWithString api (ev_ctx e) result st))
   }"

definition llca_insert_event_execute :: "'w redis_api \<Rightarrow> event \<Rightarrow>
    ('w, 'm) llca_state_scheme \<Rightarrow> ('w, 'm) llca_state_scheme option" where
  "llca_insert_event_execute api e st = do {
     (result, st) \<leftarrow> llca_insert_RedisCommand api (ev_ctx e) (ev_argv e) (ev_argc e) st;
     Some (snd (RedisModule_ReplyWithString api (ev_ctx e) result st))
   }"

subsection \<open>Loading the module type\<close>

definition llca_type_methods :: type_methods where
  "llca_type_methods =
     \<lparr>tm_version = 1, tm_rdb_load = ''llca_rdb_load'', tm_rdb_save = ''llca_rdb_save'',
      tm_aof_rewrite = ''llca_aof_rewrite'', tm_mem_usage = ''llca_mem_usage'',
      tm_digest = ''llca_digest'', tm_free = ''llca_free''\<rparr>"

definition LLCA_OnLoad :: "'w redis_api \<Rightarrow> addr \<Rightarrow> ('w, 'm) llca_state_scheme \<Rightarrow>
    int \<times> ('w, 'm) llca_state_scheme" where
  "LLCA_OnLoad api ctx st =
     (let (mt, st) = RedisModule_CreateDataType api ctx ''llca_type'' 0 llca_type_methods st;
          st = st\<lparr>st_llca := mt\<rparr>
      in
      if mt = 0 then (REDISMODULE_ERR, st)
      else
        let (r, st) = RedisModule_CreateCommand api ctx ''llca_type.insert''
                        (Conc_Handler ''llca_insert_event'') ''write'' 1 1 1 st in
        if r = REDISMODULE_ERR then (REDISMODULE_ERR, st)
        else
          let (r, st) = RedisModule_CreateCommand api ctx ''llca_type.contains''
                          (Conc_Handler ''llca_contains_event'') ''write'' 1 1 1 st in
          if r = REDISMODULE_ERR then (REDISMODULE_ERR, st)
          else
            let (r, st) = RedisModule_CreateCommand api ctx ''llca_type.remove''
                            (Conc_Handler ''llca_remove_event'') ''write'' 1 1 1 st in
            if r = REDISMODULE_ERR then (REDISMODULE_ERR, st)
            else (REDISMODULE_OK, st))"

end
