(* ===== verification/Call_Trace.thy ===== *)
theory Call_Trace
  imports RedisModule
begin

text \<open>
  What the module may be asked of its calls to the server: the discipline of the module lock,
  which the server does not allow to be taken twice by one thread or released when not held, the
  calls that need the lock, and the replies sent to a client.
\<close>

text \<open>\<open>lock_run held tr\<close> is whether the lock is held after the calls \<open>tr\<close>; \<open>None\<close> if the lock is taken
  while held (a deadlock) or released while not held.\<close>

fun lock_run :: "bool \<Rightarrow> call list \<Rightarrow> bool option" where
  "lock_run held [] = Some held"
| "lock_run held (C_ThreadSafeContextLock _ # tr) = (if held then None else lock_run True tr)"
| "lock_run held (C_ThreadSafeContextUnlock _ # tr) = (if held then lock_run False tr else None)"
| "lock_run held (_ # tr) = lock_run held tr"

definition lock_balanced :: "call list \<Rightarrow> bool" where
  "lock_balanced tr \<longleftrightarrow> lock_run False tr = Some False"

text \<open>Calls that search or change the keyspace, which a thread must make with the lock held.\<close>

fun keyspace_call :: "call \<Rightarrow> bool" where
  "keyspace_call (C_OpenKey _ _ _ _) = True"
| "keyspace_call (C_DeleteKey _ _) = True"
| "keyspace_call (C_ModuleTypeSetValue _ _ _ _) = True"
| "keyspace_call _ = False"

fun open_call :: "call \<Rightarrow> bool" where
  "open_call (C_OpenKey _ _ _ _) = True"
| "open_call _ = False"

fun lock_call :: "call \<Rightarrow> bool" where
  "lock_call (C_ThreadSafeContextLock _) = True"
| "lock_call (C_ThreadSafeContextUnlock _) = True"
| "lock_call _ = False"

text \<open>\<open>guarded P held tr\<close>: the lock is held at every call of \<open>tr\<close> that satisfies \<open>P\<close>.\<close>

fun guarded :: "(call \<Rightarrow> bool) \<Rightarrow> bool \<Rightarrow> call list \<Rightarrow> bool" where
  "guarded P held [] = True"
| "guarded P held (C_ThreadSafeContextLock _ # tr) = guarded P True tr"
| "guarded P held (C_ThreadSafeContextUnlock _ # tr) = guarded P False tr"
| "guarded P held (c # tr) = ((P c \<longrightarrow> held) \<and> guarded P held tr)"

text \<open>The replies: the context and the text sent.\<close>

fun reply_of :: "call \<Rightarrow> (addr \<times> string) option" where
  "reply_of (C_ReplyWithString ctx s _) = Some (ctx, s)"
| "reply_of (C_ReplyWithError ctx s _) = Some (ctx, s)"
| "reply_of (C_ReplyWithSimpleString ctx s _) = Some (ctx, s)"
| "reply_of _ = None"

definition replies :: "call list \<Rightarrow> (addr \<times> string) list" where
  "replies tr = List.map_filter reply_of tr"

lemma replies_simps [simp]:
  "replies [] = []"
  "replies (c # tr) = (case reply_of c of None \<Rightarrow> replies tr | Some r \<Rightarrow> r # replies tr)"
  "replies (tr @ tr') = replies tr @ replies tr'"
  by (simp_all add: replies_def List.map_filter_def split: option.splits)

lemma lock_run_append:
  "lock_run held (tr @ tr') = Option.bind (lock_run held tr) (\<lambda>h. lock_run h tr')"
  by (induction held tr rule: lock_run.induct) simp_all

text \<open>The calls made between two states.\<close>

definition calls_between :: "('w, 'm) host_state_scheme \<Rightarrow> ('w, 'n) host_state_scheme \<Rightarrow> call list" where
  "calls_between st st' = drop (length (st_trace st)) (st_trace st')"

lemma calls_between_eq: "st_trace st' = st_trace st @ tr \<Longrightarrow> calls_between st st' = tr"
  by (simp add: calls_between_def)

end
