(* ===== verification/Llca_Spec.thy ===== *)
theory Llca_Spec
  imports Llca_Commands Call_Trace
begin

text \<open>
  What the \<open>llca_type\<close> commands promise, as functions on a database of lists, and the proof that the
  commands of \<open>Llca_Commands\<close> implement them on a server that obeys \<open>redis_laws\<close>. The abstract
  database maps a key to the values of its list, or to a mark for a key of another type.
\<close>

subsection \<open>The abstract database\<close>

datatype db_entry = DB_List "int64 list" | DB_Foreign

type_synonym db = "string \<rightharpoonup> db_entry"

definition llca_db :: "'w redis_view \<Rightarrow> ('w, 'm) llca_state_scheme \<Rightarrow> (addr \<rightharpoonup> int64 list \<times> size64) \<Rightarrow> db" where
  "llca_db V st S name = (case v_keys V (st_srv st) name of
      None \<Rightarrow> None
    | Some (K_Other _) \<Rightarrow> Some DB_Foreign
    | Some (K_Module mt a) \<Rightarrow>
        if mt = st_llca st then map_option (\<lambda>(vs, _). DB_List vs) (S a) else Some DB_Foreign)"

text \<open>The coupling of keyspace and heap: each key of type \<open>llca\<close> holds a list object of its own, and
  every list object is held by a key.\<close>

definition llca_inv :: "'w redis_view \<Rightarrow> ('w, 'm) llca_state_scheme \<Rightarrow> (addr \<rightharpoonup> int64 list \<times> size64) \<Rightarrow> bool" where
  "llca_inv V st S \<longleftrightarrow> ll_abs (st_ll st) S \<and> st_llca st \<noteq> 0 \<and>
     (\<forall>name a. v_keys V (st_srv st) name = Some (K_Module (st_llca st) a) \<longrightarrow> S a \<noteq> None) \<and>
     (\<forall>n1 n2 a. v_keys V (st_srv st) n1 = Some (K_Module (st_llca st) a) \<longrightarrow>
        v_keys V (st_srv st) n2 = Some (K_Module (st_llca st) a) \<longrightarrow> n1 = n2) \<and>
     (\<forall>a. S a \<noteq> None \<longrightarrow> (\<exists>name. v_keys V (st_srv st) name = Some (K_Module (st_llca st) a)))"

text \<open>The commands on the database: the reply and the new database.\<close>

definition spec_remove :: "(string \<rightharpoonup> int64) \<Rightarrow> string list \<Rightarrow> db \<Rightarrow> string \<times> db" where
  "spec_remove parse argv db =
     (if length argv \<noteq> 3 then (''wrong arity'', db)
      else case db (argv ! 1) of
        Some DB_Foreign \<Rightarrow> (''wrong type'', db)
      | entry \<Rightarrow> (case parse (argv ! 2) of
          None \<Rightarrow> (''wrong int type'', db)
        | Some v \<Rightarrow> (case entry of
            Some (DB_List vs) \<Rightarrow>
              if v \<in> set vs then (''success'', db(argv ! 1 \<mapsto> DB_List (remove1 v vs)))
              else (''failure'', db)
          | _ \<Rightarrow> (''List does not exist'', db))))"

definition spec_contains :: "(string \<rightharpoonup> int64) \<Rightarrow> string list \<Rightarrow> db \<Rightarrow> string \<times> db" where
  "spec_contains parse argv db =
     (if length argv \<noteq> 3 then (''wrong arity'', db)
      else case db (argv ! 1) of
        Some DB_Foreign \<Rightarrow> (''wrong type'', db)
      | entry \<Rightarrow> (case parse (argv ! 2) of
          None \<Rightarrow> (''wrong int type'', db)
        | Some v \<Rightarrow> (case entry of
            Some (DB_List vs) \<Rightarrow>
              (if v \<in> set vs then ''value present'' else ''value not present'', db)
          | _ \<Rightarrow> (''List does not exist'', db))))"

definition spec_insert :: "(string \<rightharpoonup> int64) \<Rightarrow> string list \<Rightarrow> db \<Rightarrow> string \<times> db" where
  "spec_insert parse argv db =
     (if length argv \<noteq> 3 then (''wrong arity'', db)
      else case db (argv ! 1) of
        Some DB_Foreign \<Rightarrow> (''wrong type'', db)
      | entry \<Rightarrow> (case parse (argv ! 2) of
          None \<Rightarrow> (''wrong int type'', db)
        | Some v \<Rightarrow> (case entry of
            Some (DB_List vs) \<Rightarrow> (''success'', db(argv ! 1 \<mapsto> DB_List (ins_before v vs)))
          | _ \<Rightarrow> (''success'', db(argv ! 1 \<mapsto> DB_List [v])))))"

subsection \<open>Facts of the coupling\<close>

lemma llca_coupling_calls:
  assumes "v_keys V w = v_keys V (st_srv st)"
  shows "llca_db V (st\<lparr>st_srv := w, st_trace := tr\<rparr>) S = llca_db V st S"
    and "llca_inv V (st\<lparr>st_srv := w, st_trace := tr\<rparr>) S = llca_inv V st S"
  using assms by (auto simp: llca_db_def llca_inv_def intro!: ext split: option.splits key_entry.splits)

lemma llca_entry_cases:
  assumes "llca_inv V st S"
  obtains
    (Absent) "v_keys V (st_srv st) name = None" "llca_db V st S name = None"
  | (Other) t where "v_keys V (st_srv st) name = Some (K_Other t)" "llca_db V st S name = Some DB_Foreign"
  | (Foreign) mt a where "v_keys V (st_srv st) name = Some (K_Module mt a)" "mt \<noteq> st_llca st"
      "llca_db V st S name = Some DB_Foreign"
  | (List) a vs n where "v_keys V (st_srv st) name = Some (K_Module (st_llca st) a)"
      "S a = Some (vs, n)" "llca_db V st S name = Some (DB_List vs)"
proof (cases "v_keys V (st_srv st) name")
  case None
  then show ?thesis by (intro Absent) (simp_all add: llca_db_def)
next
  case (Some e)
  show ?thesis
  proof (cases e)
    case (K_Other t)
    with Some show ?thesis by (intro Other [of t]) (simp_all add: llca_db_def)
  next
    case (K_Module mt a)
    show ?thesis
    proof (cases "mt = st_llca st")
      case True
      with Some K_Module assms obtain vs n where "S a = Some (vs, n)"
        unfolding llca_inv_def by fastforce
      with True Some K_Module show ?thesis by (intro List [of a vs n]) (simp_all add: llca_db_def)
    next
      case False
      with Some K_Module show ?thesis by (intro Foreign [of mt a]) (simp_all add: llca_db_def)
    qed
  qed
qed

text \<open>The state \<open>st\<close> holds the abstract database \<open>db\<close>.\<close>

definition llca_rel :: "'w redis_view \<Rightarrow> ('w, 'm) llca_state_scheme \<Rightarrow> db \<Rightarrow> bool" where
  "llca_rel V st db \<longleftrightarrow> (\<exists>S. llca_inv V st S \<and> llca_db V st S = db)"

lemma llca_rel_calls:
  "v_keys V w = v_keys V (st_srv st) \<Longrightarrow>
     llca_rel V (st\<lparr>st_srv := w, st_trace := tr\<rparr>) db = llca_rel V st db"
  by (simp add: llca_rel_def llca_coupling_calls)

text \<open>Replacing the values of an existing list.\<close>

lemma llca_inv_update:
  assumes inv: "llca_inv V st S" and key: "v_keys V (st_srv st) name = Some (K_Module (st_llca st) a)"
    and st': "v_keys V (st_srv st') = v_keys V (st_srv st)" "st_llca st' = st_llca st"
    and abs: "ll_abs (st_ll st') (S(a \<mapsto> (vs, n)))"
  shows "llca_inv V st' (S(a \<mapsto> (vs, n)))"
    and "llca_db V st' (S(a \<mapsto> (vs, n))) = (llca_db V st S)(name \<mapsto> DB_List vs)"
proof -
  show "llca_inv V st' (S(a \<mapsto> (vs, n)))"
    using inv key st' abs unfolding llca_inv_def by auto
  show "llca_db V st' (S(a \<mapsto> (vs, n))) = (llca_db V st S)(name \<mapsto> DB_List vs)"
  proof
    fix x
    have "b \<noteq> a" if "v_keys V (st_srv st) x = Some (K_Module (st_llca st) b)" "x \<noteq> name" for b
      using inv key that unfolding llca_inv_def by metis
    then show "llca_db V st' (S(a \<mapsto> (vs, n))) x = ((llca_db V st S)(name \<mapsto> DB_List vs)) x"
      using key st' by (auto simp: llca_db_def split: option.splits key_entry.splits)
  qed
qed

text \<open>Adding a list under a new key.\<close>

lemma llca_inv_add:
  assumes inv: "llca_inv V st S" and key: "v_keys V (st_srv st) name = None" and new: "S a = None"
    and st': "v_keys V (st_srv st') = (v_keys V (st_srv st))(name \<mapsto> K_Module (st_llca st) a)"
      "st_llca st' = st_llca st"
    and abs: "ll_abs (st_ll st') (S(a \<mapsto> (vs, n)))"
  shows "llca_inv V st' (S(a \<mapsto> (vs, n)))"
    and "llca_db V st' (S(a \<mapsto> (vs, n))) = (llca_db V st S)(name \<mapsto> DB_List vs)"
proof -
  have other: "b \<noteq> a" if "v_keys V (st_srv st) x = Some (K_Module (st_llca st) b)" for x b
    using inv new that unfolding llca_inv_def by metis
  show "llca_inv V st' (S(a \<mapsto> (vs, n)))"
    unfolding llca_inv_def
  proof (intro conjI allI impI)
    show "ll_abs (st_ll st') (S(a \<mapsto> (vs, n)))" by (rule abs)
    show "st_llca st' \<noteq> 0" using inv st'(2) by (simp add: llca_inv_def)
    show "(S(a \<mapsto> (vs, n))) b \<noteq> None" if "v_keys V (st_srv st') x = Some (K_Module (st_llca st') b)" for x b
      using inv st' that by (auto simp: llca_inv_def split: if_splits)
    show "x = y" if "v_keys V (st_srv st') x = Some (K_Module (st_llca st') b)"
      "v_keys V (st_srv st') y = Some (K_Module (st_llca st') b)" for x y b
      using inv st' that other unfolding llca_inv_def by (auto split: if_splits)
    show "\<exists>x. v_keys V (st_srv st') x = Some (K_Module (st_llca st') b)" if "(S(a \<mapsto> (vs, n))) b \<noteq> None" for b
    proof (cases "b = a")
      case True
      then show ?thesis using st' by auto
    next
      case False
      with that inv obtain x where "v_keys V (st_srv st) x = Some (K_Module (st_llca st) b)"
        unfolding llca_inv_def by (metis fun_upd_apply)
      moreover from this key have "x \<noteq> name" by auto
      ultimately show ?thesis using st' by auto
    qed
  qed
  show "llca_db V st' (S(a \<mapsto> (vs, n))) = (llca_db V st S)(name \<mapsto> DB_List vs)"
  proof
    fix x
    show "llca_db V st' (S(a \<mapsto> (vs, n))) x = ((llca_db V st S)(name \<mapsto> DB_List vs)) x"
      using key st' other [of x] by (auto simp: llca_db_def split: option.splits key_entry.splits)
  qed
qed

lemma llca_rel_update:
  assumes "llca_inv V st S" and "v_keys V (st_srv st) name = Some (K_Module (st_llca st) a)"
    and "v_keys V (st_srv st') = v_keys V (st_srv st)" "st_llca st' = st_llca st"
    and "ll_abs (st_ll st') (S(a \<mapsto> (vs, n)))"
  shows "llca_rel V st' ((llca_db V st S)(name \<mapsto> DB_List vs))"
  unfolding llca_rel_def using llca_inv_update [OF assms] by blast

lemma llca_rel_add:
  assumes "llca_inv V st S" and "v_keys V (st_srv st) name = None" and "S a = None"
    and "v_keys V (st_srv st') = (v_keys V (st_srv st))(name \<mapsto> K_Module (st_llca st) a)"
      "st_llca st' = st_llca st"
    and "ll_abs (st_ll st') (S(a \<mapsto> (vs, n)))"
  shows "llca_rel V st' ((llca_db V st S)(name \<mapsto> DB_List vs))"
  unfolding llca_rel_def using llca_inv_add [OF assms] by blast

lemma llca_live_abs: "ll_abs h S \<Longrightarrow> a \<notin> llca_live h \<Longrightarrow> S a = None \<and> ll_nodes h a = None \<and> ll_objs h a = None"
  by (auto simp: llca_live_def ll_abs_def ll_view_def split: option.splits)


lemma llca_remove_live: "llca_remove obj v h = Some (b, h') \<Longrightarrow> llca_live h' \<subseteq> llca_live h"
  by (auto simp: llca_remove_def free_node_def set_next_def llca_live_def split: option.splits if_splits)

lemma llca_insert_live: "llca_insert a obj v h = Some h' \<Longrightarrow> llca_live h' \<subseteq> insert a (llca_live h)"
  by (auto simp: llca_insert_def llca_live_def Let_def split: option.splits if_splits)

lemma llca_rel_argv:
  assumes "llca_rel V st db"
  obtains S where "llca_inv V st S" "llca_db V st S = db" "ll_abs (st_ll st) S" "st_llca st \<noteq> 0"
  using assms by (auto simp: llca_rel_def llca_inv_def)

text \<open>The facts with which a run of a command on a lawful server simplifies.\<close>

lemmas command_simps = host_simps Let_def split_beta llca_rel_calls entry_type_def entry_module_type_def
  entry_value_def entry_at_def

subsection \<open>The commands implement the specification\<close>

lemma contains_refines:
  assumes laws: "redis_laws api V" and rel: "llca_rel V st db" and argc: "argc = int (length argv)"
    and room: "v_room V (st_srv st) (llca_live (st_ll st)) (m + 2)"
  shows "\<exists>st'. llca_contains_RedisCommand api ctx argv argc st
      = Some (fst (spec_contains (v_parse V) argv db), st') \<and>
    llca_rel V st' (snd (spec_contains (v_parse V) argv db)) \<and>
    v_room V (st_srv st') (llca_live (st_ll st')) m"
proof -
  have room0: "v_room V (st_srv st) (llca_live (st_ll st)) m"
    using room by (rule server_room [OF laws]) simp_all
  note rules = server_neutral [OF laws] server_open [OF laws] server_key [OF laws] server_parse [OF laws]
  note defs = llca_contains_RedisCommand_def spec_contains_def command_simps rules
  obtain S where inv: "llca_inv V st S" and db: "llca_db V st S = db" and abs: "ll_abs (st_ll st) S"
    and llca: "st_llca st \<noteq> 0"
    using rel by (rule llca_rel_argv)
  show ?thesis
  proof (cases "length argv = 3")
    case False
    then show ?thesis using argc rel room0 by (simp add: defs)
  next
    case True
    from inv show ?thesis
    proof (cases rule: llca_entry_cases [where name = "argv ! 1"])
      case Absent
      then show ?thesis
        using True argc rel db room0 by (cases "v_parse V (argv ! 2)") (simp_all add: defs)
    next
      case (Other t)
      then show ?thesis
        using True argc rel db room0 llca server_types [OF laws Other(1)] by (simp add: defs)
    next
      case (Foreign mt a)
      then show ?thesis using True argc rel db room0 by (simp add: defs)
    next
      case (List a vs n)
      have "llca_contains a v (st_ll st) = Some (v \<in> set vs)" for v
        using llca_contains_abs [OF abs List(2)] .
      with List show ?thesis
        using True argc rel db room0 by (cases "v_parse V (argv ! 2)") (simp_all add: defs)
    qed
  qed
qed

lemma remove_refines:
  fixes st :: "('w, 'm) llca_state_scheme"
  assumes laws: "redis_laws api V" and rel: "llca_rel V st db" and argc: "argc = int (length argv)"
    and room: "v_room V (st_srv st) (llca_live (st_ll st)) (m + 2)"
  shows "\<exists>st'. llca_remove_RedisCommand api ctx argv argc st
      = Some (fst (spec_remove (v_parse V) argv db), st') \<and>
    llca_rel V st' (snd (spec_remove (v_parse V) argv db)) \<and>
    v_room V (st_srv st') (llca_live (st_ll st')) m"
proof -
  have room0: "v_room V (st_srv st) (llca_live (st_ll st)) m"
    using room by (rule server_room [OF laws]) simp_all
  note rules = server_neutral [OF laws] server_open [OF laws] server_key [OF laws] server_parse [OF laws]
  note defs = llca_remove_RedisCommand_def spec_remove_def command_simps rules
  obtain S where inv: "llca_inv V st S" and db: "llca_db V st S = db" and abs: "ll_abs (st_ll st) S"
    and llca: "st_llca st \<noteq> 0"
    using rel by (rule llca_rel_argv)
  show ?thesis
  proof (cases "length argv = 3")
    case False
    then show ?thesis using argc rel room0 by (simp add: defs)
  next
    case True
    from inv show ?thesis
    proof (cases rule: llca_entry_cases [where name = "argv ! 1"])
      case Absent
      then show ?thesis
        using True argc rel db room0 by (cases "v_parse V (argv ! 2)") (simp_all add: defs)
    next
      case (Other t)
      then show ?thesis
        using True argc rel db room0 llca server_types [OF laws Other(1)] by (simp add: defs)
    next
      case (Foreign mt a)
      then show ?thesis using True argc rel db room0 by (simp add: defs)
    next
      case (List a vs n)
      show ?thesis
      proof (cases "v_parse V (argv ! 2)")
        case None
        with List show ?thesis using True argc rel db room0 by (simp add: defs)
      next
        case (Some v)
        obtain h' where h': "llca_remove a v (st_ll st) = Some (v \<in> set vs, h')"
          and abs': "ll_abs h' (S(a \<mapsto> (remove1 v vs, n)))"
          using llca_remove_abs [OF abs List(2), of v] by blast
        have "llca_rel V st' (if v \<in> set vs then db(argv ! 1 \<mapsto> DB_List (remove1 v vs)) else db)"
          if "v_keys V (st_srv st') = v_keys V (st_srv st)" "st_llca st' = st_llca st" "st_ll st' = h'" for st' :: "('w, 'm) llca_state_scheme"
          using llca_rel_update [OF inv List(1) that(1,2), of "remove1 v vs" n] List(3) abs' that(3)
          by (auto simp: db remove1_idem fun_upd_idem)
        moreover have "v_room V (st_srv st) (llca_live h') m"
          using room by (rule server_room [OF laws]) (use llca_remove_live [OF h'] in simp_all)
        ultimately show ?thesis
          using List Some h' True argc db by (cases "v \<in> set vs") (simp_all add: defs)
      qed
    qed
  qed
qed

lemma insert_refines:
  fixes st :: "('w, 'm) llca_state_scheme"
  assumes laws: "redis_laws api V" and rel: "llca_rel V st db" and argc: "argc = int (length argv)"
    and room: "v_room V (st_srv st) (llca_live (st_ll st)) (m + 2)"
  shows "\<exists>st'. llca_insert_RedisCommand api ctx argv argc st
      = Some (fst (spec_insert (v_parse V) argv db), st') \<and>
    llca_rel V st' (snd (spec_insert (v_parse V) argv db)) \<and>
    v_room V (st_srv st') (llca_live (st_ll st')) m"
proof -
  have room0: "v_room V (st_srv st) (llca_live (st_ll st)) m"
    using room by (rule server_room [OF laws]) simp_all
  note rules = server_neutral [OF laws] server_open [OF laws] server_key [OF laws] server_parse [OF laws]
  note defs = llca_insert_RedisCommand_def spec_insert_def command_simps rules
  obtain S where inv: "llca_inv V st S" and db: "llca_db V st S = db" and abs: "ll_abs (st_ll st) S"
    and llca: "st_llca st \<noteq> 0"
    using rel by (rule llca_rel_argv)
  show ?thesis
  proof (cases "length argv = 3")
    case False
    then show ?thesis using argc rel room0 by (simp add: defs)
  next
    case True
    from inv show ?thesis
    proof (cases rule: llca_entry_cases [where name = "argv ! 1"])
      case Absent
      show ?thesis
      proof (cases "v_parse V (argv ! 2)")
        case None
        with Absent show ?thesis using True argc rel db room0 by (simp add: defs)
      next
        case (Some v)
        let ?open = "r_OpenKey api ctx (argv ! 1) (or REDISMODULE_READ REDISMODULE_WRITE)
          (snd (r_ThreadSafeContextLock api ctx (snd (r_AutoMemory api ctx (st_srv st)))))"
        let ?w = "snd (r_StringToLongLong api (argv ! 2) (snd (r_KeyType api (fst ?open)
          (snd (r_ThreadSafeContextUnlock api ctx (snd ?open))))))"
        let ?live = "llca_live (st_ll st)"
        let ?a = "fst (r_Alloc api sizeof_llca_obj ?live ?w)"
        let ?w2 = "snd (r_ModuleTypeSetValue api (fst ?open) (st_llca st) ?a
          (snd (r_Alloc api sizeof_llca_obj ?live ?w)))"
        have handle: "v_handles V ?w (fst ?open) = Some (argv ! 1)"
          by (simp add: rules)
        have room1: "v_room V ?w ?live (Suc (Suc m))"
          using room by (simp add: rules)
        note a1 = server_alloc [OF laws room1, of sizeof_llca_obj]
        have room2: "v_room V ?w2 (insert ?a ?live) (Suc m)"
          using a1 handle by (simp add: rules)
        note a2 = server_alloc [OF laws room2, of sizeof_llca_node]
        let ?b = "fst (r_Alloc api sizeof_llca_node (insert ?a ?live) ?w2)"
        have fresh: "S ?a = None" "ll_objs (st_ll st) ?a = None"
          using llca_live_abs [OF abs a1(2)] by blast+
        obtain h1 where h1: "createLLCAObject ?a (st_ll st) = Some h1" "ll_nodes h1 = ll_nodes (st_ll st)"
          "llca_live h1 = insert ?a ?live" and abs1: "ll_abs h1 (S(?a \<mapsto> ([], 0)))"
          using createLLCAObject_abs [OF abs a1(1) fresh(2)]
          by (force simp: createLLCAObject_def llca_live_def split: if_splits)
        have "ll_nodes h1 ?b = None"
          using llca_live_abs [OF abs1] a2(2) h1(3) by blast
        then obtain h2 where h2: "llca_insert ?b ?a v h1 = Some h2"
          and abs2: "ll_abs h2 (S(?a \<mapsto> ([v], 1)))"
          using llca_insert_abs [OF abs1 _ a2(1), of ?a "[]" 0 v] by (auto simp: ins_before_def)
        have "llca_rel V st' (db(argv ! 1 \<mapsto> DB_List [v]))"
          if "v_keys V (st_srv st') = (v_keys V (st_srv st))(argv ! 1 \<mapsto> K_Module (st_llca st) ?a)"
            "st_llca st' = st_llca st" "st_ll st' = h2" for st' :: "('w, 'm) llca_state_scheme"
          using llca_rel_add [OF inv Absent(1) fresh(1) that(1,2)] abs2 that(3) db by simp
        moreover have "v_room V (snd (r_Alloc api sizeof_llca_node (insert ?a ?live) ?w2)) (llca_live h2) m"
          using a2(3) by (rule server_room [OF laws]) (use llca_insert_live [OF h2] h1(3) in simp_all)
        ultimately show ?thesis
          using Absent Some h1 h2 True argc db a1 a2 handle by (simp add: defs)
      qed
    next
      case (Other t)
      then show ?thesis
        using True argc rel db room0 llca server_types [OF laws Other(1)] by (simp add: defs)
    next
      case (Foreign mt a)
      then show ?thesis using True argc rel db room0 by (simp add: defs)
    next
      case (List a vs n)
      show ?thesis
      proof (cases "v_parse V (argv ! 2)")
        case None
        with List show ?thesis using True argc rel db room0 by (simp add: defs)
      next
        case (Some v)
        let ?open = "r_OpenKey api ctx (argv ! 1) (or REDISMODULE_READ REDISMODULE_WRITE)
          (snd (r_ThreadSafeContextLock api ctx (snd (r_AutoMemory api ctx (st_srv st)))))"
        let ?w = "snd (r_ModuleTypeGetValue api (fst ?open) (snd (r_StringToLongLong api (argv ! 2)
          (snd (r_ModuleTypeGetType api (fst ?open) (snd (r_KeyType api (fst ?open)
          (snd (r_ThreadSafeContextUnlock api ctx (snd ?open))))))))))"
        let ?live = "llca_live (st_ll st)"
        have room1: "v_room V ?w ?live (Suc (Suc m))"
          using room by (simp add: rules)
        note a1 = server_alloc [OF laws room1, of sizeof_llca_node]
        let ?b = "fst (r_Alloc api sizeof_llca_node ?live ?w)"
        have "ll_nodes (st_ll st) ?b = None"
          using llca_live_abs [OF abs a1(2)] by blast
        then obtain h2 where h2: "llca_insert ?b a v (st_ll st) = Some h2"
          and abs2: "ll_abs h2 (S(a \<mapsto> (ins_before v vs, n + 1)))"
          using llca_insert_abs [OF abs List(2) a1(1)] by blast
        have "llca_rel V st' (db(argv ! 1 \<mapsto> DB_List (ins_before v vs)))"
          if "v_keys V (st_srv st') = v_keys V (st_srv st)" "st_llca st' = st_llca st" "st_ll st' = h2"
          for st' :: "('w, 'm) llca_state_scheme"
          using llca_rel_update [OF inv List(1) that(1,2)] abs2 that(3) db by simp
        moreover have "v_room V (snd (r_Alloc api sizeof_llca_node ?live ?w)) (llca_live h2) m"
          using a1(3) by (rule server_room [OF laws]) (use llca_insert_live [OF h2] in auto)
        ultimately show ?thesis
          using List Some h2 True argc db a1 by (simp add: defs)
      qed
    qed
  qed
qed

end
