(* ===== verification/Redis_Sim.thy ===== *)
theory Redis_Sim
  imports Redis_Server
begin

text \<open>
  A small server that satisfies \<open>redis_laws\<close>: a keyspace, numbered key handles, an allocator that
  hands out increasing addresses, and RDB streams as queues. It shows that the laws can hold, and
  the witnesses of the properties run the module on it.
\<close>

record sim_world =
  sw_keys :: "string \<rightharpoonup> key_entry"
  sw_handles :: "addr \<rightharpoonup> string"
  sw_handle :: addr
  sw_brk :: addr
  sw_rdb :: "addr \<Rightarrow> rdb_item list"

text \<open>Decimal integers with an optional sign.\<close>

definition sim_digit :: "char \<Rightarrow> nat option" where
  "sim_digit c = (let n = of_char c :: nat in if 48 \<le> n \<and> n \<le> 57 then Some (n - 48) else None)"

fun sim_digits :: "int \<Rightarrow> string \<Rightarrow> int option" where
  "sim_digits acc [] = Some acc"
| "sim_digits acc (c # cs) =
     (case sim_digit c of None \<Rightarrow> None | Some d \<Rightarrow> sim_digits (10 * acc + int d) cs)"

definition sim_parse :: "string \<Rightarrow> int64 option" where
  "sim_parse s =
     (case s of
        [] \<Rightarrow> None
      | c # cs \<Rightarrow>
          let r = (if c = CHR ''-'' \<and> cs \<noteq> [] then map_option uminus (sim_digits 0 cs) else sim_digits 0 s)
          in case r of
               None \<Rightarrow> None
             | Some i \<Rightarrow> if - (2 ^ 63) \<le> i \<and> i < 2 ^ 63 then Some (word_of_int i) else None)"

text \<open>A foreign key has a type other than the two the module distinguishes.\<close>

definition sim_norm :: "key_entry \<Rightarrow> key_entry" where
  "sim_norm e = (case e of
      K_Other t \<Rightarrow> K_Other (if t = REDISMODULE_KEYTYPE_EMPTY \<or> t = REDISMODULE_KEYTYPE_MODULE then 1 else t)
    | K_Module mt v \<Rightarrow> K_Module mt v)"

definition sim_keys :: "sim_world \<Rightarrow> string \<rightharpoonup> key_entry" where
  "sim_keys w name = map_option sim_norm (sw_keys w name)"

definition sim_entry :: "sim_world \<Rightarrow> addr \<Rightarrow> key_entry option" where
  "sim_entry w k = (case sw_handles w k of None \<Rightarrow> None | Some name \<Rightarrow> sim_keys w name)"

definition sim_set :: "addr \<Rightarrow> key_entry option \<Rightarrow> sim_world \<Rightarrow> sim_world" where
  "sim_set k e w = (case sw_handles w k of
      None \<Rightarrow> w
    | Some name \<Rightarrow> w\<lparr>sw_keys := (sw_keys w)(name := e)\<rparr>)"

definition sim_push :: "addr \<Rightarrow> rdb_item \<Rightarrow> sim_world \<Rightarrow> sim_world" where
  "sim_push io x w = w\<lparr>sw_rdb := (sw_rdb w)(io := sw_rdb w io @ [x])\<rparr>"

definition sim_pop :: "addr \<Rightarrow> sim_world \<Rightarrow> sim_world" where
  "sim_pop io w = w\<lparr>sw_rdb := (sw_rdb w)(io := tl (sw_rdb w io))\<rparr>"

definition sim_api :: "sim_world redis_api" where
  "sim_api =
     \<lparr>r_Alloc = (\<lambda>n live w. (sw_brk w, w\<lparr>sw_brk := sw_brk w + 16\<rparr>)),
      r_Free = (\<lambda>p w. ((), w)),
      r_AutoMemory = (\<lambda>ctx w. ((), w)),
      r_OpenKey = (\<lambda>ctx name mode w. (sw_handle w,
         w\<lparr>sw_handles := (sw_handles w)(sw_handle w \<mapsto> name), sw_handle := sw_handle w + 1\<rparr>)),
      r_KeyType = (\<lambda>k w. (entry_type (sim_entry w k), w)),
      r_ModuleTypeGetType = (\<lambda>k w. (entry_module_type (sim_entry w k), w)),
      r_ModuleTypeGetValue = (\<lambda>k w. (entry_value (sim_entry w k), w)),
      r_ModuleTypeSetValue = (\<lambda>k mt v w. (REDISMODULE_OK, sim_set k (Some (K_Module mt v)) w)),
      r_DeleteKey = (\<lambda>k w. (REDISMODULE_OK, sim_set k None w)),
      r_StringToLongLong = (\<lambda>s w.
         (case sim_parse s of None \<Rightarrow> (REDISMODULE_ERR, 0) | Some v \<Rightarrow> (REDISMODULE_OK, v), w)),
      r_ReplyWithString = (\<lambda>ctx s w. (REDISMODULE_OK, w)),
      r_ReplyWithError = (\<lambda>ctx s w. (REDISMODULE_OK, w)),
      r_ReplyWithSimpleString = (\<lambda>ctx s w. (REDISMODULE_OK, w)),
      r_ThreadSafeContextLock = (\<lambda>ctx w. ((), w)),
      r_ThreadSafeContextUnlock = (\<lambda>ctx w. ((), w)),
      r_BlockClient = (\<lambda>ctx t w. (ctx + 1000, w)),
      r_UnblockClient = (\<lambda>bc p w. (REDISMODULE_OK, w)),
      r_GetThreadSafeContext = (\<lambda>bc w. (bc + 1000, w)),
      r_FreeThreadSafeContext = (\<lambda>ctx w. ((), w)),
      r_CreateDataType = (\<lambda>ctx name encver tm w. (if length name = 9 then if name = ''llca_conc'' then 78 else 77 else 0, w)),
      r_CreateCommand = (\<lambda>ctx name f flags a b c w. (REDISMODULE_OK, w)),
      r_SetModuleAttribs = (\<lambda>ctx name v a w. ((), w)),
      r_SaveUnsigned = (\<lambda>io v w. ((), sim_push io (RDB_Unsigned v) w)),
      r_SaveSigned = (\<lambda>io v w. ((), sim_push io (RDB_Signed v) w)),
      r_LoadUnsigned = (\<lambda>io w.
         (case sw_rdb w io of RDB_Unsigned v # _ \<Rightarrow> v | _ \<Rightarrow> 0, sim_pop io w)),
      r_LoadSigned = (\<lambda>io w.
         (case sw_rdb w io of RDB_Signed v # _ \<Rightarrow> v | _ \<Rightarrow> 0, sim_pop io w)),
      r_EmitAOF = (\<lambda>io c f k v w. ((), w)),
      r_DigestAddLongLong = (\<lambda>md v w. ((), w)),
      r_DigestEndSequence = (\<lambda>md w. ((), w))\<rparr>"

text \<open>The blocks of the C++ runtime come from an arena of their own.\<close>

definition sim_arena :: "addr list" where
  "sim_arena = map (\<lambda>i. 2 ^ 63 + 16 * of_nat i) [0..<64]"

definition sim_free :: "addr set \<Rightarrow> addr list" where
  "sim_free live = filter (\<lambda>a. a \<notin> live) sim_arena"

definition sim_new :: "addr set \<Rightarrow> addr" where
  "sim_new live = (case sim_free live of [] \<Rightarrow> 0 | a # _ \<Rightarrow> a)"

definition sim_view :: "sim_world redis_view" where
  "sim_view =
     \<lparr>v_keys = sim_keys,
      v_handles = sw_handles,
      v_parse = sim_parse,
      v_room = (\<lambda>w live n. n < 1000 \<and> n \<le> length (sim_free live) \<and> even (sw_brk w) \<and>
          (\<forall>i<n. sw_brk w + of_nat (16 * i) \<noteq> 0 \<and> sw_brk w + of_nat (16 * i) \<notin> live \<and>
            sw_brk w + of_nat (16 * i) \<notin> set sim_arena)),
      v_rdb = sw_rdb\<rparr>"

lemma sim_keys_simps [simp]:
  "sim_keys (w\<lparr>sw_handles := x\<rparr>) = sim_keys w"
  "sim_keys (w\<lparr>sw_handle := h\<rparr>) = sim_keys w"
  "sim_keys (w\<lparr>sw_brk := a\<rparr>) = sim_keys w"
  "sim_keys (w\<lparr>sw_rdb := r\<rparr>) = sim_keys w"
  by (simp_all add: sim_keys_def fun_eq_iff)

lemma sim_entry_eq: "sw_handles w k = Some name \<Longrightarrow> sim_entry w k = sim_keys w name"
  by (simp add: sim_entry_def)

lemma sim_set_eq:
  assumes "sw_handles w k = Some name"
  shows "sim_keys (sim_set k (Some (K_Module mt v)) w) = (sim_keys w)(name \<mapsto> K_Module mt v)"
    "sim_keys (sim_set k None w) = (sim_keys w)(name := None)"
    "sw_handles (sim_set k e w) = sw_handles w" "sw_brk (sim_set k e w) = sw_brk w"
    "sw_rdb (sim_set k e w) = sw_rdb w"
  using assms by (auto simp: sim_set_def sim_keys_def sim_norm_def)

lemma sim_room_step:
  assumes room: "\<forall>i<Suc n. b + of_nat (16 * i) \<noteq> (0 :: addr) \<and> b + of_nat (16 * i) \<notin> live \<and>
      b + of_nat (16 * i) \<notin> A"
    and n: "n < 1000" and i: "i < n"
  shows "b + 16 + of_nat (16 * i) \<noteq> 0" "b + 16 + of_nat (16 * i) \<notin> insert b live"
    "b + 16 + of_nat (16 * i) \<notin> A"
proof -
  have shift: "b + 16 + of_nat (16 * i) = b + of_nat (16 * Suc i)"
    by (simp add: algebra_simps)
  have "(of_nat (16 * Suc i) :: addr) \<noteq> 0"
  proof
    assume "(of_nat (16 * Suc i) :: addr) = 0"
    then have "2 ^ 64 dvd 16 * Suc i"
      using word_of_nat_eq_0_iff [where 'a = 64, of "16 * Suc i"] by simp
    then have "2 ^ 64 \<le> 16 * Suc i" by (rule dvd_imp_le) simp
    with i n show False by simp
  qed
  then have "b + of_nat (16 * Suc i) \<noteq> b" by (metis add_cancel_left_right)
  with room i show "b + 16 + of_nat (16 * i) \<noteq> 0" "b + 16 + of_nat (16 * i) \<notin> insert b live"
    "b + 16 + of_nat (16 * i) \<notin> A"
    unfolding shift by auto
qed

lemma sim_laws_keys:
  "law_OpenKey sim_api sim_view" "law_KeyType sim_api sim_view" "law_ModuleTypeGetType sim_api sim_view"
  "law_ModuleTypeGetValue sim_api sim_view" "law_ModuleTypeSetValue sim_api sim_view"
  "law_DeleteKey sim_api sim_view"
  by (auto simp: law_OpenKey_def law_KeyType_def law_ModuleTypeGetType_def law_ModuleTypeGetValue_def
      law_ModuleTypeSetValue_def law_DeleteKey_def sim_api_def sim_view_def sim_entry_eq sim_set_eq)

lemma sim_laws_others:
  "law_StringToLongLong sim_api sim_view" "law_neutral sim_api sim_view" "law_rdb sim_api sim_view"
  by (auto simp: law_StringToLongLong_def law_neutral_def law_room_def law_rdb_def
      sim_api_def sim_view_def sim_push_def sim_pop_def split: option.splits)

lemma sim_free_mono: "live' \<subseteq> live \<Longrightarrow> length (sim_free live) \<le> length (sim_free live')"
proof -
  assume "live' \<subseteq> live"
  then have "sim_free live = filter (\<lambda>a. a \<notin> live) (sim_free live')"
    by (auto simp: sim_free_def intro: filter_cong)
  then show ?thesis by (metis length_filter_le)
qed

lemma sim_law_room: "law_room sim_view"
proof -
  have "v_room sim_view w live' n'"
    if "v_room sim_view w live n" "live' \<subseteq> live" "n' \<le> n" for w live live' n n'
    using that sim_free_mono [OF that(2)] by (auto simp: sim_view_def)
  then show ?thesis unfolding law_room_def by blast
qed

lemma sim_law_types: "law_types sim_view"
proof -
  have "t \<noteq> REDISMODULE_KEYTYPE_EMPTY \<and> t \<noteq> REDISMODULE_KEYTYPE_MODULE"
    if "sim_keys w name = Some (K_Other t)" for w name t
    using that by (cases "the (sw_keys w name)")
      (auto simp: sim_keys_def sim_norm_def redis_constants split: if_splits)
  then show ?thesis by (simp add: law_types_def sim_view_def)
qed

lemma sim_law_Alloc: "law_Alloc sim_api sim_view"
proof -
  have "a \<noteq> 0 \<and> a \<notin> live \<and> v_room sim_view w' (insert a live) n \<and>
      v_keys sim_view w' = v_keys sim_view w \<and> v_handles sim_view w' = v_handles sim_view w \<and>
      v_rdb sim_view w' = v_rdb sim_view w"
    if room: "v_room sim_view w live (Suc n)" and run: "r_Alloc sim_api bytes live w = (a, w')"
    for bytes live n w a w'
  proof -
    from run have a: "a = sw_brk w" "w' = w\<lparr>sw_brk := sw_brk w + 16\<rparr>"
      by (auto simp: sim_api_def)
    from room have r: "\<forall>i<Suc n. sw_brk w + of_nat (16 * i) \<noteq> 0 \<and> sw_brk w + of_nat (16 * i) \<notin> live \<and>
        sw_brk w + of_nat (16 * i) \<notin> set sim_arena"
      and n: "n < 1000" "n \<le> length (sim_free live)" "even (sw_brk w)"
      by (simp_all add: sim_view_def)
    have 0: "a \<noteq> 0 \<and> a \<notin> live" "a \<notin> set sim_arena" using r [rule_format, of 0] a by simp_all
    have "sim_free (insert a live) = sim_free live"
      using 0(2) by (auto simp: sim_free_def intro: filter_cong)
    then have "v_room sim_view w' (insert a live) n"
      using sim_room_step [OF r n(1)] n a by (simp add: sim_view_def)
    moreover note 0(1)
    ultimately show ?thesis using a by (simp add: sim_view_def)
  qed
  then show ?thesis unfolding law_Alloc_def by blast
qed

lemma sim_laws: "redis_laws sim_api sim_view"
  unfolding redis_laws_def using sim_laws_keys sim_laws_others sim_law_room sim_law_Alloc sim_law_types by blast

text \<open>A heap below 4096 leaves room for 60 requests.\<close>

lemma sim_arena_high: "a \<in> set sim_arena \<Longrightarrow> 2 ^ 63 \<le> unat a"
  by (auto simp: sim_arena_def unat_word_ariths unat_of_nat)

lemma sim_room:
  assumes "sw_brk w = 4096" and live: "\<And>a. a \<in> live \<Longrightarrow> unat a < 4096" and n: "n \<le> 60"
  shows "v_room sim_view w live n"
proof -
  have b: "unat ((4096 :: addr) + of_nat (16 * i)) = 4096 + 16 * i" if "i < n" for i
    using that n by (simp add: unat_word_ariths unat_of_nat)
  have "sim_free live = sim_arena"
    using sim_arena_high live by (force simp: sim_free_def filter_id_conv)
  then have "n \<le> length (sim_free live)"
    using n by (simp add: sim_arena_def)
  moreover have "(4096 :: addr) + of_nat (16 * i) \<noteq> 0 \<and> 4096 + of_nat (16 * i) \<notin> live \<and>
      4096 + of_nat (16 * i) \<notin> set sim_arena" if i: "i < n" for i
  proof -
    let ?a = "(4096 :: addr) + of_nat (16 * i)"
    have "?a \<noteq> 0" using b [OF i] by (metis add_is_0 unat_0 zero_neq_numeral)
    moreover have "?a \<notin> live" using b [OF i] live [of ?a] by auto
    moreover have "?a \<notin> set sim_arena" using b [OF i] sim_arena_high [of ?a] i n by auto
    ultimately show ?thesis by blast
  qed
  ultimately show ?thesis
    using assms(1) n by (simp add: sim_view_def)
qed

lemma sim_law_new:
  assumes "v_room sim_view w live (Suc n)"
  shows "sim_new live \<noteq> 0" "sim_new live \<notin> live" "even (sim_new live)"
    "v_room sim_view w (insert (sim_new live) live) n"
proof -
  from assms obtain a as where f: "sim_free live = a # as"
    by (cases "sim_free live") (auto simp: sim_view_def)
  have a: "a \<in> set sim_arena" "a \<notin> live"
    using f by (auto simp: sim_free_def dest!: arg_cong [where f = set])
  have "distinct sim_arena" by (simp add: sim_arena_def upt_rec)
  then have "distinct (a # as)" using f by (metis sim_free_def distinct_filter)
  have "sim_free (insert a live) = filter (\<lambda>x. x \<noteq> a) (sim_free live)"
    by (simp add: sim_free_def) (metis (mono_tags, lifting))
  also have "\<dots> = as" using \<open>distinct (a # as)\<close> f by (auto simp: filter_id_conv)
  finally have as: "sim_free (insert a live) = as" .
  show "sim_new live \<noteq> 0" "sim_new live \<notin> live"
    using f a sim_arena_high [OF a(1)] by (auto simp: sim_new_def)
  show "even (sim_new live)"
    using a(1) f by (auto simp: sim_new_def sim_arena_def)
  show "v_room sim_view w (insert (sim_new live) live) n"
    using assms f as a(1) by (auto simp: sim_view_def sim_new_def)
qed

end
