(* ===== verification/Llca_Persist.thy ===== *)
theory Llca_Persist
  imports Llca_Spec Redis_Sim
begin

text \<open>
  The type methods of \<^verbatim>\<open>src/src/llca.cpp\<close>: what \<open>llca_rdb_save\<close> writes and \<open>llca_rdb_load\<close> builds from
  it, the commands of \<open>llca_aof_rewrite\<close>, the calls of \<open>llca_digest\<close>, and the count in
  \<open>llca_mem_usage\<close>. A list that has only been inserted into survives a save and a load; a list from
  which a value was removed is saved with a count that is too large, because \<open>llca_remove\<close> leaves
  \<open>len\<close> as it was.
\<close>

lemma node_loop_spec:
  assumes "ll_path N p as 0"
  shows "node_loop body N p st = Some (fold body (map (node_val N) as) st)"
  using assms
proof (induction as arbitrary: p st)
  case Nil
  then show ?case by (simp add: node_loop.simps)
next
  case (Cons a as)
  then show ?case
    by (subst node_loop.simps) (auto simp: heap_simps split: option.splits)
qed

text \<open>The object and the chain of a list of the store.\<close>

lemma ll_abs_object:
  assumes "ll_abs h S" and "S obj = Some (vs, n)"
  obtains r as where "ll_objs h obj = Some r" "lo_len r = n" "ll_path (ll_nodes h) (lo_head r) as 0"
    "map (node_val (ll_nodes h)) as = vs"
proof -
  from assms(1) obtain F where L: "ll_layout h F" and S: "S = ll_view h F"
    by (auto simp: ll_abs_def)
  show ?thesis
    using assms(2) unfolding S
    by (elim ll_viewD [OF L]) (metis ll_vals_def that)
qed

subsection \<open>Saving\<close>

lemma fold_save:
  assumes "redis_laws api V"
  shows "\<exists>w. fold (\<lambda>v st. snd (RedisModule_SaveSigned api rdb v st)) vs st
      = st\<lparr>st_srv := w, st_trace := st_trace st @ map (C_SaveSigned rdb) vs\<rparr> \<and>
    v_rdb V w rdb = v_rdb V (st_srv st) rdb @ map RDB_Signed vs"
proof (induction vs arbitrary: st)
  case Nil
  show ?case by (intro exI [of _ "st_srv st"]) simp
next
  case (Cons v vs)
  let ?st = "snd (RedisModule_SaveSigned api rdb v st)"
  have "v_rdb V (st_srv ?st) rdb = v_rdb V (st_srv st) rdb @ [RDB_Signed v]"
    using assms by (simp add: redis_laws_def law_rdb_def host_simps)
  with Cons.IH [of ?st] show ?case
    by (auto simp: host_simps)
qed

lemma rdb_save_writes:
  fixes st :: "('w, 'm) llca_state_scheme"
  assumes laws: "redis_laws api V" and abs: "ll_abs (st_ll st) S" and obj: "S obj = Some (vs, n)"
  shows "\<exists>w. llca_rdb_save api rdb obj st
      = Some (st\<lparr>st_srv := w, st_trace := st_trace st @ C_SaveUnsigned rdb n # map (C_SaveSigned rdb) vs\<rparr>) \<and>
    v_rdb V w rdb = v_rdb V (st_srv st) rdb @ RDB_Unsigned n # map RDB_Signed vs"
proof -
  obtain r as where r: "ll_objs (st_ll st) obj = Some r" "lo_len r = n"
    "ll_path (ll_nodes (st_ll st)) (lo_head r) as 0" "map (node_val (ll_nodes (st_ll st))) as = vs"
    using abs obj by (rule ll_abs_object)
  let ?st = "snd (RedisModule_SaveUnsigned api rdb n st)"
  have "v_rdb V (st_srv ?st) rdb = v_rdb V (st_srv st) rdb @ [RDB_Unsigned n]"
    using laws by (simp add: redis_laws_def law_rdb_def host_simps)
  moreover obtain w where "fold (\<lambda>v st. snd (RedisModule_SaveSigned api rdb v st)) vs ?st
      = ?st\<lparr>st_srv := w, st_trace := st_trace ?st @ map (C_SaveSigned rdb) vs\<rparr>"
    "v_rdb V w rdb = v_rdb V (st_srv ?st) rdb @ map RDB_Signed vs"
    using fold_save [OF laws] by blast
  ultimately show ?thesis
    using r by (intro exI [of _ w]) (simp add: llca_rdb_save_def host_simps node_loop_spec [OF r(3)])
qed

subsection \<open>Loading\<close>

lemma server_load:
  assumes "redis_laws api V"
  shows "v_rdb V w io = RDB_Unsigned u # rest \<Longrightarrow> fst (r_LoadUnsigned api io w) = u"
    "v_rdb V w io = RDB_Unsigned u # rest \<Longrightarrow> v_rdb V (snd (r_LoadUnsigned api io w)) io = rest"
    "v_rdb V w io = RDB_Signed i # rest \<Longrightarrow> fst (r_LoadSigned api io w) = i"
    "v_rdb V w io = RDB_Signed i # rest \<Longrightarrow> v_rdb V (snd (r_LoadSigned api io w)) io = rest"
    "v_room V w live n \<Longrightarrow> v_room V (snd (r_LoadUnsigned api io w)) live n"
    "v_room V w live n \<Longrightarrow> v_room V (snd (r_LoadSigned api io w)) live n"
  using assms unfolding redis_laws_def law_rdb_def by blast+

lemma rdb_load_loop_spec:
  fixes st :: "('w, 'm) llca_state_scheme"
  assumes laws: "redis_laws api V"
  shows "ll_abs (st_ll st) S \<Longrightarrow> S ll = Some (us, n) \<Longrightarrow>
    v_rdb V (st_srv st) rdb = map RDB_Signed vs @ rest \<Longrightarrow>
    v_room V (st_srv st) (llca_live (st_ll st)) (length vs) \<Longrightarrow>
    \<exists>st'. rdb_load_loop api rdb ll (length vs) st = Some st' \<and>
      ll_abs (st_ll st') (S(ll \<mapsto> (fold ins_before vs us, n + of_nat (length vs)))) \<and>
      v_rdb V (st_srv st') rdb = rest"
proof (induction vs arbitrary: st us n S)
  case Nil
  then show ?case by (simp add: fun_upd_idem)
next
  case (Cons v vs)
  let ?w = "snd (r_LoadSigned api rdb (st_srv st))"
  let ?live = "llca_live (st_ll st)"
  let ?b = "fst (r_Alloc api sizeof_llca_node ?live ?w)"
  let ?w2 = "snd (r_Alloc api sizeof_llca_node ?live ?w)"
  have rdb: "fst (r_LoadSigned api rdb (st_srv st)) = v" "v_rdb V ?w rdb = map RDB_Signed vs @ rest"
    using server_load [OF laws] Cons.prems(3) by simp_all
  have "v_room V ?w ?live (Suc (length vs))"
    using server_load [OF laws] Cons.prems(4) by simp
  note a = server_alloc [OF laws this, of sizeof_llca_node]
  have "ll_nodes (st_ll st) ?b = None"
    using llca_live_abs [OF Cons.prems(1) a(2)] by blast
  then obtain h where h: "llca_insert ?b ll v (st_ll st) = Some h"
    and abs: "ll_abs h (S(ll \<mapsto> (ins_before v us, n + 1)))"
    using llca_insert_abs [OF Cons.prems(1,2) a(1)] by blast
  let ?st = "st\<lparr>st_srv := ?w2, st_trace := st_trace st @ [C_LoadSigned rdb v, C_Alloc sizeof_llca_node ?b], st_ll := h\<rparr>"
  have "v_room V ?w2 (llca_live h) (length vs)"
    using a(3) by (rule server_room [OF laws]) (use llca_insert_live [OF h] in auto)
  then have "\<exists>st'. rdb_load_loop api rdb ll (length vs) ?st = Some st' \<and>
      ll_abs (st_ll st') (S(ll \<mapsto> (ins_before v us, n + 1), ll \<mapsto>
        (fold ins_before vs (ins_before v us), n + 1 + of_nat (length vs)))) \<and>
      v_rdb V (st_srv st') rdb = rest"
    using abs rdb(2) a(6) by (intro Cons.IH) (simp_all del: fun_upd_apply add: fun_upd_same)
  then obtain st' where "rdb_load_loop api rdb ll (length vs) ?st = Some st'"
    "ll_abs (st_ll st') (S(ll \<mapsto> (fold ins_before vs (ins_before v us), n + 1 + of_nat (length vs))))"
    "v_rdb V (st_srv st') rdb = rest"
    unfolding fun_upd_upd by blast
  then show ?case
    using h rdb(1) by (simp add: host_simps add.assoc del: fun_upd_apply)
qed

text \<open>Loading the values of an ascending list in their order rebuilds it.\<close>

lemma Cons_eq_snoc: "(\<forall>x \<in> set us. x = v) \<Longrightarrow> v # us = us @ [v]"
  by (induction us) auto

lemma ins_before_greatest:
  assumes "ascending us" and "\<forall>u \<in> set us. sint u \<le> sint v"
  shows "ins_before v us = us @ [v]"
  using assms
proof (induction us)
  case Nil
  then show ?case by (simp add: ins_before_def)
next
  case (Cons u us)
  show ?case
  proof (cases "u <s v")
    case True
    with Cons show ?thesis by (simp add: ins_before_def)
  next
    case False
    with Cons.prems have "sint x = sint v" if "x \<in> set (u # us)" for x
      using that by (fastforce simp: sless_irrefl_iff)
    then have "\<forall>x \<in> set (u # us). x = v" by (simp add: sint_eq_iff)
    moreover from False have "ins_before v (u # us) = v # u # us" by (simp add: ins_before_def)
    ultimately show ?thesis using Cons_eq_snoc by metis
  qed
qed

lemma fold_ins_before_ascending: "ascending (us @ vs) \<Longrightarrow> fold ins_before vs us = us @ vs"
proof (induction vs arbitrary: us)
  case (Cons v vs)
  then have "ins_before v us = us @ [v]"
    by (intro ins_before_greatest) (auto simp: sorted_append)
  with Cons show ?case by simp
qed simp

lemma rdb_load_reads:
  fixes st :: "('w, 'm) llca_state_scheme"
  assumes laws: "redis_laws api V" and abs: "ll_abs (st_ll st) S" and asc: "ascending vs"
    and len: "length vs < 2 ^ 64"
    and rdb: "v_rdb V (st_srv st) rdb = RDB_Unsigned (of_nat (length vs)) # map RDB_Signed vs @ rest"
    and room: "v_room V (st_srv st) (llca_live (st_ll st)) (Suc (length vs))"
  shows "\<exists>a st'. llca_rdb_load api rdb 0 st = Some (a, st') \<and> S a = None \<and> a \<noteq> 0 \<and>
    ll_abs (st_ll st') (S(a \<mapsto> (vs, of_nat (length vs)))) \<and> v_rdb V (st_srv st') rdb = rest"
proof -
  let ?n = "of_nat (length vs) :: size64"
  let ?w = "snd (r_LoadUnsigned api rdb (st_srv st))"
  let ?live = "llca_live (st_ll st)"
  let ?a = "fst (r_Alloc api sizeof_llca_obj ?live ?w)"
  let ?w2 = "snd (r_Alloc api sizeof_llca_obj ?live ?w)"
  have load: "fst (r_LoadUnsigned api rdb (st_srv st)) = ?n" "v_rdb V ?w rdb = map RDB_Signed vs @ rest"
    using server_load [OF laws] rdb by simp_all
  have "v_room V ?w ?live (Suc (length vs))"
    using server_load [OF laws] room by simp
  note a = server_alloc [OF laws this, of sizeof_llca_obj]
  have fresh: "S ?a = None" "ll_objs (st_ll st) ?a = None"
    using llca_live_abs [OF abs a(2)] by blast+
  obtain h where h: "createLLCAObject ?a (st_ll st) = Some h" "ll_nodes h = ll_nodes (st_ll st)"
    "llca_live h = insert ?a ?live" and abs1: "ll_abs h (S(?a \<mapsto> ([], 0)))"
    using createLLCAObject_abs [OF abs a(1) fresh(2)]
    by (force simp: createLLCAObject_def llca_live_def split: if_splits)
  let ?st = "st\<lparr>st_srv := ?w2, st_trace := st_trace st @ [C_LoadUnsigned rdb ?n, C_Alloc sizeof_llca_obj ?a],
    st_ll := h\<rparr>"
  have "fold ins_before vs [] = vs"
    using fold_ins_before_ascending [of "[]" vs] asc by simp
  moreover have "v_room V (st_srv ?st) (llca_live (st_ll ?st)) (length vs)"
    using a(3) h(3) by simp
  ultimately obtain st' where "rdb_load_loop api rdb ?a (length vs) ?st = Some st'"
    "ll_abs (st_ll st') (S(?a \<mapsto> (vs, ?n)))" "v_rdb V (st_srv st') rdb = rest"
    using rdb_load_loop_spec [OF laws, of ?st "S(?a \<mapsto> ([], 0))" ?a "[]" 0 rdb vs rest] abs1 load a(6)
    by auto
  moreover have "unat ?n = length vs"
    using len by (simp add: unat_of_nat)
  ultimately have "llca_rdb_load api rdb 0 st = Some (?a, st')"
    using load h by (simp add: llca_rdb_load_def host_simps)
  with \<open>ll_abs (st_ll st') _\<close> \<open>v_rdb V (st_srv st') rdb = rest\<close> fresh(1) a(1) show ?thesis by blast
qed

subsection \<open>The append-only file, the digest and the memory usage\<close>

lemma fold_emit:
  "\<exists>w. fold (\<lambda>v st. snd (RedisModule_EmitAOF api aof cmd fmt key v st)) vs st
     = st\<lparr>st_srv := w, st_trace := st_trace st @ map (C_EmitAOF aof cmd fmt key) vs\<rparr>"
proof (induction vs arbitrary: st)
  case Nil
  show ?case by (intro exI [of _ "st_srv st"]) simp
next
  case (Cons v vs)
  from this [of "snd (RedisModule_EmitAOF api aof cmd fmt key v st)"] show ?case
    by (auto simp: host_simps)
qed

lemma fold_digest:
  "\<exists>w. fold (\<lambda>v st. snd (RedisModule_DigestAddLongLong api md v st)) vs st
     = st\<lparr>st_srv := w, st_trace := st_trace st @ map (C_DigestAddLongLong md) vs\<rparr>"
proof (induction vs arbitrary: st)
  case Nil
  show ?case by (intro exI [of _ "st_srv st"]) simp
next
  case (Cons v vs)
  from this [of "snd (RedisModule_DigestAddLongLong api md v st)"] show ?case
    by (auto simp: host_simps)
qed

lemma aof_rewrite_calls:
  fixes st :: "('w, 'm) llca_state_scheme"
  assumes abs: "ll_abs (st_ll st) S" and obj: "S obj = Some (vs, n)"
  shows "\<exists>w. llca_aof_rewrite api aof key obj st
      = Some (st\<lparr>st_srv := w, st_trace := st_trace st @ map (C_EmitAOF aof ''LLCA_TYPE.INSERT'' ''sl'' key) vs\<rparr>)"
proof -
  obtain r as where r: "ll_objs (st_ll st) obj = Some r"
    "ll_path (ll_nodes (st_ll st)) (lo_head r) as 0" "map (node_val (ll_nodes (st_ll st))) as = vs"
    using abs obj by (rule ll_abs_object)
  then show ?thesis
    using fold_emit by (simp add: llca_aof_rewrite_def node_loop_spec [OF r(2)])
qed

lemma digest_calls:
  fixes st :: "('w, 'm) llca_state_scheme"
  assumes abs: "ll_abs (st_ll st) S" and obj: "S obj = Some (vs, n)"
  shows "\<exists>w. llca_digest api md obj st
      = Some (st\<lparr>st_srv := w,
          st_trace := st_trace st @ map (C_DigestAddLongLong md) vs @ [C_DigestEndSequence md]\<rparr>)"
proof -
  obtain r as where r: "ll_objs (st_ll st) obj = Some r"
    "ll_path (ll_nodes (st_ll st)) (lo_head r) as 0" "map (node_val (ll_nodes (st_ll st))) as = vs"
    using abs obj by (rule ll_abs_object)
  obtain w where "fold (\<lambda>v st. snd (RedisModule_DigestAddLongLong api md v st)) vs st
     = st\<lparr>st_srv := w, st_trace := st_trace st @ map (C_DigestAddLongLong md) vs\<rparr>"
    using fold_digest [of api md vs st] by (rule exE)
  with r show ?thesis
    by (intro exI [of _ "snd (r_DigestEndSequence api md w)"])
      (simp add: llca_digest_def node_loop_spec [OF r(2)] RedisModule_DigestEndSequence_def host_call_eq)
qed

lemma mem_usage_count:
  assumes "ll_abs (st_ll st) S" and "S obj = Some (vs, n)"
  shows "llca_mem_usage obj st = Some (16 + 16 * n)"
  using assms
  by (elim ll_abs_object) (auto simp: llca_mem_usage_def sizeof_llca_obj_def sizeof_llca_node_def)

subsection \<open>Properties\<close>

text \<open>A state of the module with the list of \<open>demo_heap\<close>, an empty RDB stream \<open>3\<close> and a stream \<open>4\<close> that
  holds a saved list.\<close>

definition rdb_state :: "sim_world llca_state" where
  "rdb_state =
     \<lparr>st_srv = \<lparr>sw_keys = Map.empty, sw_handles = Map.empty, sw_handle = 1, sw_brk = 4096,
        sw_rdb = (\<lambda>io. if io = 4 then [RDB_Unsigned 2, RDB_Signed 5, RDB_Signed 9] else [])\<rparr>,
      st_trace = [], st_ll = demo_heap, st_llca = 77\<rparr>"

lemma rdb_state_abs: "ll_abs (st_ll rdb_state) [256 \<mapsto> ([5, 9], 2)]"
  by (simp add: rdb_state_def demo_abs)

text \<open>C25: Round trip of persistence: when the count of an ascending list is right, saving it and loading
  the saved stream into any state of a lawful server with enough memory returns a new list object
  with the same values and count, consumes exactly the saved items, and leaves every list that was
  there unchanged.\<close>

theorem llca_rdb_roundtrip:
  fixes st st2 :: "('w, 'm) llca_state_scheme"
  assumes laws: "redis_laws api V" and abs: "ll_abs (st_ll st) S"
    and obj: "S obj = Some (vs, of_nat (length vs))"
    and asc: "ascending vs" and len: "length vs < 2 ^ 64" and empty: "v_rdb V (st_srv st) rdb = []"
    and abs2: "ll_abs (st_ll st2) S2"
    and room: "v_room V (st_srv st2) (llca_live (st_ll st2)) (Suc (length vs))"
  shows "\<exists>st1. llca_rdb_save api rdb obj st = Some st1 \<and> st_ll st1 = st_ll st \<and>
    (v_rdb V (st_srv st2) rdb2 = v_rdb V (st_srv st1) rdb @ rest \<longrightarrow>
      (\<exists>a st3. llca_rdb_load api rdb2 0 st2 = Some (a, st3) \<and> S2 a = None \<and>
        ll_abs (st_ll st3) (S2(a \<mapsto> (vs, of_nat (length vs)))) \<and> v_rdb V (st_srv st3) rdb2 = rest))"
proof -
  obtain w where w: "llca_rdb_save api rdb obj st = Some (st\<lparr>st_srv := w,
      st_trace := st_trace st @ C_SaveUnsigned rdb (of_nat (length vs)) # map (C_SaveSigned rdb) vs\<rparr>)"
    "v_rdb V w rdb = RDB_Unsigned (of_nat (length vs)) # map RDB_Signed vs"
    using rdb_save_writes [OF laws abs obj, of rdb] empty by auto
  then show ?thesis
    using rdb_load_reads [OF laws abs2 asc len _ room, of rdb2 rest] by auto
qed

theorem llca_rdb_roundtrip_witness:
  "\<exists>st1. llca_rdb_save sim_api 3 256 rdb_state = Some st1 \<and> st_ll st1 = st_ll rdb_state \<and>
    (v_rdb sim_view (st_srv rdb_state) 4 = v_rdb sim_view (st_srv st1) 3 @ [] \<longrightarrow>
      (\<exists>a st3. llca_rdb_load sim_api 4 0 rdb_state = Some (a, st3) \<and> [256 \<mapsto> ([5, 9 :: int64], 2 :: size64)] a = None \<and>
        ll_abs (st_ll st3) ([256 \<mapsto> ([5, 9], 2)](a \<mapsto> ([5, 9], of_nat (length [5 :: int64, 9])))) \<and>
        v_rdb sim_view (st_srv st3) 4 = []))"
proof (rule llca_rdb_roundtrip [OF sim_laws rdb_state_abs _ _ _ _ rdb_state_abs])
  show "v_room sim_view (st_srv rdb_state) (llca_live (st_ll rdb_state)) (Suc (length [5 :: int64, 9]))"
    by (rule sim_room) (auto simp: llca_live_def rdb_state_def demo_heap_def split: if_splits)
qed (simp_all add: sim_view_def rdb_state_def)

text \<open>C26: After a successful \<open>llca_remove\<close> from a list whose count was right, \<open>llca_rdb_save\<close> announces one
  element more than it writes, and \<open>llca_mem_usage\<close> still counts the freed node: the stream then
  makes \<open>llca_rdb_load\<close> read past the list.\<close>

theorem llca_count_after_remove:
  fixes st :: "('w, 'm) llca_state_scheme"
  assumes laws: "redis_laws api V" and abs: "ll_abs (st_ll st) S"
    and obj: "S obj = Some (vs, of_nat (length vs))" and len: "length vs < 2 ^ 64" and v: "v \<in> set vs"
    and empty: "v_rdb V (st_srv st) rdb = []"
  shows "\<exists>h' st1 n vs'. llca_remove obj v (st_ll st) = Some (True, h') \<and>
    llca_rdb_save api rdb obj (st\<lparr>st_ll := h'\<rparr>) = Some st1 \<and>
    v_rdb V (st_srv st1) rdb = RDB_Unsigned n # map RDB_Signed vs' \<and> vs' = remove1 v vs \<and>
    unat n = length vs' + 1 \<and> llca_mem_usage obj (st\<lparr>st_ll := h'\<rparr>) = Some (16 + 16 * n)"
proof -
  let ?n = "of_nat (length vs) :: size64"
  obtain h' where h': "llca_remove obj v (st_ll st) = Some (True, h')"
    and abs': "ll_abs (st_ll (st\<lparr>st_ll := h'\<rparr>)) (S(obj \<mapsto> (remove1 v vs, ?n)))"
    using llca_remove_abs [OF abs obj, of v] v by auto
  note save = rdb_save_writes [OF laws abs', of obj "remove1 v vs" ?n rdb]
  have "unat ?n = length (remove1 v vs) + 1"
  proof -
    have "unat ?n = length vs" using len by (simp add: unat_of_nat)
    moreover have "0 < length vs" using v by auto
    ultimately show ?thesis using v by (simp add: length_remove1)
  qed
  moreover have "llca_mem_usage obj (st\<lparr>st_ll := h'\<rparr>) = Some (16 + 16 * ?n)"
    by (rule mem_usage_count [OF abs']) simp
  ultimately show ?thesis
    using h' save empty by (auto simp del: of_nat_Suc)
qed

theorem llca_count_after_remove_witness:
  "\<exists>h' st1 n vs'. llca_remove 256 9 (st_ll rdb_state) = Some (True, h') \<and>
    llca_rdb_save sim_api 3 256 (rdb_state\<lparr>st_ll := h'\<rparr>) = Some st1 \<and>
    v_rdb sim_view (st_srv st1) 3 = RDB_Unsigned n # map RDB_Signed vs' \<and> vs' = remove1 9 [5, 9] \<and>
    unat n = length vs' + 1 \<and> llca_mem_usage 256 (rdb_state\<lparr>st_ll := h'\<rparr>) = Some (16 + 16 * n)"
  by (rule llca_count_after_remove [OF sim_laws rdb_state_abs])
    (simp_all add: sim_view_def rdb_state_def)



text \<open>\<open>llca_digest\<close> adds the values of the list in order and ends the sequence once; it returns for
  every list of the heap and changes nothing of the module's state.\<close>

theorem llca_digest_calls:
  fixes st :: "('w, 'm) llca_state_scheme"
  assumes "ll_abs (st_ll st) S" and "S obj = Some (vs, n)"
  shows "\<exists>w. llca_digest api md obj st = Some (st\<lparr>st_srv := w,
    st_trace := st_trace st @ map (C_DigestAddLongLong md) vs @ [C_DigestEndSequence md]\<rparr>)"
  using assms by (rule digest_calls)

theorem llca_digest_calls_witness:
  "\<exists>w. llca_digest sim_api 9 256 rdb_state = Some (rdb_state\<lparr>st_srv := w,
    st_trace := st_trace rdb_state @ map (C_DigestAddLongLong 9) [5, 9] @ [C_DigestEndSequence 9]\<rparr>)"
  by (rule llca_digest_calls [OF rdb_state_abs]) simp

end
