(* ===== verification/Llca_Events.thy ===== *)
theory Llca_Events
  imports Llca_Spec Redis_Sim
begin

text \<open>
  The events of \<^verbatim>\<open>src/src/llca.cpp\<close>: what executing one asks of the server whatever the server
  answers (one reply, a balanced lock, keys opened with the lock held), and that on a lawful server
  a sequence of events replies and changes the database as \<open>Llca_Spec\<close> says.
\<close>

datatype llca_class = Llca_Insert_Event | Llca_Contains_Event | Llca_Remove_Event

text \<open>The virtual call \<open>e->execute()\<close> on an event of one of the three classes.\<close>

definition llca_execute :: "'w redis_api \<Rightarrow> llca_class \<Rightarrow> event \<Rightarrow>
    ('w, 'm) llca_state_scheme \<Rightarrow> ('w, 'm) llca_state_scheme option" where
  "llca_execute api c e st = (case c of
      Llca_Insert_Event \<Rightarrow> llca_insert_event_execute api e st
    | Llca_Contains_Event \<Rightarrow> llca_contains_event_execute api e st
    | Llca_Remove_Event \<Rightarrow> llca_remove_event_execute api e st)"

definition spec_execute :: "(string \<rightharpoonup> int64) \<Rightarrow> llca_class \<Rightarrow> string list \<Rightarrow> db \<Rightarrow> string \<times> db" where
  "spec_execute parse c argv db = (case c of
      Llca_Insert_Event \<Rightarrow> spec_insert parse argv db
    | Llca_Contains_Event \<Rightarrow> spec_contains parse argv db
    | Llca_Remove_Event \<Rightarrow> spec_remove parse argv db)"

subsection \<open>The calls of the commands, on any server\<close>

text \<open>The calls of one command: the lock is balanced, keys are opened under it, nothing is replied.\<close>

definition quiet_calls :: "('w, 'm) host_state_scheme \<Rightarrow> ('w, 'm) host_state_scheme \<Rightarrow> bool" where
  "quiet_calls st st' \<longleftrightarrow> (\<exists>tr. st_trace st' = st_trace st @ tr \<and> lock_balanced tr \<and>
     guarded open_call False tr \<and> replies tr = [])"

lemma contains_calls:
  "llca_contains_RedisCommand api ctx argv argc st = Some (r, st') \<Longrightarrow> quiet_calls st st'"
  unfolding llca_contains_RedisCommand_def Let_def lock_balanced_def quiet_calls_def
  by (auto split: if_splits simp: at_def host_simps split_beta)

lemma remove_calls:
  "llca_remove_RedisCommand api ctx argv argc st = Some (r, st') \<Longrightarrow> quiet_calls st st'"
  unfolding llca_remove_RedisCommand_def Let_def lock_balanced_def quiet_calls_def
  by (auto split: if_splits simp: at_def host_simps split_beta)

lemma insert_calls:
  "llca_insert_RedisCommand api ctx argv argc st = Some (r, st') \<Longrightarrow> quiet_calls st st'"
  unfolding llca_insert_RedisCommand_def Let_def lock_balanced_def quiet_calls_def
  by (auto split: if_splits simp: at_def host_simps split_beta)

text \<open>Every event is its command followed by one reply.\<close>

definition llca_command :: "'w redis_api \<Rightarrow> llca_class \<Rightarrow> addr \<Rightarrow> string list \<Rightarrow> int \<Rightarrow>
    ('w, 'm) llca_state_scheme \<Rightarrow> (string \<times> ('w, 'm) llca_state_scheme) option" where
  "llca_command api c = (case c of
      Llca_Insert_Event \<Rightarrow> llca_insert_RedisCommand api
    | Llca_Contains_Event \<Rightarrow> llca_contains_RedisCommand api
    | Llca_Remove_Event \<Rightarrow> llca_remove_RedisCommand api)"

lemma llca_execute_command:
  "llca_execute api c e st = do {
     (result, st) \<leftarrow> llca_command api c (ev_ctx e) (ev_argv e) (ev_argc e) st;
     Some (snd (RedisModule_ReplyWithString api (ev_ctx e) result st))
   }"
  by (simp add: llca_execute_def llca_command_def llca_insert_event_execute_def
      llca_contains_event_execute_def llca_remove_event_execute_def split: llca_class.split)

lemma command_calls:
  "llca_command api c ctx argv argc st = Some (r, st') \<Longrightarrow> quiet_calls st st'"
  using insert_calls contains_calls remove_calls
  by (auto simp: llca_command_def split: llca_class.splits)

lemma lock_run_quiet:
  "lock_run h tr = Some h' \<Longrightarrow> \<not> lock_call c \<Longrightarrow> lock_run h (tr @ [c]) = Some h'"
  by (cases c) (simp_all add: lock_run_append)

lemma guarded_quiet:
  "guarded P h tr \<Longrightarrow> \<not> P c \<Longrightarrow> guarded P h (tr @ [c])"
  by (induction P h tr rule: guarded.induct) (cases c; simp)+

lemma execute_after_command:
  assumes "llca_command api c (ev_ctx e) (ev_argv e) (ev_argc e) st = Some (r, st1)"
  obtains st' tr where "llca_execute api c e st = Some st'" "st_trace st' = st_trace st @ tr"
    "lock_balanced tr" "guarded open_call False tr" "replies tr = [(ev_ctx e, r)]"
    "st' = st1\<lparr>st_srv := snd (r_ReplyWithString api (ev_ctx e) r (st_srv st1)), st_trace := st_trace st @ tr\<rparr>"
proof -
  obtain tr where tr: "st_trace st1 = st_trace st @ tr" "lock_balanced tr" "guarded open_call False tr"
    "replies tr = []"
    using command_calls [OF assms] by (auto simp: quiet_calls_def)
  let ?c = "C_ReplyWithString (ev_ctx e) r (fst (r_ReplyWithString api (ev_ctx e) r (st_srv st1)))"
  show ?thesis
  proof (rule that [of _ "tr @ [?c]"])
    show "llca_execute api c e st = Some (st1\<lparr>st_srv := snd (r_ReplyWithString api (ev_ctx e) r (st_srv st1)),
        st_trace := st_trace st @ tr @ [?c]\<rparr>)"
      using assms tr(1) by (simp add: llca_execute_command host_simps)
  qed (use tr in \<open>simp_all add: lock_balanced_def lock_run_quiet guarded_quiet\<close>)
qed

subsection \<open>Events on a lawful server\<close>

lemma command_refines:
  assumes "redis_laws api V" and "llca_rel V st db" and "argc = int (length argv)"
    and "v_room V (st_srv st) (llca_live (st_ll st)) (m + 2)"
  shows "\<exists>st'. llca_command api c ctx argv argc st
      = Some (fst (spec_execute (v_parse V) c argv db), st') \<and>
    llca_rel V st' (snd (spec_execute (v_parse V) c argv db)) \<and>
    v_room V (st_srv st') (llca_live (st_ll st')) m"
  using insert_refines [OF assms] contains_refines [OF assms] remove_refines [OF assms]
  by (simp add: llca_command_def spec_execute_def split: llca_class.split)

lemma execute_refines:
  assumes laws: "redis_laws api V" and rel: "llca_rel V st db" and argc: "ev_argc e = int (length (ev_argv e))"
    and room: "v_room V (st_srv st) (llca_live (st_ll st)) (m + 2)"
  shows "\<exists>st' tr. llca_execute api c e st = Some st' \<and> st_trace st' = st_trace st @ tr \<and>
    llca_rel V st' (snd (spec_execute (v_parse V) c (ev_argv e) db)) \<and>
    replies tr = [(ev_ctx e, fst (spec_execute (v_parse V) c (ev_argv e) db))] \<and>
    v_room V (st_srv st') (llca_live (st_ll st')) m"
proof -
  from command_refines [OF laws rel argc room] obtain st1 where
    1: "llca_command api c (ev_ctx e) (ev_argv e) (ev_argc e) st
      = Some (fst (spec_execute (v_parse V) c (ev_argv e) db), st1)"
    and 2: "llca_rel V st1 (snd (spec_execute (v_parse V) c (ev_argv e) db))"
    and 3: "v_room V (st_srv st1) (llca_live (st_ll st1)) m"
    by blast
  from execute_after_command [OF 1] obtain st' tr where "llca_execute api c e st = Some st'"
    "st_trace st' = st_trace st @ tr" and r: "replies tr = [(ev_ctx e, fst (spec_execute (v_parse V) c (ev_argv e) db))]"
    and st': "st' = st1\<lparr>st_srv := snd (r_ReplyWithString api (ev_ctx e)
        (fst (spec_execute (v_parse V) c (ev_argv e) db)) (st_srv st1)), st_trace := st_trace st @ tr\<rparr>"
    by blast
  moreover have "llca_rel V st' (snd (spec_execute (v_parse V) c (ev_argv e) db))"
    using 2 unfolding st' by (simp add: llca_rel_calls server_neutral [OF laws])
  moreover have "v_room V (st_srv st') (llca_live (st_ll st')) m"
    using 3 unfolding st' by (simp add: server_neutral [OF laws])
  ultimately show ?thesis by blast
qed

text \<open>Events one after the other: one step answers with the replies it sent.\<close>

definition llca_step :: "'w redis_api \<Rightarrow> llca_class \<times> event \<Rightarrow> ('w, 'm) llca_state_scheme \<Rightarrow>
    ((addr \<times> string) list \<times> ('w, 'm) llca_state_scheme) option" where
  "llca_step api = (\<lambda>(c, e) st. do {
     st' \<leftarrow> llca_execute api c e st;
     Some (replies (calls_between st st'), st')
   })"

definition spec_step :: "(string \<rightharpoonup> int64) \<Rightarrow> llca_class \<times> event \<Rightarrow> db \<Rightarrow> (addr \<times> string) list \<times> db" where
  "spec_step parse = (\<lambda>(c, e) db.
     ([(ev_ctx e, fst (spec_execute parse c (ev_argv e) db))], snd (spec_execute parse c (ev_argv e) db)))"

text \<open>The server hands a command its arguments with their number.\<close>

definition event_argc_ok :: "event \<Rightarrow> bool" where
  "event_argc_ok e \<longleftrightarrow> ev_argc e = int (length (ev_argv e))"

text \<open>Related states with room for \<open>n\<close> more events; an insert allocates at most twice.\<close>

definition llca_refined :: "'w redis_api \<Rightarrow> 'w redis_view \<Rightarrow> nat \<Rightarrow> ('w, 'm) llca_state_scheme \<Rightarrow> db \<Rightarrow> bool" where
  "llca_refined api V n st db \<longleftrightarrow> redis_laws api V \<and> llca_rel V st db \<and>
     v_room V (st_srv st) (llca_live (st_ll st)) (2 * n)"

interpretation llca_events: step_refinement "llca_refined api V" "llca_step api" "spec_step (v_parse V)"
  "\<lambda>(c, e). event_argc_ok e" for api :: "'w redis_api" and V
proof
  fix ce :: "llca_class \<times> event" and n and st :: "('w, 'm) llca_state_scheme" and db
  assume ok: "case ce of (c, e) \<Rightarrow> event_argc_ok e" and rel: "llca_refined api V (Suc n) st db"
  obtain c e where ce: "ce = (c, e)" by (cases ce)
  from rel have "redis_laws api V" "llca_rel V st db"
    "v_room V (st_srv st) (llca_live (st_ll st)) (2 * n + 2)"
    by (simp_all add: llca_refined_def)
  from execute_refines [OF this(1,2) _ this(3), of e c] ok ce obtain st' tr
    where "llca_execute api c e st = Some st'" "st_trace st' = st_trace st @ tr"
      "llca_rel V st' (snd (spec_execute (v_parse V) c (ev_argv e) db))"
      "replies tr = [(ev_ctx e, fst (spec_execute (v_parse V) c (ev_argv e) db))]"
      "v_room V (st_srv st') (llca_live (st_ll st')) (2 * n)"
    by (auto simp: event_argc_ok_def)
  then show "\<exists>st'. llca_step api ce st = Some (fst (spec_step (v_parse V) ce db), st') \<and>
      llca_refined api V n st' (snd (spec_step (v_parse V) ce db))"
    using \<open>redis_laws api V\<close>
    by (simp add: ce llca_step_def spec_step_def llca_refined_def calls_between_eq)
qed

subsection \<open>Order of the lists\<close>

definition db_ascending :: "db \<Rightarrow> bool" where
  "db_ascending db \<longleftrightarrow> (\<forall>name vs. db name = Some (DB_List vs) \<longrightarrow> ascending vs)"

lemma ascending_remove1: "ascending vs \<Longrightarrow> ascending (remove1 v vs)"
  by (simp add: sorted_map_remove1)

lemma db_ascending_execute:
  assumes "db_ascending db"
  shows "db_ascending (snd (spec_execute parse c argv db))"
  using assms ascending_ins_before ascending_remove1
  by (auto simp: db_ascending_def spec_execute_def spec_insert_def spec_contains_def spec_remove_def
      split: llca_class.split option.split db_entry.split)

lemma db_ascending_step: "db_ascending db \<Longrightarrow> db_ascending (snd (spec_step parse ce db))"
  by (cases ce) (simp add: spec_step_def db_ascending_execute)

subsection \<open>Properties\<close>

text \<open>A state of the module on the concrete server: the key \<^verbatim>\<open>k\<close> holds the list of \<open>demo_heap\<close>.\<close>

definition demo_world :: sim_world where
  "demo_world = \<lparr>sw_keys = [''k'' \<mapsto> K_Module 77 256, ''s'' \<mapsto> K_Other 1], sw_handles = Map.empty,
     sw_handle = 1, sw_brk = 4096, sw_rdb = (\<lambda>_. [])\<rparr>"

definition demo_state :: "sim_world llca_state" where
  "demo_state = \<lparr>st_srv = demo_world, st_trace = [], st_ll = demo_heap, st_llca = 77\<rparr>"

definition demo_db :: db where
  "demo_db = [''k'' \<mapsto> DB_List [5, 9], ''s'' \<mapsto> DB_Foreign]"

definition demo_event :: "string list \<Rightarrow> event" where
  "demo_event argv = \<lparr>ev_ctx = 7, ev_argv = argv, ev_argc = int (length argv), ev_client = 8,
     ev_thread_safe = False\<rparr>"

lemma demo_rel: "llca_rel sim_view demo_state demo_db"
proof -
  have keys: "v_keys sim_view (st_srv demo_state) = [''k'' \<mapsto> K_Module 77 256, ''s'' \<mapsto> K_Other 1]"
    by (auto simp: sim_view_def sim_keys_def demo_state_def demo_world_def sim_norm_def redis_constants)
  have "llca_inv sim_view demo_state [256 \<mapsto> ([5, 9], 2)]"
    unfolding llca_inv_def keys using demo_abs
    by (auto simp: demo_state_def split: if_splits)
  moreover have "llca_db sim_view demo_state [256 \<mapsto> ([5, 9], 2)] = demo_db"
    unfolding llca_db_def keys demo_db_def by (auto simp: demo_state_def)
  ultimately show ?thesis unfolding llca_rel_def by blast
qed

lemma demo_room: "v_room sim_view (st_srv demo_state) (llca_live (st_ll demo_state)) 8"
  by (rule sim_room) (auto simp: llca_live_def demo_state_def demo_world_def demo_heap_def split: if_splits)

text \<open>C28: Whatever the server answers, executing an insert, contains or remove event of the sequential
  list that returns has sent exactly one reply, to the event's own context, has taken and released the module
  lock in turn, and has opened its key with the lock held.\<close>

theorem llca_event_calls:
  assumes "llca_execute api c e st = Some st'"
  shows "\<exists>tr r. st_trace st' = st_trace st @ tr \<and> replies tr = [(ev_ctx e, r)] \<and>
    lock_balanced tr \<and> guarded open_call False tr"
proof -
  from assms obtain r st1 where "llca_command api c (ev_ctx e) (ev_argv e) (ev_argc e) st = Some (r, st1)"
    by (auto simp: llca_execute_command)
  from execute_after_command [OF this] assms show ?thesis by (metis option.inject)
qed

theorem llca_event_calls_witness:
  "\<exists>st'. llca_execute sim_api Llca_Insert_Event (demo_event [''i'', ''k'', ''7'']) demo_state = Some st' \<and>
    (\<exists>tr r. st_trace st' = st_trace demo_state @ tr \<and>
      replies tr = [(ev_ctx (demo_event [''i'', ''k'', ''7'']), r)] \<and>
      lock_balanced tr \<and> guarded open_call False tr)"
  using execute_refines [OF sim_laws demo_rel, of "demo_event [''i'', ''k'', ''7'']" 6 Llca_Insert_Event]
    demo_room llca_event_calls [of sim_api Llca_Insert_Event "demo_event [''i'', ''k'', ''7'']" demo_state]
  by (auto simp: demo_event_def)

text \<open>C2: On a server that obeys \<open>redis_laws\<close> and has memory for two allocations per event, a sequence of
  events on the sequential lists returns, sends for each event the one reply of the specification, in
  order, and changes the database of lists as the specification does: an arity, type or integer
  error changes nothing, an insert creates the list if the key is absent, a remove takes out the
  first occurrence. If all lists were ascending at the start they are at the end.\<close>

theorem llca_events_refine:
  assumes "redis_laws api V" and "llca_rel V st db" and "db_ascending db"
    and "\<forall>(c, e) \<in> set es. event_argc_ok e"
    and "v_room V (st_srv st) (llca_live (st_ll st)) (2 * length es)"
  shows "\<exists>st'. exec_seq (llca_step api) es st = Some (fst (spec_seq (spec_step (v_parse V)) es db), st') \<and>
    llca_rel V st' (snd (spec_seq (spec_step (v_parse V)) es db)) \<and>
    db_ascending (snd (spec_seq (spec_step (v_parse V)) es db))"
proof -
  have "llca_refined api V (0 + length es) st db"
    using assms by (simp add: llca_refined_def)
  from llca_events.run [OF assms(4) this] db_ascending_step show ?thesis
    using llca_events.run_invariant [of db_ascending, OF db_ascending_step assms(3)]
    by (auto simp: llca_refined_def)
qed

text \<open>Events on the demo state.\<close>

definition demo_events :: "(llca_class \<times> event) list" where
  "demo_events =
     [(Llca_Insert_Event, demo_event [''i'', ''k'', ''7'']),
      (Llca_Remove_Event, demo_event [''r'', ''k'', ''5'']),
      (Llca_Contains_Event, demo_event [''c'', ''s'', ''5'']),
      (Llca_Insert_Event, demo_event [''i'', ''n'', ''-3''])]"

theorem llca_events_refine_witness:
  "\<exists>st'. exec_seq (llca_step sim_api) demo_events demo_state
      = Some ([[(7, ''success'')], [(7, ''success'')], [(7, ''wrong type'')], [(7, ''success'')]], st') \<and>
    llca_rel sim_view st' (demo_db(''k'' \<mapsto> DB_List [7, 9], ''n'' \<mapsto> DB_List [- 3]))"
proof -
  have "db_ascending demo_db"
    by (auto simp: db_ascending_def demo_db_def split: if_splits)
  moreover have "\<forall>(c, e) \<in> set demo_events. event_argc_ok e"
    by (simp add: demo_events_def demo_event_def event_argc_ok_def)
  moreover have "v_room sim_view (st_srv demo_state) (llca_live (st_ll demo_state)) (2 * length demo_events)"
    using demo_room by (simp add: demo_events_def)
  moreover have "spec_seq (spec_step (v_parse sim_view)) demo_events demo_db
      = ([[(7, ''success'')], [(7, ''success'')], [(7, ''wrong type'')], [(7, ''success'')]],
         demo_db(''k'' \<mapsto> DB_List [7, 9], ''n'' \<mapsto> DB_List [- 3]))"
    by (simp add: demo_events_def spec_step_def spec_execute_def spec_insert_def spec_remove_def
        spec_contains_def demo_event_def demo_db_def sim_view_def sim_parse_def sim_digit_def ins_before_def
        word_sless_alt fun_upd_twist)
  ultimately show ?thesis
    using llca_events_refine [OF sim_laws demo_rel, of demo_events] by auto
qed

end
