(* ===== verification/Cds_Base.thy ===== *)
theory Cds_Base
  imports Prelude
begin

text \<open>
  Small pieces of libcds (\<^verbatim>\<open>src/deps/cds\<close>) that the skip list of \<^verbatim>\<open>src/src/skip_list.cpp\<close> is built from:
  marked pointers (\<^verbatim>\<open>cds/details/marked_ptr.h\<close>), the comparator made from \<open>std::less\<close>
  (\<^verbatim>\<open>cds/opt/compare.h\<close>), the number of the most and least significant bit
  (\<^verbatim>\<open>cds/details/bitop_generic.h\<close>; the assembler versions of \<^verbatim>\<open>cds/compiler/gcc\<close> compute the same
  function) and the random level generators (\<^verbatim>\<open>cds/intrusive/details/skip_list_base.h\<close>).
\<close>

subsection \<open>Marked pointers\<close>

text \<open>A \<open>marked_ptr<T, 1>\<close> is the word \<open>m_ptr\<close>: the address, with the mark in its lowest bit.\<close>

type_synonym marked_ptr = "64 word"

definition bitmask :: "64 word" where "bitmask = 1"
definition pointer_bitmask :: "64 word" where "pointer_bitmask = not bitmask"

definition mp_ptr :: "marked_ptr \<Rightarrow> addr" where "mp_ptr p = and p (not bitmask)"
definition mp_all :: "marked_ptr \<Rightarrow> addr" where "mp_all p = p"
definition mp_bits :: "marked_ptr \<Rightarrow> 64 word" where "mp_bits p = and p bitmask"
definition mp_or :: "marked_ptr \<Rightarrow> 64 word \<Rightarrow> marked_ptr" where "mp_or p n = or p n"
definition mp_and :: "marked_ptr \<Rightarrow> 64 word \<Rightarrow> marked_ptr" where "mp_and p n = and p (or pointer_bitmask n)"
definition mp_xor :: "marked_ptr \<Rightarrow> 64 word \<Rightarrow> marked_ptr" where "mp_xor p n = xor p n"
definition mp_invert :: "marked_ptr \<Rightarrow> marked_ptr" where "mp_invert p = mp_xor p bitmask"
definition mp_eq :: "marked_ptr \<Rightarrow> marked_ptr \<Rightarrow> bool" where "mp_eq p q \<longleftrightarrow> mp_all p = mp_all q"
definition mp_eq_ptr :: "marked_ptr \<Rightarrow> addr \<Rightarrow> bool" where "mp_eq_ptr p q \<longleftrightarrow> mp_ptr p = q"

text \<open>An address whose lowest bit is free for the mark.\<close>

definition aligned :: "addr \<Rightarrow> bool" where "aligned a \<longleftrightarrow> and a 1 = 0"

lemma aligned_0 [simp]: "aligned 0"
  by (simp add: aligned_def)

lemma mp_bits_bit: "mp_bits p = (if bit p 0 then 1 else 0)"
  by (simp add: mp_bits_def bitmask_def and_one_eq mod_2_eq_odd bit_0)

lemma mp_unmarked [simp]:
  assumes "aligned p"
  shows "mp_ptr p = p" "mp_bits p = 0"
proof -
  have nobit: "\<not> bit p 0"
  proof
    assume "bit p 0"
    then have "bit (and p 1) 0" by (simp add: bit_simps)
    with assms show False by (simp add: aligned_def)
  qed
  then show "mp_bits p = 0" by (simp add: mp_bits_bit)
  show "mp_ptr p = p"
    by (rule bit_word_eqI) (use nobit in \<open>auto simp: mp_ptr_def bitmask_def bit_simps intro: gr0I\<close>)
qed

lemma mp_marked [simp]:
  assumes "aligned p"
  shows "mp_ptr (mp_or p 1) = p" "mp_bits (mp_or p 1) = 1"
proof -
  show "mp_bits (mp_or p 1) = 1"
    by (simp add: mp_bits_bit mp_or_def bit_simps)
  have "mp_ptr (mp_or p 1) = mp_ptr p"
    by (rule bit_word_eqI) (auto simp: mp_ptr_def mp_or_def bitmask_def bit_simps)
  with mp_unmarked(1) [OF assms] show "mp_ptr (mp_or p 1) = p" by simp
qed

lemma mp_bits_ptr [simp]: "mp_bits (mp_ptr p) = 0" "aligned (mp_ptr p)" "mp_ptr (mp_ptr p) = mp_ptr p"
proof -
  show al: "aligned (mp_ptr p)"
    unfolding aligned_def by (rule bit_word_eqI) (auto simp: mp_ptr_def bitmask_def bit_simps)
  show "mp_bits (mp_ptr p) = 0" "mp_ptr (mp_ptr p) = mp_ptr p"
    by (rule mp_unmarked [OF al])+
qed

lemma mp_or_neq: "aligned p \<Longrightarrow> aligned q \<Longrightarrow> mp_or p 1 \<noteq> q"
  by (metis mp_marked(2) mp_unmarked(2) zero_neq_one)

subsection \<open>The comparator\<close>

definition make_comparator_from_less :: "('a \<Rightarrow> 'a \<Rightarrow> bool) \<Rightarrow> 'a \<Rightarrow> 'a \<Rightarrow> int" where
  "make_comparator_from_less f t q = (if f t q then - 1 else if f q t then 1 else 0)"

text \<open>The comparator of keys: \<open>std::less<int64_t>\<close>.\<close>

definition key_comparator :: "int64 \<Rightarrow> int64 \<Rightarrow> int" where
  "key_comparator = make_comparator_from_less (\<lambda>a b. a <s b)"

lemma key_comparator_sgn: "key_comparator a b = sgn (sint a - sint b)"
proof (cases "a = b")
  case False
  then have "sint a \<noteq> sint b" by (simp add: sint_eq_iff)
  then show ?thesis
    by (auto simp: key_comparator_def make_comparator_from_less_def sless_irrefl_iff sgn_if)
qed (simp add: key_comparator_def make_comparator_from_less_def)

lemma key_comparator_iff:
  "key_comparator a b < 0 \<longleftrightarrow> sint a < sint b" "key_comparator a b = 0 \<longleftrightarrow> a = b"
  "key_comparator a b \<noteq> 0 \<longleftrightarrow> a \<noteq> b"
  using sint_eq_iff [of a b] by (auto simp: key_comparator_sgn sgn_if split: if_splits)

subsection \<open>Significant bits\<close>

definition msb32 :: "32 word \<Rightarrow> int" where
  "msb32 x =
     (if x = 0 then 0
      else
        let r = 32;
            (x, r) = (if and x 0xffff0000 = 0 then (push_bit 16 x, r - 16) else (x, r));
            (x, r) = (if and x 0xff000000 = 0 then (push_bit 8 x, r - 8) else (x, r));
            (x, r) = (if and x 0xf0000000 = 0 then (push_bit 4 x, r - 4) else (x, r));
            (x, r) = (if and x 0xc0000000 = 0 then (push_bit 2 x, r - 2) else (x, r));
            r = (if and x 0x80000000 = 0 then r - 1 else r)
        in r)"

definition msb32nz :: "32 word \<Rightarrow> int" where
  "msb32nz x = msb32 x - 1"

text \<open>The least significant bit, numbered from 1.\<close>

definition lsb32 :: "32 word \<Rightarrow> int" where
  "lsb32 x =
     (if x = 0 then 0
      else
        let r = 1;
            (x, r) = (if and x 0xffff = 0 then (drop_bit 16 x, r + 16) else (x, r));
            (x, r) = (if and x 0xff = 0 then (drop_bit 8 x, r + 8) else (x, r));
            (x, r) = (if and x 0xf = 0 then (drop_bit 4 x, r + 4) else (x, r));
            (x, r) = (if and x 3 = 0 then (drop_bit 2 x, r + 2) else (x, r));
            r = (if and x 1 = 0 then r + 1 else r)
        in r)"

text \<open>One halving step of \<open>msb32\<close>: when the upper \<open>k\<close> bits are clear the value moves up by \<open>k\<close>.\<close>

lemma upper_clear:
  fixes x :: "32 word"
  assumes "m = not (mask (32 - k) :: 32 word)" and "k \<le> 32"
  shows "and x m = 0 \<longleftrightarrow> unat x < 2 ^ (32 - k)"
proof -
  have "and x m = 0 \<longleftrightarrow> take_bit (32 - k) x = x"
  proof
    assume z: "and x m = 0"
    have "bit x i \<Longrightarrow> i < 32 - k" for i
    proof (rule ccontr)
      assume "bit x i" "\<not> i < 32 - k"
      moreover from \<open>bit x i\<close> have "i < 32" using bit_imp_le_length by fastforce
      ultimately have "bit (and x m) i" by (simp add: assms(1) bit_simps)
      with z show False by simp
    qed
    then show "take_bit (32 - k) x = x"
      by (intro bit_word_eqI) (auto simp: bit_simps)
  next
    assume t: "take_bit (32 - k) x = x"
    show "and x m = 0"
    proof (rule bit_word_eqI)
      fix i
      have "bit x i \<Longrightarrow> i < 32 - k" using t by (metis bit_take_bit_iff)
      then show "bit (and x m) i = bit (0 :: 32 word) i" by (auto simp: assms(1) bit_simps)
    qed
  qed
  also have "\<dots> \<longleftrightarrow> unat x < 2 ^ (32 - k)"
    by (metis take_bit_nat_eq_self_iff unsigned_take_bit_eq word_unat_eq_iff)
  finally show ?thesis .
qed

lemma push_up:
  fixes x :: "32 word"
  assumes "unat x < 2 ^ (32 - k)" and "k \<le> 32"
  shows "unat (push_bit k x) = unat x * 2 ^ k"
proof -
  have "unat x * 2 ^ k < 2 ^ (32 - k) * 2 ^ k"
    using assms by simp
  also have "\<dots> = 2 ^ 32" using assms by (simp flip: power_add)
  finally show ?thesis
    by (subst unsigned_push_bit_eq) (simp add: push_bit_eq_mult take_bit_nat_eq_self)
qed

text \<open>The invariant of \<open>msb32\<close>: \<open>x\<close> is the argument moved up by \<open>32 - r\<close>, and its value is at least \<open>lo\<close>.\<close>

definition msb_inv :: "32 word \<Rightarrow> nat \<Rightarrow> 32 word \<times> int \<Rightarrow> bool" where
  "msb_inv x0 lo = (\<lambda>(x, r). \<exists>n. r = int n \<and> 0 < n \<and> n \<le> 32 \<and>
     unat x = unat x0 * 2 ^ (32 - n) \<and> 2 ^ lo \<le> unat x)"

lemma msb_step:
  fixes x :: "32 word"
  assumes inv: "msb_inv x0 (32 - 2 * k) (x, r)" and k: "0 < k" "2 * k \<le> 32" and m: "m = not (mask (32 - k))"
  shows "msb_inv x0 (32 - k) (if and x m = 0 then (push_bit k x, r - int k) else (x, r))"
proof (cases "and x m = 0")
  case True
  then have small: "unat x < 2 ^ (32 - k)" using upper_clear [OF m, of x] k by simp
  obtain n where n: "r = int n" "0 < n" "n \<le> 32" "unat x = unat x0 * 2 ^ (32 - n)" "2 ^ (32 - 2 * k) \<le> unat x"
    using inv by (auto simp: msb_inv_def)
  have "0 < unat x0" using n(4,5) by (cases "unat x0 = 0") auto
  then have "2 ^ (32 - n) \<le> unat x" using n(4) by simp
  with small have "(2 :: nat) ^ (32 - n) < 2 ^ (32 - k)" by linarith
  then have kn: "k < n" using n(3) k by simp
  have "unat (push_bit k x) = unat x0 * 2 ^ (32 - (n - k))"
  proof -
    have "32 - n + k = 32 - (n - k)" using kn n(3) by simp
    then show ?thesis
      using push_up [OF small] k n(4) by (simp flip: power_add)
  qed
  moreover have "2 ^ (32 - k) \<le> unat (push_bit k x)"
  proof -
    have "2 ^ (32 - 2 * k) * 2 ^ k \<le> unat x * 2 ^ k" using n(5) by simp
    moreover have "32 - 2 * k + k = 32 - k" using k by simp
    ultimately show ?thesis
      using push_up [OF small] k by (simp flip: power_add)
  qed
  ultimately show ?thesis
    using True kn n by (auto simp: msb_inv_def intro!: exI [of _ "n - k"])
next
  case False
  then have "2 ^ (32 - k) \<le> unat x" using upper_clear [OF m, of x] k by simp
  with False inv show ?thesis by (auto simp: msb_inv_def)
qed

lemma msb32_spec:
  assumes "x \<noteq> 0"
  shows "\<exists>n. msb32 x = int n \<and> 0 < n \<and> n \<le> 32 \<and> 2 ^ (n - 1) \<le> unat x \<and> unat x < 2 ^ n"
proof -
  define s1 where "s1 = (if and x 0xffff0000 = 0 then (push_bit 16 x, (32 :: int) - int 16) else (x, 32 :: int))"
  define s2 where "s2 = (if and (fst s1) 0xff000000 = 0 then (push_bit 8 (fst s1), snd s1 - int 8) else ((fst s1), snd s1))"
  define s3 where "s3 = (if and (fst s2) 0xf0000000 = 0 then (push_bit 4 (fst s2), snd s2 - int 4) else ((fst s2), snd s2))"
  define s4 where "s4 = (if and (fst s3) 0xc0000000 = 0 then (push_bit 2 (fst s3), snd s3 - int 2) else ((fst s3), snd s3))"
  define s5 where "s5 = (if and (fst s4) 0x80000000 = 0 then (push_bit 1 (fst s4), snd s4 - int 1) else ((fst s4), snd s4))"
  have "msb_inv x (32 - 2 * 16) (x, 32)"
    using assms by (auto simp: msb_inv_def unat_eq_0 intro!: exI [of _ 32]) (metis One_nat_def Suc_leI gr0I unat_eq_0)
  then have "msb_inv x (32 - 16) s1" unfolding s1_def by (rule msb_step) (simp_all add: mask_eq_exp_minus_1)
  then have "msb_inv x (32 - 2 * 8) (fst s1, snd s1)" by simp
  then have "msb_inv x (32 - 8) s2" unfolding s2_def by (rule msb_step) (simp_all add: mask_eq_exp_minus_1)
  then have "msb_inv x (32 - 2 * 4) (fst s2, snd s2)" by simp
  then have "msb_inv x (32 - 4) s3" unfolding s3_def by (rule msb_step) (simp_all add: mask_eq_exp_minus_1)
  then have "msb_inv x (32 - 2 * 2) (fst s3, snd s3)" by simp
  then have "msb_inv x (32 - 2) s4" unfolding s4_def by (rule msb_step) (simp_all add: mask_eq_exp_minus_1)
  then have "msb_inv x (32 - 2 * 1) (fst s4, snd s4)" by simp
  then have "msb_inv x (32 - 1) s5" unfolding s5_def by (rule msb_step) (simp_all add: mask_eq_exp_minus_1)
  then obtain n where n: "snd s5 = int n" "0 < n" "n \<le> 32" "unat (fst s5) = unat x * 2 ^ (32 - n)"
    "2 ^ 31 \<le> unat (fst s5)"
    by (cases s5) (auto simp: msb_inv_def)
  have "msb32 x = snd s5"
    using assms by (simp add: msb32_def s1_def s2_def s3_def s4_def s5_def Let_def split_beta)
  moreover have "2 ^ (n - 1) \<le> unat x"
  proof -
    have "(2 :: nat) ^ (n - 1) * 2 ^ (32 - n) = 2 ^ 31" using n(2,3) by (simp flip: power_add)
    with n(4,5) have "2 ^ (n - 1) * 2 ^ (32 - n) \<le> unat x * 2 ^ (32 - n)" by (simp only:)
    then show ?thesis by (rule mult_right_le_imp_le) simp
  qed
  moreover have "unat x < 2 ^ n"
  proof -
    have "unat (fst s5) < 2 ^ 32" using unsigned_less [of "fst s5"] by simp
    moreover have "(2 :: nat) ^ 32 = 2 ^ n * 2 ^ (32 - n)" using n(3) by (simp flip: power_add)
    ultimately have "unat x * 2 ^ (32 - n) < 2 ^ n * 2 ^ (32 - n)" using n(4) by (simp only:)
    then show ?thesis by (rule mult_right_less_imp_less) simp
  qed
  ultimately show ?thesis using n by auto
qed

subsection \<open>The random level generator\<close>

definition c_nHeightLimit :: nat where "c_nHeightLimit = 32"
definition c_nUpperBound :: int where "c_nUpperBound = int c_nHeightLimit"
definition c_nBitMask :: "32 word" where "c_nBitMask = push_bit (c_nHeightLimit - 1) 1 - 1"

text \<open>\<open>turbo32::operator()\<close>: the level and the new seed.\<close>

definition turbo :: "32 word \<Rightarrow> int \<times> 32 word" where
  "turbo nSeed =
     (let x = nSeed * 134775813 + 1;
          nLevel = (if and x 0x80000000 \<noteq> 0
                    then c_nUpperBound - 1 - msb32nz (or (and x c_nBitMask) 1) else 0)
      in (nLevel, x))"

text \<open>\<open>xorshift32::operator()\<close>.\<close>

definition xor_shift :: "32 word \<Rightarrow> int \<times> 32 word" where
  "xor_shift nSeed =
     (let x = nSeed;
          x = xor x (push_bit 13 x);
          x = xor x (drop_bit 17 x);
          x = xor x (push_bit 5 x);
          nLevel = (if and x 1 \<noteq> 0 then 0 else lsb32 (and (not (drop_bit 1 x)) c_nBitMask))
      in (nLevel, x))"

text \<open>\<open>SkipListSet::random_level\<close>.\<close>

definition random_level :: "32 word \<Rightarrow> nat \<times> 32 word" where
  "random_level nSeed = (let (l, s) = turbo nSeed in (nat (l + 1), s))"

lemma turbo_range: "0 \<le> fst (turbo seed) \<and> fst (turbo seed) < c_nUpperBound"
proof -
  let ?x = "seed * 134775813 + 1 :: 32 word"
  have "or (and ?x c_nBitMask) 1 \<noteq> 0"
  proof
    assume "or (and ?x c_nBitMask) 1 = 0"
    then have "\<not> bit (or (and ?x c_nBitMask) 1) 0" by simp
    then show False by (simp add: bit_or_iff)
  qed
  then obtain n where "msb32 (or (and ?x c_nBitMask) 1) = int n" "0 < n" "n \<le> 32"
    using msb32_spec by blast
  then show ?thesis
    by (auto simp: turbo_def Let_def msb32nz_def c_nUpperBound_def c_nHeightLimit_def)
qed

lemma random_level_range: "1 \<le> fst (random_level seed)" "fst (random_level seed) \<le> c_nHeightLimit"
  using turbo_range [of seed] by (auto simp: random_level_def c_nUpperBound_def split: prod.splits)

subsection \<open>Properties\<close>

text \<open>The generic \<open>msb32\<close> of libcds returns, for every non-zero argument, the number (from 1) of its
  highest set bit: \<open>2 ^ (n - 1) \<le> x < 2 ^ n\<close>.\<close>

theorem msb32_correct:
  assumes "x \<noteq> 0"
  shows "\<exists>n. msb32 x = int n \<and> 0 < n \<and> n \<le> 32 \<and> 2 ^ (n - 1) \<le> unat x \<and> unat x < 2 ^ n"
  using assms by (rule msb32_spec)

theorem msb32_correct_witness:
  "\<exists>n. msb32 5000 = int n \<and> 0 < n \<and> n \<le> 32 \<and> 2 ^ (n - 1) \<le> unat (5000 :: 32 word) \<and>
    unat (5000 :: 32 word) < 2 ^ n"
  by (rule msb32_correct) simp

text \<open>For every seed the random level of a new skip-list node is between 1 and the height limit 32, so
  a node never has more levels than the head.\<close>

theorem random_level_bounds: "fst (random_level seed) \<in> {1..32}"
  using random_level_range [of seed] by (simp add: c_nHeightLimit_def)

end
