(* ===== verification/Hazard.thy ===== *)
theory Hazard
  imports Cds_Base "HOL-Library.Multiset"
begin

text \<open>
  The hazard-pointer garbage collector of libcds as the skip list uses it: \<^verbatim>\<open>cds/gc/hp.h\<close>,
  \<^verbatim>\<open>cds/gc/details/hp_common.h\<close> and \<^verbatim>\<open>src/hp.cpp\<close> under \<^verbatim>\<open>src/deps/cds\<close>.

  A thread record holds the thread's guards (the values of \<open>hp_\<close> by index, and the free list as the
  indices reached from \<open>free_head_\<close>), its array of retired pointers and the capacity of that array.
  The disposer stored with a retired pointer is always that of the skip list, so only the pointer is
  kept, and a scan returns the pointers whose disposer it calls. The records are in the order in which
  they were created, the reverse of \<open>thread_list_\<close>, to whose head a new record is pushed; a thread is
  named by the position of its record, which stands for its \<open>tls_\<close> pointer.

  An exception (no free guard) and a write past the end of the retired array are \<open>None\<close>.
\<close>

subsection \<open>State\<close>

datatype scan_type = classic | inplace

record thread_record =
  tr_hazards :: "addr list"
  tr_free :: "nat list"
  tr_retired :: "addr list"
  tr_capacity :: nat
  tr_owner :: nat
  tr_bFree :: bool

record smr =
  smr_threads :: "thread_record list"
  hazard_ptr_count :: nat
  max_thread_count :: nat
  max_retired_ptr_count :: nat
  smr_scan_type :: scan_type

subsection \<open>Construction\<close>

definition c_nHazardPointerPerThread :: nat where "c_nHazardPointerPerThread = 8"
definition c_nMaxThreadCount :: nat where "c_nMaxThreadCount = 100"

definition calc_retired_size :: "nat \<Rightarrow> nat \<Rightarrow> nat \<Rightarrow> nat" where
  "calc_retired_size nSize nHPCount nThreadCount =
     (let min_size = nHPCount * nThreadCount in if nSize < min_size then min_size * 2 else nSize)"

definition smr_ctor :: "nat \<Rightarrow> nat \<Rightarrow> nat \<Rightarrow> scan_type \<Rightarrow> smr" where
  "smr_ctor nHazardPtrCount nMaxThreadCount nMaxRetiredPtrCount nScanType =
     (let h = (if nHazardPtrCount = 0 then c_nHazardPointerPerThread else nHazardPtrCount);
          t = (if nMaxThreadCount = 0 then c_nMaxThreadCount else nMaxThreadCount)
      in \<lparr>smr_threads = [], hazard_ptr_count = h, max_thread_count = t,
          max_retired_ptr_count = calc_retired_size nMaxRetiredPtrCount h t, smr_scan_type = nScanType\<rparr>)"

text \<open>The constructor \<open>HP(67)\<close> of \<^verbatim>\<open>redpar.cpp\<close>, with the defaults of the other parameters.\<close>

definition HP :: "nat \<Rightarrow> smr" where
  "HP nHazardPtrCount = smr_ctor nHazardPtrCount 0 0 inplace"

definition check_hazard_ptr_count :: "nat \<Rightarrow> smr \<Rightarrow> bool" where
  "check_hazard_ptr_count nRequiredCount s \<longleftrightarrow> \<not> hazard_ptr_count s < nRequiredCount"

text \<open>\<open>create_thread_data\<close> with the constructors of \<open>thread_hp_storage\<close> and \<open>retired_array\<close>.\<close>

definition create_thread_data :: "smr \<Rightarrow> thread_record" where
  "create_thread_data s =
     \<lparr>tr_hazards = replicate (hazard_ptr_count s) 0, tr_free = [0..<hazard_ptr_count s],
      tr_retired = [], tr_capacity = max_retired_ptr_count s, tr_owner = 0,
      tr_bFree = False\<rparr>"

text \<open>\<open>alloc_thread_data\<close>: the first record of \<open>thread_list_\<close> without an owner, or a new record. The result
  is the position of the thread's record.\<close>

fun find_free_record :: "thread_record list \<Rightarrow> nat \<Rightarrow> nat option" where
  "find_free_record rs 0 = None"
| "find_free_record rs (Suc n) = (if tr_owner (rs ! n) = 0 then Some n else find_free_record rs n)"

definition alloc_thread_data :: "nat \<Rightarrow> smr \<Rightarrow> nat \<times> smr" where
  "alloc_thread_data curThreadId s =
     (case find_free_record (smr_threads s) (length (smr_threads s)) of
        Some i \<Rightarrow> (i, s\<lparr>smr_threads := (smr_threads s)
                      [i := (smr_threads s ! i)\<lparr>tr_owner := curThreadId, tr_bFree := False\<rparr>]\<rparr>)
      | None \<Rightarrow> (length (smr_threads s),
                 s\<lparr>smr_threads := smr_threads s @ [(create_thread_data s)\<lparr>tr_owner := curThreadId\<rparr>]\<rparr>))"

subsection \<open>Guards\<close>

text \<open>\<open>thread_hp_storage::alloc\<close> and \<open>free\<close>, for one guard and for an array.\<close>

definition guard_alloc :: "thread_record \<Rightarrow> (nat \<times> thread_record) option" where
  "guard_alloc r = (case tr_free r of [] \<Rightarrow> None | g # gs \<Rightarrow> Some (g, r\<lparr>tr_free := gs\<rparr>))"

definition guard_free :: "nat \<Rightarrow> thread_record \<Rightarrow> thread_record" where
  "guard_free g r = r\<lparr>tr_hazards := (tr_hazards r)[g := 0], tr_free := g # tr_free r\<rparr>"

definition guard_array_alloc :: "nat \<Rightarrow> thread_record \<Rightarrow> (nat list \<times> thread_record) option" where
  "guard_array_alloc n r =
     (if n \<le> length (tr_free r)
      then Some (take n (tr_free r), r\<lparr>tr_free := drop n (tr_free r)\<rparr>) else None)"

definition guard_array_free :: "nat list \<Rightarrow> thread_record \<Rightarrow> thread_record" where
  "guard_array_free gs r = fold guard_free gs r"

definition guard_set :: "nat \<Rightarrow> addr \<Rightarrow> thread_record \<Rightarrow> thread_record" where
  "guard_set g p r = r\<lparr>tr_hazards := (tr_hazards r)[g := p]\<rparr>"

definition guard_get :: "nat \<Rightarrow> thread_record \<Rightarrow> addr" where
  "guard_get g r = tr_hazards r ! g"

subsection \<open>Scanning\<close>

text \<open>The non-null hazard pointers of the records that have an owner, in the order they are read.\<close>

definition hazard_ptrs :: "smr \<Rightarrow> addr list" where
  "hazard_ptrs s =
     filter (\<lambda>h. h \<noteq> 0) (concat (map tr_hazards (filter (\<lambda>r. tr_owner r \<noteq> 0) (rev (smr_threads s)))))"

definition lower_bound :: "addr list \<Rightarrow> addr \<Rightarrow> nat" where
  "lower_bound arr h = length (takeWhile (\<lambda>p. p < h) arr)"

text \<open>Stage 2 of \<open>inplace_scan\<close>: mark the retired pointer that the hazard pointer \<open>h\<close> guards.\<close>

definition mark_guarded :: "addr \<Rightarrow> addr list \<Rightarrow> addr list" where
  "mark_guarded h arr =
     (let i = lower_bound arr h in
      if i \<noteq> length arr \<and> arr ! i = h then arr[i := or (arr ! i) 1] else arr)"

text \<open>Stage 3: keep the marked pointers, without their mark, and free the others.\<close>

fun sweep :: "addr list \<Rightarrow> addr list \<times> addr list" where
  "sweep [] = ([], [])"
| "sweep (p # ps) =
     (let (kept, freed) = sweep ps in
      if and p 1 \<noteq> 0 then (and p (not 1) # kept, freed) else (kept, p # freed))"

text \<open>Stage 2 of \<open>classic_scan\<close>, as the code has it: the pointer searched is that of \<open>first_retired\<close>,
  the first element of the array, in every iteration.\<close>

function classic_loop :: "addr list \<Rightarrow> addr list \<Rightarrow> nat \<Rightarrow> nat \<Rightarrow> addr list \<Rightarrow> addr list \<times> addr list" where
  "classic_loop plist arr it insert_pos freed =
     (if it < length arr then
        (if arr ! 0 \<in> set plist
         then classic_loop plist (if insert_pos \<noteq> it then arr[insert_pos := arr ! it] else arr)
                (Suc it) (Suc insert_pos) freed
         else classic_loop plist arr (Suc it) insert_pos (freed @ [arr ! it]))
      else (take insert_pos arr, freed))"
  by pat_completeness auto
termination
  by (relation "measure (\<lambda>(plist, arr, it, insert_pos, freed). length arr - it)") auto

text \<open>A scan of the record at \<open>tid\<close>: the pointers freed and the state after it.\<close>

definition set_retired :: "nat \<Rightarrow> addr list \<Rightarrow> smr \<Rightarrow> smr" where
  "set_retired tid ps s =
     s\<lparr>smr_threads := (smr_threads s)[tid := (smr_threads s ! tid)\<lparr>tr_retired := ps\<rparr>]\<rparr>"

definition classic_scan :: "nat \<Rightarrow> smr \<Rightarrow> addr list \<times> smr" where
  "classic_scan tid s =
     (let (kept, freed) = classic_loop (sort (hazard_ptrs s)) (tr_retired (smr_threads s ! tid)) 0 0 []
      in (freed, set_retired tid kept s))"

definition inplace_scan :: "nat \<Rightarrow> smr \<Rightarrow> addr list \<times> smr" where
  "inplace_scan tid s =
     (let retired = tr_retired (smr_threads s ! tid) in
      if retired = [] then ([], s)
      else if \<exists>p \<in> set retired. and p 1 \<noteq> 0 then classic_scan tid s
      else
        let (kept, freed) = sweep (fold mark_guarded (hazard_ptrs s) (sort retired))
        in (freed, set_retired tid kept s))"

definition scan :: "nat \<Rightarrow> smr \<Rightarrow> addr list \<times> smr" where
  "scan tid s = (case smr_scan_type s of
      classic \<Rightarrow> classic_scan tid s
    | inplace \<Rightarrow> inplace_scan tid s)"

subsection \<open>Retiring\<close>

text \<open>\<open>retired_array::push\<close>: whether there is room for more.\<close>

definition retired_push :: "addr \<Rightarrow> thread_record \<Rightarrow> (bool \<times> thread_record) option" where
  "retired_push p r =
     (if length (tr_retired r) < tr_capacity r
      then Some (Suc (length (tr_retired r)) < tr_capacity r, r\<lparr>tr_retired := tr_retired r @ [p]\<rparr>)
      else None)"

text \<open>\<open>HP::retire\<close>.\<close>

definition retire :: "nat \<Rightarrow> addr \<Rightarrow> smr \<Rightarrow> (addr list \<times> smr) option" where
  "retire tid p s =
     (if tid < length (smr_threads s) then
        (case retired_push p (smr_threads s ! tid) of
           None \<Rightarrow> None
         | Some (room, r) \<Rightarrow>
             let s = s\<lparr>smr_threads := (smr_threads s)[tid := r]\<rparr>
             in Some (if \<not> room then scan tid s else ([], s)))
      else None)"

subsection \<open>Detaching a thread\<close>

text \<open>\<open>help_scan\<close>: the retired pointers of every record without an owner move to the record of the
  thread, as if the thread had retired them. The compare-and-swap that takes the record succeeds.\<close>

fun help_move :: "nat \<Rightarrow> addr list \<Rightarrow> smr \<Rightarrow> (addr list \<times> smr) option" where
  "help_move tid [] s = Some ([], s)"
| "help_move tid (p # ps) s =
     (case retire tid p s of
        None \<Rightarrow> None
      | Some (freed, s) \<Rightarrow> map_option (\<lambda>(freed', s). (freed @ freed', s)) (help_move tid ps s))"

definition own_record :: "nat \<Rightarrow> nat \<Rightarrow> smr \<Rightarrow> smr" where
  "own_record curThreadId i s = s\<lparr>smr_threads := (smr_threads s)
     [i := (smr_threads s ! i)\<lparr>tr_owner := curThreadId\<rparr>]\<rparr>"

definition release_record :: "nat \<Rightarrow> smr \<Rightarrow> smr" where
  "release_record i s = s\<lparr>smr_threads := (smr_threads s)
     [i := (smr_threads s ! i)\<lparr>tr_retired := [], tr_bFree := True, tr_owner := 0\<rparr>]\<rparr>"

fun help_scan :: "nat \<Rightarrow> nat \<Rightarrow> smr \<Rightarrow> (addr list \<times> smr) option" where
  "help_scan tid 0 s = Some ([], s)"
| "help_scan tid (Suc i) s =
     (let hprec = smr_threads s ! i in
      if i = tid \<or> tr_bFree hprec \<or> tr_owner hprec \<noteq> 0 then help_scan tid i s
      else case help_move tid (tr_retired hprec) (own_record (tr_owner (smr_threads s ! tid)) i s) of
             None \<Rightarrow> None
           | Some (freed, s) \<Rightarrow>
               let (freed', s) = scan tid (release_record i s)
               in map_option (\<lambda>(freed'', s). (freed @ freed' @ freed'', s)) (help_scan tid i s))"

definition free_thread_data :: "nat \<Rightarrow> smr \<Rightarrow> (addr list \<times> smr) option" where
  "free_thread_data tid s =
     (let s = s\<lparr>smr_threads := (smr_threads s)
            [tid := (smr_threads s ! tid)\<lparr>tr_hazards := replicate (hazard_ptr_count s) 0\<rparr>]\<rparr>;
          (freed, s) = scan tid s
      in map_option (\<lambda>(freed', s). (freed @ freed',
             s\<lparr>smr_threads := (smr_threads s)[tid := (smr_threads s ! tid)\<lparr>tr_owner := 0\<rparr>]\<rparr>))
           (help_scan tid (length (smr_threads s)) s))"

text \<open>The destructor of \<open>smr\<close> disposes every retired pointer.\<close>

definition smr_dtor :: "smr \<Rightarrow> addr list" where
  "smr_dtor s = concat (map tr_retired (rev (smr_threads s)))"

subsection \<open>The in-place scan\<close>

lemma aligned_even: "aligned a \<longleftrightarrow> even a"
  by (simp add: aligned_def and_one_eq mod_2_eq_odd)

lemma and_1_aligned: "and p 1 \<noteq> 0 \<longleftrightarrow> \<not> aligned p"
  by (simp add: aligned_def)

lemma or_1_aligned: "\<not> aligned (or p 1)"
  by (simp add: aligned_even flip: bit_0) (simp add: bit_or_iff)

lemma clear_or_1: "aligned p \<Longrightarrow> and (or p 1) (not 1) = p"
  using mp_marked(1) [of p] by (simp add: mp_ptr_def mp_or_def bitmask_def)

lemma clear_or_1_num: "aligned p \<Longrightarrow> and (or p 1) (- 2) = p"
  using clear_or_1 [of p] by simp

lemma or_1_odd: "\<not> aligned p \<Longrightarrow> or p 1 = p"
  by (rule bit_word_eqI) (auto simp: aligned_even bit_or_iff bit_1_iff simp flip: bit_0)

lemma or_1_less:
  assumes "aligned q" and "aligned p" and "q < p"
  shows "or q 1 < p"
proof -
  have "or q 1 = q + 1"
    using assms(1) by (simp add: aligned_even even_or_iff or_one_eq)
  moreover have "q + 1 \<noteq> p"
    using assms(1,2) by (auto simp: aligned_even)
  ultimately show ?thesis
    using assms(3) by (metis inc_le order_le_neq_trans)
qed

text \<open>The array during the marking stage: the sorted pointers, those in \<open>G\<close> marked.\<close>

definition marked_in :: "addr set \<Rightarrow> addr list \<Rightarrow> addr list" where
  "marked_in G ps = map (\<lambda>p. if p \<in> G then or p 1 else p) ps"

lemma marked_in_update:
  "h \<notin> set as \<Longrightarrow> h \<notin> set bs \<Longrightarrow>
     marked_in (insert h G) (as @ h # bs) = marked_in G as @ or h 1 # marked_in G bs"
  by (auto simp: marked_in_def)

lemma marked_in_nth:
  "i < length ps \<Longrightarrow> marked_in G ps ! i = (if ps ! i \<in> G then or (ps ! i) 1 else ps ! i)"
  by (simp add: marked_in_def)

lemma mark_guarded_step:
  assumes al: "\<forall>p \<in> set ps. aligned p" and srt: "sorted_wrt (<) ps"
  shows "mark_guarded h (marked_in G ps) = marked_in (insert h G) ps"
proof (cases "h \<in> set ps \<and> h \<notin> G")
  case True
  then obtain as bs where ps: "ps = as @ h # bs" by (meson split_list)
  have notin: "h \<notin> set as" "h \<notin> set bs"
    using srt ps by (auto simp: sorted_wrt_append)
  have "\<forall>x \<in> set (marked_in G as). x < h"
    using al srt ps or_1_less by (auto simp: marked_in_def sorted_wrt_append)
  moreover have split: "marked_in G ps = marked_in G as @ h # marked_in G bs"
    using True ps by (simp add: marked_in_def)
  ultimately have "lower_bound (marked_in G ps) h = length (marked_in G as)"
    unfolding lower_bound_def split by (subst takeWhile_append2) simp_all
  with split show ?thesis
    using ps notin by (simp add: mark_guarded_def Let_def marked_in_update)
next
  case False
  have same: "marked_in (insert h G) ps = marked_in G ps"
    using False by (auto simp: marked_in_def)
  let ?arr = "marked_in G ps" and ?i = "lower_bound (marked_in G ps) h"
  have "?arr[?i := or (?arr ! ?i) 1] = ?arr" if i: "?i < length ?arr" and h: "?arr ! ?i = h"
  proof -
    have i': "?i < length ps" using i by (simp add: marked_in_def)
    have eq: "(if ps ! ?i \<in> G then or (ps ! ?i) 1 else ps ! ?i) = h"
      using h unfolding marked_in_nth [OF i'] .
    have mem: "ps ! ?i \<in> set ps" using i' by simp
    have "ps ! ?i \<in> G"
      using eq mem False by metis
    with eq have "or (ps ! ?i) 1 = h" by simp
    then have "or h 1 = h" using or_1_odd or_1_aligned by metis
    with h show ?thesis by (simp add: list_update_same_conv i)
  qed
  moreover have "?i \<le> length ?arr" by (simp add: lower_bound_def length_takeWhile_le)
  ultimately show ?thesis
    using same by (auto simp: mark_guarded_def Let_def)
qed

lemma mark_all:
  assumes "\<forall>p \<in> set ps. aligned p" and "sorted_wrt (<) ps"
  shows "fold mark_guarded hs (marked_in G ps) = marked_in (G \<union> set hs) ps"
proof (induction hs arbitrary: G)
  case (Cons h hs)
  then show ?case
    using mark_guarded_step [OF assms] by (simp add: Un_commute insert_commute)
qed simp

lemma sweep_marked:
  "\<forall>p \<in> set ps. aligned p \<Longrightarrow>
     sweep (marked_in G ps) = (filter (\<lambda>p. p \<in> G) ps, filter (\<lambda>p. p \<notin> G) ps)"
  by (induction ps) (auto simp: marked_in_def and_1_aligned or_1_aligned clear_or_1_num split_beta)

lemma inplace_scan_spec:
  assumes "distinct ps" and "\<forall>p \<in> set ps. aligned p" and "tr_retired (smr_threads s ! tid) = ps"
  shows "inplace_scan tid s =
    (filter (\<lambda>p. p \<notin> set (hazard_ptrs s)) (sort ps),
     if ps = [] then s else set_retired tid (filter (\<lambda>p. p \<in> set (hazard_ptrs s)) (sort ps)) s)"
proof (cases "ps = []")
  case True
  then show ?thesis using assms(3) by (simp add: inplace_scan_def)
next
  case False
  have "sorted_wrt (<) (sort ps)"
    using assms(1) by (simp add: strict_sorted_iff)
  moreover have "sort ps = marked_in {} (sort ps)"
    by (simp add: marked_in_def)
  ultimately have "fold mark_guarded (hazard_ptrs s) (sort ps) = marked_in (set (hazard_ptrs s)) (sort ps)"
    using mark_all [of "sort ps" "hazard_ptrs s" "{}"] assms(2) by simp
  with False assms(2,3) show ?thesis
    by (simp add: inplace_scan_def sweep_marked and_1_aligned)
qed

subsection \<open>The classic scan\<close>

lemma classic_loop_none:
  "it \<le> length arr \<Longrightarrow> arr ! 0 \<notin> set plist \<Longrightarrow>
     classic_loop plist arr it 0 freed = ([], freed @ drop it arr)"
proof (induction plist arr it "0 :: nat" freed rule: classic_loop.induct)
  case (1 plist arr it freed)
  then show ?case
    by (subst classic_loop.simps) (simp add: Cons_nth_drop_Suc)
qed

lemma classic_loop_all:
  "it \<le> length arr \<Longrightarrow> arr ! 0 \<in> set plist \<Longrightarrow> classic_loop plist arr it it freed = (arr, freed)"
proof (induction "length arr - it" arbitrary: it)
  case 0
  then show ?case by (subst classic_loop.simps) simp
next
  case (Suc n)
  then show ?case by (subst classic_loop.simps) simp
qed

lemma classic_scan_spec:
  assumes "tr_retired (smr_threads s ! tid) = ps" and "ps \<noteq> []"
  shows "classic_scan tid s =
    (if hd ps \<in> set (hazard_ptrs s) then ([], set_retired tid ps s) else (ps, set_retired tid [] s))"
  using assms classic_loop_none [of 0 ps "sort (hazard_ptrs s)" "[]"]
    classic_loop_all [of 0 ps "sort (hazard_ptrs s)" "[]"]
  by (simp add: classic_scan_def hd_conv_nth)

subsection \<open>Well-formed thread records\<close>

text \<open>A record whose free list holds distinct guards that are clear.\<close>

definition guards_ok :: "thread_record \<Rightarrow> bool" where
  "guards_ok r \<longleftrightarrow> distinct (tr_free r) \<and> (\<forall>g \<in> set (tr_free r). g < length (tr_hazards r) \<and> tr_hazards r ! g = 0)"

text \<open>A collector whose records are well formed, with retired arrays that are not full and hold each
  retired pointer once, and not more records than the configured number of threads.\<close>

definition record_ok :: "nat \<Rightarrow> nat \<Rightarrow> thread_record \<Rightarrow> bool" where
  "record_ok n m r \<longleftrightarrow> guards_ok r \<and> length (tr_hazards r) = n \<and> tr_capacity r = m \<and>
     length (tr_retired r) < tr_capacity r \<and> distinct (tr_retired r) \<and>
     (\<forall>p \<in> set (tr_retired r). aligned p \<and> p \<noteq> 0)"

definition smr_ok :: "smr \<Rightarrow> bool" where
  "smr_ok s \<longleftrightarrow> smr_scan_type s = inplace \<and> length (smr_threads s) \<le> max_thread_count s \<and>
     hazard_ptr_count s * max_thread_count s < max_retired_ptr_count s \<and>
     (\<forall>r \<in> set (smr_threads s). record_ok (hazard_ptr_count s) (max_retired_ptr_count s) r)"

lemma hazard_ptrs_bound:
  assumes "smr_ok s"
  shows "length (hazard_ptrs s) \<le> hazard_ptr_count s * max_thread_count s"
proof -
  let ?rs = "filter (\<lambda>r. tr_owner r \<noteq> 0) (rev (smr_threads s))"
  have h: "\<forall>r \<in> set (smr_threads s). length (tr_hazards r) = hazard_ptr_count s"
    using assms by (simp add: smr_ok_def record_ok_def)
  have len: "length (concat (map tr_hazards rs)) = length rs * hazard_ptr_count s"
    if "set rs \<subseteq> set (smr_threads s)" for rs
    using that h by (induction rs) auto
  have "length (hazard_ptrs s) \<le> length (concat (map tr_hazards ?rs))"
    by (simp add: hazard_ptrs_def)
  also have "\<dots> = length ?rs * hazard_ptr_count s"
    by (rule len) auto
  also have "\<dots> \<le> max_thread_count s * hazard_ptr_count s"
    using assms by (intro mult_le_mono1 order_trans [OF length_filter_le]) (simp add: smr_ok_def)
  finally show ?thesis by (simp add: mult.commute)
qed

lemma kept_bound:
  assumes "distinct ps"
  shows "length (filter (\<lambda>p. p \<in> set hs) (sort ps)) \<le> length hs"
proof -
  have "length (filter (\<lambda>p. p \<in> set hs) (sort ps)) = card (set (filter (\<lambda>p. p \<in> set hs) (sort ps)))"
    using assms by (metis distinct_card distinct_filter distinct_sort)
  also have "\<dots> \<le> card (set hs)" by (rule card_mono) auto
  also have "\<dots> \<le> length hs" by (rule card_length)
  finally show ?thesis .
qed

text \<open>Retiring a pointer keeps the collector well formed and frees only what no guard holds.\<close>

lemma retire_spec:
  assumes ok: "smr_ok s" and tid: "tid < length (smr_threads s)"
    and p: "aligned p" "p \<noteq> 0" "p \<notin> set (tr_retired (smr_threads s ! tid))"
  shows "\<exists>freed kept. retire tid p s = Some (freed, set_retired tid kept s) \<and>
    smr_ok (set_retired tid kept s) \<and> hazard_ptrs (set_retired tid kept s) = hazard_ptrs s \<and> distinct freed \<and>
    set freed \<union> set kept = insert p (set (tr_retired (smr_threads s ! tid))) \<and>
    set freed \<inter> set kept = {} \<and> set freed \<inter> set (hazard_ptrs s) = {}"
proof -
  let ?r = "smr_threads s ! tid"
  let ?r1 = "?r\<lparr>tr_retired := tr_retired ?r @ [p]\<rparr>"
  let ?s1 = "s\<lparr>smr_threads := (smr_threads s)[tid := ?r1]\<rparr>"
  have r: "guards_ok ?r" "length (tr_hazards ?r) = hazard_ptr_count s"
    "tr_capacity ?r = max_retired_ptr_count s" "length (tr_retired ?r) < tr_capacity ?r"
    "distinct (tr_retired ?r)" "\<forall>p \<in> set (tr_retired ?r). aligned p \<and> p \<noteq> 0"
    using ok nth_mem [OF tid] unfolding smr_ok_def record_ok_def by blast+
  have hz: "hazard_ptrs (set_retired tid qs s) = hazard_ptrs s" for qs
  proof -
    have "map (\<lambda>r. (tr_hazards r, tr_owner r)) ((smr_threads s)[tid := ?r\<lparr>tr_retired := qs\<rparr>])
        = map (\<lambda>r. (tr_hazards r, tr_owner r)) (smr_threads s)"
      using tid by (simp add: map_update list_update_same_conv)
    moreover have "hazard_ptrs s = filter (\<lambda>h. h \<noteq> 0) (concat (map fst (filter (\<lambda>x. snd x \<noteq> 0)
        (rev (map (\<lambda>r. (tr_hazards r, tr_owner r)) (smr_threads s))))))" for s
      by (simp add: hazard_ptrs_def filter_map comp_def rev_map)
    ultimately show ?thesis by (simp add: set_retired_def)
  qed
  have s1: "?s1 = set_retired tid (tr_retired ?r @ [p]) s"
    by (simp add: set_retired_def)
  have ok': "smr_ok (set_retired tid qs s)"
    if "length qs < tr_capacity ?r" "distinct qs" "\<forall>p \<in> set qs. aligned p \<and> p \<noteq> 0" for qs
    using ok r that set_update_subset_insert [of "smr_threads s" tid]
    by (fastforce simp: smr_ok_def record_ok_def set_retired_def guards_ok_def)
  have push: "retired_push p ?r = Some (Suc (length (tr_retired ?r)) < tr_capacity ?r, ?r1)"
    using r(4) by (simp add: retired_push_def)
  show ?thesis
  proof (cases "Suc (length (tr_retired ?r)) < tr_capacity ?r")
    case True
    have "retire tid p s = Some ([], set_retired tid (tr_retired ?r @ [p]) s)"
      using tid push True s1 by (simp add: retire_def Let_def)
    moreover have "smr_ok (set_retired tid (tr_retired ?r @ [p]) s)"
      using ok' True r p by simp
    ultimately show ?thesis
      using hz [of "tr_retired ?r @ [p]"]
      by (intro exI [of _ "[]"] exI [of _ "tr_retired ?r @ [p]"]) simp
  next
    case False
    let ?ps = "tr_retired ?r @ [p]"
    let ?kept = "filter (\<lambda>p. p \<in> set (hazard_ptrs s)) (sort ?ps)"
    let ?freed = "filter (\<lambda>p. p \<notin> set (hazard_ptrs s)) (sort ?ps)"
    have dist: "distinct ?ps" using r(5) p(3) by simp
    have "\<forall>q \<in> set ?ps. aligned q" using r(6) p by simp
    moreover have "tr_retired (smr_threads ?s1 ! tid) = ?ps" using tid by simp
    moreover have "hazard_ptrs ?s1 = hazard_ptrs s" using hz s1 by simp
    ultimately have "inplace_scan tid ?s1 = (?freed, set_retired tid ?kept ?s1)"
      using inplace_scan_spec [OF dist, of ?s1 tid] by simp
    moreover have "set_retired tid ?kept ?s1 = set_retired tid ?kept s"
      using tid by (simp add: set_retired_def)
    moreover have "smr_scan_type s = inplace" using ok by (simp add: smr_ok_def)
    ultimately have run: "retire tid p s = Some (?freed, set_retired tid ?kept s)"
      using tid push False by (simp add: retire_def Let_def scan_def)
    have "length ?kept < tr_capacity ?r"
      using kept_bound [OF dist, of "hazard_ptrs s"] hazard_ptrs_bound [OF ok] ok r(3)
      by (simp add: smr_ok_def)
    moreover have "distinct ?kept" using dist by simp
    ultimately have "smr_ok (set_retired tid ?kept s)"
      using r(6) p by (intro ok') auto
    with run show ?thesis
      using hz [of ?kept] dist by (intro exI [of _ ?freed] exI [of _ ?kept]) auto
  qed
qed

end
