(* ===== verification/Hazard_Detach.thy ===== *)
theory Hazard_Detach
  imports Hazard
begin

text \<open>
  What the scans of the hazard-pointer collector free and keep, for one scan, for a sequence of retired
  pointers, and for a thread that detaches and takes over the retired pointers of the threads before it.
\<close>

subsection \<open>Retired pointers\<close>

definition retired_set :: "smr \<Rightarrow> addr set" where
  "retired_set s = (\<Union>i < length (smr_threads s). set (tr_retired (smr_threads s ! i)))"

lemma set_retired_nth:
  "tid < length (smr_threads m) \<Longrightarrow> i < length (smr_threads m) \<Longrightarrow>
     tr_retired (smr_threads (set_retired tid ps m) ! i) = (if i = tid then ps else tr_retired (smr_threads m ! i))"
  by (simp add: set_retired_def nth_list_update)

lemma set_retired_field:
  assumes "\<And>r. f (r\<lparr>tr_retired := ps\<rparr>) = f r"
  shows "f (smr_threads (set_retired tid ps m) ! i) = f (smr_threads m ! i)"
  using assms by (cases "tid < length (smr_threads m)"; cases "i = tid") (simp_all add: set_retired_def list_update_beyond)

lemma set_retired_fields [simp]:
  "hazard_ptr_count (set_retired tid ps m) = hazard_ptr_count m"
  "max_retired_ptr_count (set_retired tid ps m) = max_retired_ptr_count m"
  "length (smr_threads (set_retired tid ps m)) = length (smr_threads m)"
  "tr_owner (smr_threads (set_retired tid ps m) ! i) = tr_owner (smr_threads m ! i)"
  "tr_bFree (smr_threads (set_retired tid ps m) ! i) = tr_bFree (smr_threads m ! i)"
  "tr_hazards (smr_threads (set_retired tid ps m) ! i) = tr_hazards (smr_threads m ! i)"
  by (simp_all add: set_retired_field) (simp_all add: set_retired_def)

lemma set_retired_twice: "set_retired tid ps (set_retired tid qs m) = set_retired tid ps m"
  by (cases "tid < length (smr_threads m)") (simp_all add: set_retired_def list_update_beyond)

lemma set_retired_same: "set_retired tid (tr_retired (smr_threads m ! tid)) m = m"
  by (simp add: set_retired_def)

text \<open>The hazard pointers that a scan reads depend only on the owners and the guards of the records.\<close>

lemma hazard_ptrs_cong:
  assumes "map (\<lambda>r. if tr_owner r = 0 then [] else tr_hazards r) (smr_threads s') =
    map (\<lambda>r. if tr_owner r = 0 then [] else tr_hazards r) (smr_threads s)"
  shows "hazard_ptrs s' = hazard_ptrs s"
proof -
  have "concat (map tr_hazards (filter (\<lambda>r. tr_owner r \<noteq> 0) rs)) =
      concat (map (\<lambda>r. if tr_owner r = 0 then [] else tr_hazards r) rs)" for rs :: "thread_record list"
    by (induction rs) auto
  then show ?thesis
    unfolding hazard_ptrs_def using arg_cong [OF assms, of rev] by (simp only: rev_map)
qed

lemma hazard_ptrs_set_retired [simp]: "hazard_ptrs (set_retired tid ps s) = hazard_ptrs s"
  by (rule hazard_ptrs_cong, rule nth_equalityI) simp_all

lemma set_hazard_ptrs:
  "set (hazard_ptrs s) = {h. h \<noteq> 0 \<and> (\<exists>i < length (smr_threads s). tr_owner (smr_threads s ! i) \<noteq> 0 \<and>
     h \<in> set (tr_hazards (smr_threads s ! i)))}"
  by (auto simp: hazard_ptrs_def in_set_conv_nth [of _ "smr_threads s"])

lemma smr_ok_record:
  "smr_ok s \<Longrightarrow> i < length (smr_threads s) \<Longrightarrow>
     record_ok (hazard_ptr_count s) (max_retired_ptr_count s) (smr_threads s ! i)"
  by (simp add: smr_ok_def)

lemma smr_ok_update:
  assumes "smr_ok s" and "record_ok (hazard_ptr_count s) (max_retired_ptr_count s) r"
  shows "smr_ok (s\<lparr>smr_threads := (smr_threads s)[i := r]\<rparr>)"
  using assms set_update_subset_insert [of "smr_threads s" i r] by (auto simp: smr_ok_def)

subsection \<open>One scan\<close>

lemma scan_spec:
  assumes ok: "smr_ok s" and tid: "tid < length (smr_threads s)"
  defines "ps \<equiv> tr_retired (smr_threads s ! tid)"
  shows "\<exists>freed kept. scan tid s = (freed, set_retired tid kept s) \<and> smr_ok (set_retired tid kept s) \<and>
    distinct freed \<and> set freed = set ps - set (hazard_ptrs s) \<and> set kept = set ps \<inter> set (hazard_ptrs s)"
proof -
  have r: "record_ok (hazard_ptr_count s) (max_retired_ptr_count s) (smr_threads s ! tid)"
    by (rule smr_ok_record [OF ok tid])
  then have ps: "distinct ps" "\<forall>p \<in> set ps. aligned p" "length ps < max_retired_ptr_count s"
    by (simp_all add: record_ok_def ps_def)
  let ?kept = "filter (\<lambda>p. p \<in> set (hazard_ptrs s)) (sort ps)"
  have "inplace_scan tid s = (filter (\<lambda>p. p \<notin> set (hazard_ptrs s)) (sort ps),
      if ps = [] then s else set_retired tid ?kept s)"
    by (rule inplace_scan_spec [OF ps(1,2)]) (simp add: ps_def)
  moreover have "(if ps = [] then s else set_retired tid ?kept s) = set_retired tid ?kept s"
    using set_retired_same [of tid s] by (cases "ps = []") (simp_all add: ps_def)
  moreover have "smr_scan_type s = inplace" using ok by (simp add: smr_ok_def)
  moreover have "record_ok (hazard_ptr_count s) (max_retired_ptr_count s) ((smr_threads s ! tid)\<lparr>tr_retired := ?kept\<rparr>)"
  proof -
    have "length ?kept \<le> length ps" using length_filter_le [of _ "sort ps"] by simp
    with r ps(1) show ?thesis by (auto simp: record_ok_def guards_ok_def ps_def)
  qed
  then have "smr_ok (set_retired tid ?kept s)"
    unfolding set_retired_def by (rule smr_ok_update [OF ok])
  ultimately show ?thesis
    using ps(1) by (intro exI [of _ "filter (\<lambda>p. p \<notin> set (hazard_ptrs s)) (sort ps)"] exI [of _ ?kept])
      (auto simp: scan_def)
qed

subsection \<open>A sequence of retired pointers\<close>

lemma help_move_spec:
  assumes "smr_ok s" and "tid < length (smr_threads s)" and "distinct ps" and "\<forall>p \<in> set ps. aligned p \<and> p \<noteq> 0"
    and "set ps \<inter> set (tr_retired (smr_threads s ! tid)) = {}"
  shows "\<exists>freed kept. help_move tid ps s = Some (freed, set_retired tid kept s) \<and>
    smr_ok (set_retired tid kept s) \<and> distinct freed \<and>
    set freed \<union> set kept = set ps \<union> set (tr_retired (smr_threads s ! tid)) \<and>
    set freed \<inter> set kept = {} \<and> set freed \<inter> set (hazard_ptrs s) = {}"
  using assms
proof (induction ps arbitrary: s)
  case Nil
  then show ?case
    using set_retired_same [of tid s]
    by (intro exI [of _ "[]"] exI [of _ "tr_retired (smr_threads s ! tid)"]) simp
next
  case (Cons p ps)
  let ?T = "set (tr_retired (smr_threads s ! tid))"
  obtain f k where 1: "retire tid p s = Some (f, set_retired tid k s)" "smr_ok (set_retired tid k s)" "distinct f"
    "set f \<union> set k = insert p ?T" "set f \<inter> set k = {}" "set f \<inter> set (hazard_ptrs s) = {}"
    using retire_spec [of s tid p] Cons.prems by auto
  let ?s = "set_retired tid k s"
  have k: "tr_retired (smr_threads ?s ! tid) = k" using Cons.prems(2) by (simp add: set_retired_nth)
  have "set k \<subseteq> insert p ?T" using 1(4) by blast
  then have "set ps \<inter> set k = {}" using Cons.prems(3,5) by auto
  then obtain f' k' where 2: "help_move tid ps ?s = Some (f', set_retired tid k' ?s)"
    "smr_ok (set_retired tid k' ?s)" "distinct f'" "set f' \<union> set k' = set ps \<union> set k"
    "set f' \<inter> set k' = {}" "set f' \<inter> set (hazard_ptrs s) = {}"
    using Cons.IH [OF 1(2)] Cons.prems k by auto
  have d: "set f \<inter> (set ps \<union> set k) = {}" using 1(4,5) Cons.prems(3,5) by auto
  have fk: "set f' \<subseteq> set ps \<union> set k" "set k' \<subseteq> set ps \<union> set k" using 2(4) by blast+
  have "distinct (f @ f')" using 1(3) 2(3) d fk by auto
  moreover have "set (f @ f') \<union> set k' = set (p # ps) \<union> ?T" using 1(4) 2(4) by auto
  moreover have "set (f @ f') \<inter> set k' = {}" using d fk 2(5) by auto
  moreover have "set (f @ f') \<inter> set (hazard_ptrs s) = {}" using 1(6) 2(6) by auto
  ultimately show ?case
    using 1(1) 2(1,2) by (intro exI [of _ "f @ f'"] exI [of _ k']) (simp add: set_retired_twice)
qed


subsection \<open>The scan for threads that have gone\<close>

text \<open>Between two operations a record without an owner holds no hazard pointer, one that is marked free has
  neither owner nor retired pointers, and no pointer is in the arrays of two records.\<close>

definition detach_ok :: "smr \<Rightarrow> bool" where
  "detach_ok s \<longleftrightarrow> smr_ok s \<and>
     (\<forall>i < length (smr_threads s). tr_owner (smr_threads s ! i) = 0 \<longrightarrow> set (tr_hazards (smr_threads s ! i)) \<subseteq> {0}) \<and>
     (\<forall>i < length (smr_threads s). tr_bFree (smr_threads s ! i) \<longrightarrow>
        tr_owner (smr_threads s ! i) = 0 \<and> tr_retired (smr_threads s ! i) = []) \<and>
     (\<forall>i < length (smr_threads s). \<forall>j < length (smr_threads s). i \<noteq> j \<longrightarrow>
        set (tr_retired (smr_threads s ! i)) \<inter> set (tr_retired (smr_threads s ! j)) = {})"

text \<open>What a step of the detaching thread \<open>tid\<close> keeps, and what it frees.\<close>

definition detach_step :: "nat \<Rightarrow> smr \<Rightarrow> addr list \<Rightarrow> smr \<Rightarrow> bool" where
  "detach_step tid s freed s' \<longleftrightarrow> detach_ok s' \<and> distinct freed \<and>
     length (smr_threads s') = length (smr_threads s) \<and> hazard_ptr_count s' = hazard_ptr_count s \<and>
     (\<forall>i. tr_owner (smr_threads s' ! i) = tr_owner (smr_threads s ! i)) \<and>
     (\<forall>i. tr_hazards (smr_threads s' ! i) = tr_hazards (smr_threads s ! i)) \<and> hazard_ptrs s' = hazard_ptrs s \<and>
     set freed \<union> retired_set s' = retired_set s \<and> set freed \<inter> retired_set s' = {} \<and>
     set freed \<inter> set (hazard_ptrs s) = {} \<and>
     (\<forall>i < length (smr_threads s). i \<noteq> tid \<longrightarrow>
        tr_retired (smr_threads s' ! i) = tr_retired (smr_threads s ! i) \<or> tr_retired (smr_threads s' ! i) = [])"

lemma detach_step_refl: "detach_ok s \<Longrightarrow> detach_step tid s [] s"
  by (simp add: detach_step_def)

lemma detach_step_trans:
  assumes "detach_step tid s f s1" and "detach_step tid s1 f' s2"
  shows "detach_step tid s (f @ f') s2"
proof -
  note 1 = assms(1) [unfolded detach_step_def] and 2 = assms(2) [unfolded detach_step_def]
  have "set f' \<subseteq> retired_set s1" using 2 by blast
  then have "distinct (f @ f')" using 1 2 by auto
  moreover have "set (f @ f') \<union> retired_set s2 = retired_set s" using 1 2 by auto
  moreover have "set (f @ f') \<inter> retired_set s2 = {}" using 1 2 by auto
  moreover have "set (f @ f') \<inter> set (hazard_ptrs s) = {}" using 1 2 by auto
  ultimately show ?thesis using 1 2 unfolding detach_step_def by (metis (no_types, lifting))
qed

text \<open>The arrays of all records when the array of one changes.\<close>

lemma retired_set_split:
  assumes "t < length (smr_threads s)"
  shows "retired_set s = set (tr_retired (smr_threads s ! t)) \<union>
    (\<Union>i \<in> {..<length (smr_threads s)} - {t}. set (tr_retired (smr_threads s ! i)))"
  using assms by (auto simp: retired_set_def)


lemma scan_step:
  assumes ok: "detach_ok s" and tid: "tid < length (smr_threads s)"
  shows "\<exists>freed s'. scan tid s = (freed, s') \<and> detach_step tid s freed s' \<and>
    set (tr_retired (smr_threads s' ! tid)) \<subseteq> set (hazard_ptrs s)"
proof -
  let ?R = "\<lambda>i. set (tr_retired (smr_threads s ! i))"
  obtain f k where r: "scan tid s = (f, set_retired tid k s)" "smr_ok (set_retired tid k s)" "distinct f"
    "set f = ?R tid - set (hazard_ptrs s)" "set k = ?R tid \<inter> set (hazard_ptrs s)"
    using scan_spec [OF _ tid] ok by (auto simp: detach_ok_def)
  let ?s = "set_retired tid k s"
  have K: "tr_retired (smr_threads ?s ! i) = (if i = tid then k else tr_retired (smr_threads s ! i))"
    if "i < length (smr_threads s)" for i using tid that by (rule set_retired_nth)
  have dj: "?R tid \<inter> ?R i = {}" if "i < length (smr_threads s)" "i \<noteq> tid" for i
    using ok tid that unfolding detach_ok_def by blast
  have "detach_ok ?s"
  proof -
    have "set (tr_retired (smr_threads ?s ! i)) \<subseteq> ?R i" if "i < length (smr_threads s)" for i
      using K [OF that] r(5) by auto
    moreover have "?R i \<inter> ?R j = {}" if "i < length (smr_threads s)" "j < length (smr_threads s)" "i \<noteq> j" for i j
      using ok that unfolding detach_ok_def by blast
    ultimately have "set (tr_retired (smr_threads ?s ! i)) \<inter> set (tr_retired (smr_threads ?s ! j)) = {}"
      if "i < length (smr_threads s)" "j < length (smr_threads s)" "i \<noteq> j" for i j
      using that by (meson disjoint_iff subsetD)
    moreover have "tr_retired (smr_threads ?s ! i) = []"
      if "i < length (smr_threads s)" "tr_bFree (smr_threads s ! i)" for i
    proof -
      have "tr_retired (smr_threads s ! i) = []" using ok that unfolding detach_ok_def by blast
      then show ?thesis using K [OF that(1)] r(5) by auto
    qed
    ultimately show ?thesis using ok r(2) by (simp add: detach_ok_def)
  qed
  moreover have "retired_set ?s = set k \<union> (\<Union>i \<in> {..<length (smr_threads s)} - {tid}. ?R i)"
    using tid K by (subst retired_set_split [of tid]) (auto split: if_splits)
  moreover have "set f \<inter> (\<Union>i \<in> {..<length (smr_threads s)} - {tid}. ?R i) = {}"
    using r(4) dj by blast
  ultimately have "detach_step tid s f ?s"
    unfolding detach_step_def using r(3-5) retired_set_split [OF tid] K by auto
  moreover have "set (tr_retired (smr_threads ?s ! tid)) \<subseteq> set (hazard_ptrs s)" using K [OF tid] r(5) by simp
  ultimately show ?thesis using r(1) by blast
qed

text \<open>Moving the retired pointers of a record without an owner.\<close>

lemma help_record:
  assumes ok: "detach_ok s" and tid: "tid < length (smr_threads s)" "tr_owner (smr_threads s ! tid) \<noteq> 0"
    and i: "i < length (smr_threads s)" "i \<noteq> tid" "tr_owner (smr_threads s ! i) = 0"
  shows "\<exists>freed s'. help_move tid (tr_retired (smr_threads s ! i)) (own_record (tr_owner (smr_threads s ! tid)) i s) =
      Some (freed, s') \<and> detach_step tid s freed (release_record i s') \<and>
    tr_retired (smr_threads (release_record i s') ! i) = []"
proof -
  let ?R = "\<lambda>i. set (tr_retired (smr_threads s ! i))" and ?ps = "tr_retired (smr_threads s ! i)"
  let ?o = "own_record (tr_owner (smr_threads s ! tid)) i s"
  have len: "length (smr_threads ?o) = length (smr_threads s)" by (simp add: own_record_def)
  have rec: "record_ok (hazard_ptr_count s) (max_retired_ptr_count s) (smr_threads s ! i)"
    using ok i(1) by (intro smr_ok_record) (simp_all add: detach_ok_def)
  have sok: "smr_ok s" using ok by (simp add: detach_ok_def)
  have oth: "smr_threads ?o ! j = (if j = i then (smr_threads s ! i)\<lparr>tr_owner := tr_owner (smr_threads s ! tid)\<rparr>
      else smr_threads s ! j)" for j
    using i(1) by (simp add: own_record_def nth_list_update)
  have ook: "smr_ok ?o"
    unfolding own_record_def using rec
    by (intro smr_ok_update [OF sok]) (auto simp: record_ok_def guards_ok_def)
  have z: "set (tr_hazards (smr_threads s ! i)) \<subseteq> {0}" using ok i unfolding detach_ok_def by blast
  then have hz: "set (hazard_ptrs ?o) = set (hazard_ptrs s)"
    using i by (auto simp: set_hazard_ptrs len oth split: if_splits)
  have dj: "?R j \<inter> ?R j' = {}" if "j < length (smr_threads s)" "j' < length (smr_threads s)" "j \<noteq> j'" for j j'
    using ok that unfolding detach_ok_def by blast
  have ps: "distinct ?ps" "\<forall>p \<in> set ?ps. aligned p \<and> p \<noteq> 0" using rec by (simp_all add: record_ok_def)
  have "set ?ps \<inter> set (tr_retired (smr_threads ?o ! tid)) = {}" using dj [OF i(1) tid(1) i(2)] i(2) oth by simp
  from help_move_spec [OF ook _ ps this] obtain f k where r:
    "help_move tid ?ps ?o = Some (f, set_retired tid k ?o)" "smr_ok (set_retired tid k ?o)" "distinct f"
    "set f \<union> set k = ?R i \<union> ?R tid" "set f \<inter> set k = {}" "set f \<inter> set (hazard_ptrs s) = {}"
    using tid(1) i(2) len hz oth by auto
  let ?t = "release_record i (set_retired tid k ?o)"
  have T: "smr_threads ?t ! j = (if j = i then (smr_threads s ! i)\<lparr>tr_retired := [], tr_bFree := True, tr_owner := 0\<rparr>
      else if j = tid then (smr_threads s ! tid)\<lparr>tr_retired := k\<rparr> else smr_threads s ! j)"
    if "j < length (smr_threads s)" for j
    using i tid that by (simp add: release_record_def set_retired_def own_record_def nth_list_update)
  have lt: "length (smr_threads ?t) = length (smr_threads s)" by (simp add: release_record_def len)
  have beyond: "smr_threads ?t ! j = smr_threads s ! j" if "\<not> j < length (smr_threads s)" for j
    using i tid that by (auto simp: release_record_def set_retired_def own_record_def nth_list_update)
  have "smr_ok ?t"
  proof -
    have "smr_ok (set_retired tid k ?o)" by (rule r(2))
    moreover have "record_ok (hazard_ptr_count s) (max_retired_ptr_count s)
        ((smr_threads (set_retired tid k ?o) ! i)\<lparr>tr_retired := [], tr_bFree := True, tr_owner := 0\<rparr>)"
      using rec i by (auto simp: set_retired_def own_record_def record_ok_def guards_ok_def)
    ultimately show ?thesis
      unfolding release_record_def by (intro smr_ok_update) (simp_all add: own_record_def)
  qed
  moreover have disj: "set (tr_retired (smr_threads ?t ! a)) \<inter> set (tr_retired (smr_threads ?t ! b)) = {}"
    if "a < length (smr_threads s)" "b < length (smr_threads s)" "a \<noteq> b" for a b
  proof -
    have "set k \<subseteq> ?R i \<union> ?R tid" using r(4) by blast
    moreover have "(?R i \<union> ?R tid) \<inter> ?R c = {}" if "c < length (smr_threads s)" "c \<noteq> i" "c \<noteq> tid" for c
      using dj [OF i(1) that(1)] dj [OF tid(1) that(1)] that by blast
    ultimately show ?thesis using that dj [OF that] by (simp add: T) blast
  qed
  ultimately have dok: "detach_ok ?t"
    using ok z tid(2) unfolding detach_ok_def lt by (auto simp: T split: if_splits)
  let ?U = "\<Union>j \<in> {..<length (smr_threads s)} - {tid, i}. ?R j"
  have R: "retired_set ?t = set k \<union> ?U"
    using tid i by (subst retired_set_split [of tid]) (auto simp: lt T split: if_splits)
  have Rs: "retired_set s = ?R i \<union> ?R tid \<union> ?U"
    using tid i by (auto simp: retired_set_def)
  have fU: "set f \<inter> ?U = {}"
  proof -
    have "set f \<subseteq> ?R i \<union> ?R tid" using r(4) by blast
    then show ?thesis using dj [OF i(1)] dj [OF tid(1)] by blast
  qed
  have own: "tr_owner (smr_threads ?t ! j) = tr_owner (smr_threads s ! j)"
    "tr_hazards (smr_threads ?t ! j) = tr_hazards (smr_threads s ! j)" for j
    using T [of j] beyond [of j] i by (cases "j < length (smr_threads s)"; auto)+
  have hz2: "hazard_ptrs ?t = hazard_ptrs s"
    by (rule hazard_ptrs_cong, rule nth_equalityI) (simp_all add: lt own)
  have "detach_step tid s f ?t"
    unfolding detach_step_def
  proof (intro conjI allI impI)
    show "set f \<union> retired_set ?t = retired_set s" unfolding R Rs using r(4) by blast
    show "set f \<inter> retired_set ?t = {}" unfolding R using r(5) fU by blast
    show "tr_retired (smr_threads ?t ! j) = tr_retired (smr_threads s ! j) \<or> tr_retired (smr_threads ?t ! j) = []"
      if "j < length (smr_threads s)" "j \<noteq> tid" for j using T [OF that(1)] that(2) by simp
    show "hazard_ptr_count ?t = hazard_ptr_count s" by (simp add: release_record_def own_record_def)
  qed (use dok r(3,6) lt own hz2 in auto)
  with r(1) T [OF i(1)] show ?thesis by auto
qed


lemma help_scan_spec:
  assumes "detach_ok s" and "tid < length (smr_threads s)" and "tr_owner (smr_threads s ! tid) \<noteq> 0"
    and "n \<le> length (smr_threads s)"
    and "set (tr_retired (smr_threads s ! tid)) \<subseteq> set (hazard_ptrs s)"
  shows "\<exists>freed s'. help_scan tid n s = Some (freed, s') \<and> detach_step tid s freed s' \<and>
    set (tr_retired (smr_threads s' ! tid)) \<subseteq> set (hazard_ptrs s) \<and>
    (\<forall>i < n. i \<noteq> tid \<and> tr_owner (smr_threads s ! i) = 0 \<longrightarrow> tr_retired (smr_threads s' ! i) = [])"
  using assms
proof (induction n arbitrary: s)
  case 0
  then show ?case using detach_step_refl by auto
next
  case (Suc n)
  let ?r = "smr_threads s ! n"
  have n: "n < length (smr_threads s)" using Suc.prems(4) by simp
  show ?case
  proof (cases "n = tid \<or> tr_bFree ?r \<or> tr_owner ?r \<noteq> 0")
    case True
    have ih: "\<exists>freed s'. help_scan tid n s = Some (freed, s') \<and> detach_step tid s freed s' \<and>
        set (tr_retired (smr_threads s' ! tid)) \<subseteq> set (hazard_ptrs s) \<and>
        (\<forall>i < n. i \<noteq> tid \<and> tr_owner (smr_threads s ! i) = 0 \<longrightarrow> tr_retired (smr_threads s' ! i) = [])"
      using Suc.IH [OF Suc.prems(1-3) _ Suc.prems(5)] Suc.prems(4) by simp
    then obtain f s' where r: "help_scan tid n s = Some (f, s')" "detach_step tid s f s'"
        "set (tr_retired (smr_threads s' ! tid)) \<subseteq> set (hazard_ptrs s)"
        "\<forall>i < n. i \<noteq> tid \<and> tr_owner (smr_threads s ! i) = 0 \<longrightarrow> tr_retired (smr_threads s' ! i) = []"
      by blast
    have "tr_retired (smr_threads s' ! n) = []" if "n \<noteq> tid" "tr_owner ?r = 0"
    proof -
      have "tr_retired ?r = []" using True that Suc.prems(1) n unfolding detach_ok_def by blast
      then show ?thesis using r(2) n that(1) unfolding detach_step_def by metis
    qed
    with r True show ?thesis by (auto simp: less_Suc_eq)
  next
    case False
    then have i: "n \<noteq> tid" "tr_owner ?r = 0" "\<not> tr_bFree ?r" by auto
    obtain f s1 where 1: "help_move tid (tr_retired ?r) (own_record (tr_owner (smr_threads s ! tid)) n s) = Some (f, s1)"
        "detach_step tid s f (release_record n s1)" "tr_retired (smr_threads (release_record n s1) ! n) = []"
      using help_record [OF Suc.prems(1-3) n i(1,2)] by blast
    let ?s1 = "release_record n s1"
    have e1: "detach_ok ?s1" "length (smr_threads ?s1) = length (smr_threads s)" "hazard_ptrs ?s1 = hazard_ptrs s"
      "tr_owner (smr_threads ?s1 ! j) = tr_owner (smr_threads s ! j)" for j
      using 1(2) by (simp_all add: detach_step_def)
    obtain f2 s2 where 2: "scan tid ?s1 = (f2, s2)" "detach_step tid ?s1 f2 s2"
        "set (tr_retired (smr_threads s2 ! tid)) \<subseteq> set (hazard_ptrs ?s1)"
      using scan_step [OF e1(1), of tid] Suc.prems(2) e1(2) by auto
    have e2: "detach_ok s2" "length (smr_threads s2) = length (smr_threads s)" "hazard_ptrs s2 = hazard_ptrs s"
      "tr_owner (smr_threads s2 ! j) = tr_owner (smr_threads s ! j)" for j
      using 2(2) e1 by (simp_all add: detach_step_def)
    have n2: "tr_retired (smr_threads s2 ! n) = []"
      using 2(2) 1(3) n i(1) e1(2) unfolding detach_step_def by metis
    have "\<exists>freed s'. help_scan tid n s2 = Some (freed, s') \<and> detach_step tid s2 freed s' \<and>
        set (tr_retired (smr_threads s' ! tid)) \<subseteq> set (hazard_ptrs s2) \<and>
        (\<forall>i < n. i \<noteq> tid \<and> tr_owner (smr_threads s2 ! i) = 0 \<longrightarrow> tr_retired (smr_threads s' ! i) = [])"
      using Suc.prems(2-4) 2(3) e1 e2 by (intro Suc.IH) simp_all
    then obtain f3 s3 where 3: "help_scan tid n s2 = Some (f3, s3)" "detach_step tid s2 f3 s3"
        "set (tr_retired (smr_threads s3 ! tid)) \<subseteq> set (hazard_ptrs s2)"
        "\<forall>i < n. i \<noteq> tid \<and> tr_owner (smr_threads s2 ! i) = 0 \<longrightarrow> tr_retired (smr_threads s3 ! i) = []"
      by blast
    have n3: "tr_retired (smr_threads s3 ! n) = []"
      using 3(2) n2 n i(1) e2(2) unfolding detach_step_def by metis
    have "detach_step tid s (f @ f2 @ f3) s3"
      by (intro detach_step_trans [OF 1(2)] detach_step_trans [OF 2(2) 3(2)])
    moreover have "help_scan tid (Suc n) s = Some (f @ f2 @ f3, s3)"
      using i 1(1) 2(1) 3(1) by (simp add: Let_def)
    moreover have "set (tr_retired (smr_threads s3 ! tid)) \<subseteq> set (hazard_ptrs s)" using 3(3) e2(3) by simp
    ultimately show ?thesis using 3(4) n3 e2(4) by (auto simp: less_Suc_eq)
  qed
qed

subsection \<open>A thread that detaches\<close>

lemma free_thread_data_spec:
  assumes ok: "detach_ok s" and tid: "tid < length (smr_threads s)" "tr_owner (smr_threads s ! tid) \<noteq> 0"
  defines "G \<equiv> {h. h \<noteq> 0 \<and> (\<exists>i < length (smr_threads s). i \<noteq> tid \<and> tr_owner (smr_threads s ! i) \<noteq> 0 \<and>
    h \<in> set (tr_hazards (smr_threads s ! i)))}"
  shows "\<exists>freed s'. free_thread_data tid s = Some (freed, s') \<and> detach_ok s' \<and> distinct freed \<and>
    set freed \<union> retired_set s' = retired_set s \<and> set freed \<inter> retired_set s' = {} \<and> set freed \<inter> G = {} \<and>
    length (smr_threads s') = length (smr_threads s) \<and> hazard_ptr_count s' = hazard_ptr_count s \<and>
    (\<forall>i. tr_owner (smr_threads s' ! i) = (if i = tid then 0 else tr_owner (smr_threads s ! i))) \<and>
    set (tr_retired (smr_threads s' ! tid)) \<subseteq> G \<and>
    (\<forall>i < length (smr_threads s). i \<noteq> tid \<and> tr_owner (smr_threads s ! i) = 0 \<longrightarrow> tr_retired (smr_threads s' ! i) = [])"
proof -
  let ?r = "(smr_threads s ! tid)\<lparr>tr_hazards := replicate (hazard_ptr_count s) 0\<rparr>"
  let ?s = "s\<lparr>smr_threads := (smr_threads s)[tid := ?r]\<rparr>"
  have sok: "smr_ok s" using ok by (simp add: detach_ok_def)
  have rec: "record_ok (hazard_ptr_count s) (max_retired_ptr_count s) ?r"
    using smr_ok_record [OF sok tid(1)] by (auto simp: record_ok_def guards_ok_def)
  have nth: "smr_threads ?s ! i = (if i = tid then ?r else smr_threads s ! i)" for i
    using tid(1) by (simp add: nth_list_update)
  have len: "length (smr_threads ?s) = length (smr_threads s)" by simp
  have G: "set (hazard_ptrs ?s) = G"
    using tid(1) unfolding set_hazard_ptrs len nth by (auto simp: G_def)
  have ret: "tr_retired (smr_threads ?s ! i) = tr_retired (smr_threads s ! i)"
    "tr_owner (smr_threads ?s ! i) = tr_owner (smr_threads s ! i)"
    "tr_bFree (smr_threads ?s ! i) = tr_bFree (smr_threads s ! i)" for i
    using tid(1) by (cases "i = tid"; simp)+
  have dok: "detach_ok ?s"
  proof -
    have "set (tr_hazards (smr_threads ?s ! i)) \<subseteq> {0}" if "i < length (smr_threads s)" "tr_owner (smr_threads s ! i) = 0" for i
    proof -
      have "i \<noteq> tid" using that(2) tid(2) by auto
      moreover have "set (tr_hazards (smr_threads s ! i)) \<subseteq> {0}" using ok that unfolding detach_ok_def by blast
      ultimately show ?thesis by simp
    qed
    then show ?thesis
      using ok smr_ok_update [OF sok rec, of tid] unfolding detach_ok_def len ret by blast
  qed
  have R: "retired_set ?s = retired_set s" unfolding retired_set_def len ret ..
  obtain f1 s1 where 1: "scan tid ?s = (f1, s1)" "detach_step tid ?s f1 s1"
      "set (tr_retired (smr_threads s1 ! tid)) \<subseteq> G"
    using scan_step [OF dok, of tid] tid(1) G by auto
  have e1: "detach_ok s1" "length (smr_threads s1) = length (smr_threads s)" "hazard_ptrs s1 = hazard_ptrs ?s"
    "tr_owner (smr_threads s1 ! j) = tr_owner (smr_threads s ! j)" for j
    using 1(2) ret(2) by (simp_all add: detach_step_def del: nth_list_update)
  have "\<exists>freed s'. help_scan tid (length (smr_threads s)) s1 = Some (freed, s') \<and> detach_step tid s1 freed s' \<and>
      set (tr_retired (smr_threads s' ! tid)) \<subseteq> set (hazard_ptrs s1) \<and>
      (\<forall>i < length (smr_threads s). i \<noteq> tid \<and> tr_owner (smr_threads s1 ! i) = 0 \<longrightarrow> tr_retired (smr_threads s' ! i) = [])"
    using e1 tid 1(3) G by (intro help_scan_spec) simp_all
  then obtain f2 s2 where 2: "help_scan tid (length (smr_threads s)) s1 = Some (f2, s2)" "detach_step tid s1 f2 s2"
      "set (tr_retired (smr_threads s2 ! tid)) \<subseteq> set (hazard_ptrs s1)"
      "\<forall>i < length (smr_threads s). i \<noteq> tid \<and> tr_owner (smr_threads s1 ! i) = 0 \<longrightarrow> tr_retired (smr_threads s2 ! i) = []"
    by blast
  note st = detach_step_trans [OF 1(2) 2(2), unfolded detach_step_def]
  let ?s2 = "s2\<lparr>smr_threads := (smr_threads s2)[tid := (smr_threads s2 ! tid)\<lparr>tr_owner := 0\<rparr>]\<rparr>"
  have len2: "length (smr_threads s2) = length (smr_threads s)" using st by simp
  have t2: "tid < length (smr_threads s2)" using tid(1) len2 by simp
  have ret2: "tr_retired (smr_threads ?s2 ! i) = tr_retired (smr_threads s2 ! i)"
    "tr_bFree (smr_threads ?s2 ! i) = tr_bFree (smr_threads s2 ! i)"
    "tr_hazards (smr_threads ?s2 ! i) = tr_hazards (smr_threads s2 ! i)"
    "tr_owner (smr_threads ?s2 ! i) = (if i = tid then 0 else tr_owner (smr_threads s ! i))" for i
    using t2 st ret(2) by (cases "i = tid"; simp del: nth_list_update add: nth_list_update_eq)+
  have h2: "tr_hazards (smr_threads s2 ! i) = (if i = tid then replicate (hazard_ptr_count s) 0 else tr_hazards (smr_threads s ! i))" for i
    using st tid(1) by (cases "i = tid") simp_all
  have "detach_ok ?s2"
  proof -
    have sok2: "smr_ok s2" using st by (simp add: detach_ok_def)
    have "record_ok (hazard_ptr_count s2) (max_retired_ptr_count s2) ((smr_threads s2 ! tid)\<lparr>tr_owner := 0\<rparr>)"
      using smr_ok_record [OF sok2 t2] by (auto simp: record_ok_def guards_ok_def)
    then have "smr_ok ?s2" by (rule smr_ok_update [OF sok2])
    have own: "tr_owner (smr_threads s2 ! i) = tr_owner (smr_threads s ! i)" for i
      using st ret(2) by (simp del: nth_list_update)
    have dok2: "detach_ok s2" using st by blast
    have l: "length (smr_threads ?s2) = length (smr_threads s2)" by simp
    show ?thesis
      unfolding detach_ok_def l ret2
    proof (intro conjI allI impI)
      show "smr_ok ?s2" by fact
      show "set (tr_hazards (smr_threads s2 ! i)) \<subseteq> {0}"
        if "i < length (smr_threads s2)" "(if i = tid then 0 else tr_owner (smr_threads s ! i)) = 0" for i
        using that ok len2 unfolding h2 detach_ok_def by (cases "i = tid") auto
      show "(if i = tid then 0 else tr_owner (smr_threads s ! i)) = 0" "tr_retired (smr_threads s2 ! i) = []"
        if "i < length (smr_threads s2)" "tr_bFree (smr_threads s2 ! i)" for i
        using dok2 that own unfolding detach_ok_def by auto
      show "set (tr_retired (smr_threads s2 ! i)) \<inter> set (tr_retired (smr_threads s2 ! j)) = {}"
        if "i < length (smr_threads s2)" "j < length (smr_threads s2)" "i \<noteq> j" for i j
        using dok2 that unfolding detach_ok_def by blast
    qed
  qed
  moreover have "retired_set ?s2 = retired_set s2"
    unfolding retired_set_def ret2(1) by simp
  moreover have "set (tr_retired (smr_threads ?s2 ! tid)) \<subseteq> G" unfolding ret2(1) using 2(3) e1(3) G by simp
  moreover have "free_thread_data tid s = Some (f1 @ f2, ?s2)"
    using 1(1) 2(1) e1(2) by (simp add: free_thread_data_def Let_def)
  moreover have "tr_retired (smr_threads ?s2 ! i) = []"
    if "i < length (smr_threads s)" "i \<noteq> tid" "tr_owner (smr_threads s ! i) = 0" for i
    unfolding ret2(1) using 2(4) that e1(4) by simp
  ultimately show ?thesis
    using st R G ret2(4) len2 by (intro exI [of _ "f1 @ f2"] exI [of _ ?s2]) simp
qed


subsection \<open>Properties\<close>

text \<open>A thread with three retired pointers, one of them guarded by another thread, and a record whose thread has gone.\<close>

definition demo_ok :: smr where
  "demo_ok = smr_ctor 2 3 7 inplace\<lparr>smr_threads :=
     [\<lparr>tr_hazards = [0, 0], tr_free = [0, 1], tr_retired = [48, 16, 32], tr_capacity = 7, tr_owner = 7, tr_bFree = False\<rparr>,
      \<lparr>tr_hazards = [16, 0], tr_free = [1], tr_retired = [80], tr_capacity = 7, tr_owner = 9, tr_bFree = False\<rparr>,
      \<lparr>tr_hazards = [0, 0], tr_free = [0, 1], tr_retired = [64], tr_capacity = 7, tr_owner = 0, tr_bFree = False\<rparr>]\<rparr>"

lemma demo_ok: "detach_ok demo_ok"
proof -
  have d: "smr_threads demo_ok ! 0 = \<lparr>tr_hazards = [0, 0], tr_free = [0, 1], tr_retired = [48, 16, 32], tr_capacity = 7,
      tr_owner = 7, tr_bFree = False\<rparr>"
    "smr_threads demo_ok ! 1 = \<lparr>tr_hazards = [16, 0], tr_free = [1], tr_retired = [80], tr_capacity = 7,
      tr_owner = 9, tr_bFree = False\<rparr>"
    "smr_threads demo_ok ! 2 = \<lparr>tr_hazards = [0, 0], tr_free = [0, 1], tr_retired = [64], tr_capacity = 7,
      tr_owner = 0, tr_bFree = False\<rparr>"
    "length (smr_threads demo_ok) = 3"
    by (simp_all add: demo_ok_def)
  have all: "(\<forall>i < 3. P i) \<longleftrightarrow> P 0 \<and> P 1 \<and> P (2 :: nat)" for P
    by (auto simp: numeral_3_eq_3 less_Suc_eq numeral_2_eq_2)
  have c: "hazard_ptr_count demo_ok = 2" "max_thread_count demo_ok = 3" "max_retired_ptr_count demo_ok = 7"
    "smr_scan_type demo_ok = inplace"
    by (simp_all add: demo_ok_def smr_ctor_def calc_retired_size_def Let_def)
  have "smr_ok demo_ok"
    unfolding smr_ok_def all_set_conv_all_nth c d(4) all d
    by (simp add: record_ok_def guards_ok_def aligned_even)
  then show ?thesis unfolding detach_ok_def d(4) all d by simp
qed

text \<open>C8: A scan in place frees each retired pointer of the thread that no guard of an attached thread holds,
  once, and keeps the guarded ones; the arrays of the other threads and all guards stay as they are.\<close>

theorem inplace_scan_correct:
  assumes "smr_ok s" and "tid < length (smr_threads s)"
  shows "\<exists>freed kept. scan tid s = (freed, set_retired tid kept s) \<and> smr_ok (set_retired tid kept s) \<and>
    distinct freed \<and> set freed = set (tr_retired (smr_threads s ! tid)) - set (hazard_ptrs s) \<and>
    set kept = set (tr_retired (smr_threads s ! tid)) \<inter> set (hazard_ptrs s)"
  by (rule scan_spec [OF assms])

lemma inplace_scan_correct_witness:
  "\<exists>freed kept. scan 0 demo_ok = (freed, set_retired 0 kept demo_ok) \<and> smr_ok (set_retired 0 kept demo_ok) \<and>
    distinct freed \<and> set freed = {48, 16, 32} - {16} \<and> set kept = {48, 16, 32} \<inter> {16}"
proof -
  have "hazard_ptrs demo_ok = [16]" "tr_retired (smr_threads demo_ok ! 0) = [48, 16, 32]" "0 < length (smr_threads demo_ok)"
    by (simp_all add: demo_ok_def hazard_ptrs_def)
  then show ?thesis
    using inplace_scan_correct [of demo_ok 0] demo_ok by (simp add: detach_ok_def)
qed

text \<open>However many pointers a thread retires, each of them new to its array, its array never overflows: the
  scan that runs when the array is full leaves room, as the array is longer than all guards together. Each
  pointer is then freed once or still in the array, and none that a guard holds is freed.\<close>

theorem retire_sequence:
  assumes "smr_ok s" and "tid < length (smr_threads s)" and "distinct ps" and "\<forall>p \<in> set ps. aligned p \<and> p \<noteq> 0"
    and "set ps \<inter> set (tr_retired (smr_threads s ! tid)) = {}"
  shows "\<exists>freed kept. help_move tid ps s = Some (freed, set_retired tid kept s) \<and>
    smr_ok (set_retired tid kept s) \<and> distinct freed \<and>
    set freed \<union> set kept = set ps \<union> set (tr_retired (smr_threads s ! tid)) \<and>
    set freed \<inter> set kept = {} \<and> set freed \<inter> set (hazard_ptrs s) = {}"
  by (rule help_move_spec [OF assms])

lemma retire_sequence_witness:
  "\<exists>freed kept. help_move 0 [96, 112, 128, 144, 160] demo_ok = Some (freed, set_retired 0 kept demo_ok) \<and>
    smr_ok (set_retired 0 kept demo_ok) \<and> distinct freed \<and>
    set freed \<union> set kept = {96, 112, 128, 144, 160} \<union> {48, 16, 32} \<and> set freed \<inter> set kept = {} \<and> 16 \<notin> set freed"
proof -
  have d: "hazard_ptrs demo_ok = [16]" "tr_retired (smr_threads demo_ok ! 0) = [48, 16, 32]" "0 < length (smr_threads demo_ok)"
    by (simp_all add: demo_ok_def hazard_ptrs_def)
  have "smr_ok demo_ok" using demo_ok by (simp add: detach_ok_def)
  moreover have "\<forall>p \<in> set [96, 112, 128, 144, 160 :: addr]. aligned p \<and> p \<noteq> 0" by (simp add: aligned_even)
  moreover have "distinct [96, 112, 128, 144, 160 :: addr]" by simp
  moreover have "set [96, 112, 128, 144, 160] \<inter> set (tr_retired (smr_threads demo_ok ! 0)) = {}" by (simp add: d(2))
  ultimately show ?thesis
    using retire_sequence [of demo_ok 0 "[96, 112, 128, 144, 160]"] d by (simp del: help_move.simps)
qed

text \<open>C9: \<open>free_thread_data\<close>, which detaches a thread, returns and releases its record. It frees, once
  each, only retired pointers that no other attached thread guards; every other retired pointer stays in an
  array. The pointers that threads before it left behind are taken over, and what remains in its own array is
  guarded.\<close>

theorem detach_correct:
  assumes "detach_ok s" and "tid < length (smr_threads s)" and "tr_owner (smr_threads s ! tid) \<noteq> 0"
  shows "\<exists>freed s'. free_thread_data tid s = Some (freed, s') \<and> detach_ok s' \<and> distinct freed \<and>
    set freed \<union> retired_set s' = retired_set s \<and> set freed \<inter> retired_set s' = {} \<and>
    set freed \<inter> {h. h \<noteq> 0 \<and> (\<exists>i < length (smr_threads s). i \<noteq> tid \<and> tr_owner (smr_threads s ! i) \<noteq> 0 \<and>
      h \<in> set (tr_hazards (smr_threads s ! i)))} = {} \<and>
    tr_owner (smr_threads s' ! tid) = 0 \<and>
    (\<forall>i < length (smr_threads s). i \<noteq> tid \<and> tr_owner (smr_threads s ! i) = 0 \<longrightarrow> tr_retired (smr_threads s' ! i) = [])"
  using free_thread_data_spec [OF assms] by (elim exE conjE) (intro exI conjI; (assumption | simp))

lemma detach_correct_witness:
  "\<exists>freed s'. free_thread_data 0 demo_ok = Some (freed, s') \<and> detach_ok s' \<and> distinct freed \<and>
    set freed \<union> retired_set s' = retired_set demo_ok \<and> 16 \<notin> set freed \<and> tr_owner (smr_threads s' ! 0) = 0 \<and>
    tr_retired (smr_threads s' ! 2) = []"
proof -
  have d: "length (smr_threads demo_ok) = 3" "tr_owner (smr_threads demo_ok ! 0) = 7" "tr_owner (smr_threads demo_ok ! 1) = 9"
    "tr_owner (smr_threads demo_ok ! 2) = 0" "tr_hazards (smr_threads demo_ok ! 1) = [16, 0]"
    by (simp_all add: demo_ok_def)
  obtain freed s' where r: "free_thread_data 0 demo_ok = Some (freed, s')" "detach_ok s'" "distinct freed"
    "set freed \<union> retired_set s' = retired_set demo_ok"
    "set freed \<inter> {h. h \<noteq> 0 \<and> (\<exists>i < length (smr_threads demo_ok). i \<noteq> 0 \<and> tr_owner (smr_threads demo_ok ! i) \<noteq> 0 \<and>
      h \<in> set (tr_hazards (smr_threads demo_ok ! i)))} = {}" "tr_owner (smr_threads s' ! 0) = 0"
    "\<forall>i < length (smr_threads demo_ok). i \<noteq> 0 \<and> tr_owner (smr_threads demo_ok ! i) = 0 \<longrightarrow> tr_retired (smr_threads s' ! i) = []"
    using detach_correct [OF demo_ok, of 0] d by auto
  have "\<exists>i < length (smr_threads demo_ok). i \<noteq> 0 \<and> tr_owner (smr_threads demo_ok ! i) \<noteq> 0 \<and>
      16 \<in> set (tr_hazards (smr_threads demo_ok ! i))"
    using d by (intro exI [of _ 1]) simp
  then have "16 \<notin> set freed" using r(5) by auto
  moreover have "tr_retired (smr_threads s' ! 2) = []" using r(7) d by simp
  ultimately show ?thesis using r by blast
qed

text \<open>C33: The classic scan looks only at the first retired pointer: if a guard holds that one, nothing is freed;
  otherwise everything is, guarded or not.\<close>

theorem classic_scan_first:
  assumes "tr_retired (smr_threads s ! tid) = p # ps"
  shows "classic_scan tid s =
    (if p \<in> set (hazard_ptrs s) then ([], set_retired tid (p # ps) s) else (p # ps, set_retired tid [] s))"
  using classic_scan_spec [OF assms] by simp

lemma classic_scan_first_witness:
  "16 \<in> set (hazard_ptrs demo_ok) \<and> fst (classic_scan 0 demo_ok) = [48, 16, 32]"
proof -
  have d: "hazard_ptrs demo_ok = [16]" "tr_retired (smr_threads demo_ok ! 0) = [48, 16, 32]"
    by (simp_all add: demo_ok_def hazard_ptrs_def)
  then show ?thesis using classic_scan_first [OF d(2)] by simp
qed

end
