(* ===== verification/Skip_List.thy ===== *)
theory Skip_List
  imports Hazard_Detach "HOL-Library.Monad_Syntax"
begin

text \<open>
  The skip list of libcds that \<^verbatim>\<open>src/src/skip_list.cpp\<close> instantiates as
  \<open>SkipListSet<cds::gc::HP, int64_t>\<close>: \<^verbatim>\<open>cds/intrusive/impl/skip_list.h\<close>,
  \<^verbatim>\<open>cds/intrusive/details/skip_list_base.h\<close>, \<^verbatim>\<open>cds/container/impl/skip_list_set.h\<close>,
  \<^verbatim>\<open>cds/container/details/make_skip_list_set.h\<close> and \<^verbatim>\<open>cds/container/details/skip_list_base.h\<close>.

  A node is a \<open>node_type\<close>: the intrusive node (its level-0 link \<open>m_pNext\<close>, height, tower \<open>m_arrNext\<close> of
  the links of the upper levels, and unlink counter) with the value. The head of a set lies at the
  address of the set object and has no value. An operation names the thread that runs it, whose guards it
  uses; the atomic operations run one after the other, so a compare-and-swap fails only when the value
  differs, but every retry and every branch for another thread's marks is there. An operation that
  follows a null or freed pointer, reads past a tower, runs out of guards or does not return is \<open>None\<close>.
\<close>

subsection \<open>Nodes and sets\<close>

record sl_node =
  sn_value :: "int64 option"
  sn_pNext :: marked_ptr
  sn_nHeight :: nat
  sn_arrNext :: "marked_ptr list"
  sn_nUnlink :: "32 word"

record sl_set =
  ss_nSeed :: "32 word"
  ss_nHeight :: nat

record cds_state =
  c_nodes :: "addr \<rightharpoonup> sl_node"
  c_sets :: "addr \<rightharpoonup> sl_set"
  c_smr :: smr

definition c_nMaxHeight :: nat where "c_nMaxHeight = c_nHeightLimit"
definition c_nMinHeight :: nat where "c_nMinHeight = 5"
definition c_nHazardPtrCount :: nat where "c_nHazardPtrCount = c_nMaxHeight * 2 + 3"

text \<open>\<open>node::next\<close>, as a value and as a place to store to.\<close>

definition sn_next :: "nat \<Rightarrow> sl_node \<Rightarrow> marked_ptr option" where
  "sn_next nLevel n =
     (if nLevel \<noteq> 0
      then if nLevel - 1 < length (sn_arrNext n) then Some (sn_arrNext n ! (nLevel - 1)) else None
      else Some (sn_pNext n))"

definition set_link :: "nat \<Rightarrow> marked_ptr \<Rightarrow> sl_node \<Rightarrow> sl_node" where
  "set_link nLevel p n =
     (if nLevel \<noteq> 0 then n\<lparr>sn_arrNext := (sn_arrNext n)[nLevel - 1 := p]\<rparr> else n\<lparr>sn_pNext := p\<rparr>)"

definition node_load :: "addr \<Rightarrow> nat \<Rightarrow> cds_state \<Rightarrow> marked_ptr option" where
  "node_load a nLevel s = do { n \<leftarrow> c_nodes s a; sn_next nLevel n }"

definition node_store :: "addr \<Rightarrow> nat \<Rightarrow> marked_ptr \<Rightarrow> cds_state \<Rightarrow> cds_state option" where
  "node_store a nLevel p s = do {
     n \<leftarrow> c_nodes s a;
     _ \<leftarrow> sn_next nLevel n;
     Some (s\<lparr>c_nodes := (c_nodes s)(a \<mapsto> set_link nLevel p n)\<rparr>)
   }"

text \<open>A compare-and-swap of a link: success and the value found there.\<close>

definition node_cas ::
  "addr \<Rightarrow> nat \<Rightarrow> marked_ptr \<Rightarrow> marked_ptr \<Rightarrow> cds_state \<Rightarrow> (bool \<times> marked_ptr \<times> cds_state) option" where
  "node_cas a nLevel expected desired s = do {
     cur \<leftarrow> node_load a nLevel s;
     if mp_eq cur expected then do { s \<leftarrow> node_store a nLevel desired s; Some (True, expected, s) }
     else Some (False, cur, s)
   }"

definition node_value :: "addr \<Rightarrow> cds_state \<Rightarrow> int64 option" where
  "node_value a s = do { n \<leftarrow> c_nodes s a; sn_value n }"

definition node_height :: "addr \<Rightarrow> cds_state \<Rightarrow> nat option" where
  "node_height a s = map_option sn_nHeight (c_nodes s a)"

definition level_unlinked :: "nat \<Rightarrow> addr \<Rightarrow> cds_state \<Rightarrow> (bool \<times> cds_state) option" where
  "level_unlinked nCount a s = do {
     n \<leftarrow> c_nodes s a;
     Some (sn_nUnlink n = 1,
           s\<lparr>c_nodes := (c_nodes s)(a \<mapsto> n\<lparr>sn_nUnlink := sn_nUnlink n - of_nat nCount\<rparr>)\<rparr>)
   }"

definition is_upper_level :: "nat \<Rightarrow> addr \<Rightarrow> cds_state \<Rightarrow> bool option" where
  "is_upper_level nLevel a s = map_option (\<lambda>n. sn_nUnlink n = of_nat nLevel + 1) (c_nodes s a)"

subsection \<open>Allocation of nodes\<close>

text \<open>\<open>node_allocator::New\<close> at the block \<open>a\<close> that the C++ allocator returned, with the constructors of
  \<open>node\<close> and \<open>node_type\<close>.\<close>

definition node_ctor :: "nat \<Rightarrow> int64 \<Rightarrow> sl_node" where
  "node_ctor nHeight v =
     (let n = \<lparr>sn_value = Some v, sn_pNext = 0, sn_nHeight = 1, sn_arrNext = [], sn_nUnlink = 1\<rparr> in
      if nHeight > 1
      then n\<lparr>sn_arrNext := replicate (nHeight - 1) 0, sn_nHeight := nHeight, sn_nUnlink := of_nat nHeight\<rparr>
      else n)"

definition node_New :: "addr \<Rightarrow> nat \<Rightarrow> int64 \<Rightarrow> cds_state \<Rightarrow> cds_state" where
  "node_New a nHeight v s = s\<lparr>c_nodes := (c_nodes s)(a \<mapsto> node_ctor nHeight v)\<rparr>"

text \<open>\<open>dispose_node\<close>: the disposer of the container returns the block to the allocator.\<close>

definition dispose_node :: "addr \<Rightarrow> cds_state \<Rightarrow> cds_state option" where
  "dispose_node p s =
     (case c_nodes s p of None \<Rightarrow> None | Some _ \<Rightarrow> Some (s\<lparr>c_nodes := (c_nodes s)(p := None)\<rparr>))"

fun dispose_all :: "addr list \<Rightarrow> cds_state \<Rightarrow> cds_state option" where
  "dispose_all [] s = Some s"
| "dispose_all (p # ps) s = do { s \<leftarrow> dispose_node p s; dispose_all ps s }"

definition gc_retire :: "nat \<Rightarrow> addr \<Rightarrow> cds_state \<Rightarrow> cds_state option" where
  "gc_retire tid p s = do {
     (freed, smr) \<leftarrow> retire tid p (c_smr s);
     dispose_all freed (s\<lparr>c_smr := smr\<rparr>)
   }"

subsection \<open>Guards of the running thread\<close>

definition thread_of :: "nat \<Rightarrow> cds_state \<Rightarrow> thread_record" where
  "thread_of tid s = smr_threads (c_smr s) ! tid"

definition set_thread :: "nat \<Rightarrow> thread_record \<Rightarrow> cds_state \<Rightarrow> cds_state" where
  "set_thread tid r s = s\<lparr>c_smr := (c_smr s)\<lparr>smr_threads := (smr_threads (c_smr s))[tid := r]\<rparr>\<rparr>"

text \<open>The constructors and destructors of \<open>Guard\<close> and \<open>GuardArray\<close>.\<close>

definition new_guard :: "nat \<Rightarrow> cds_state \<Rightarrow> (nat \<times> cds_state) option" where
  "new_guard tid s = do { (g, r) \<leftarrow> guard_alloc (thread_of tid s); Some (g, set_thread tid r s) }"

definition drop_guard :: "nat \<Rightarrow> nat \<Rightarrow> cds_state \<Rightarrow> cds_state" where
  "drop_guard tid g s = set_thread tid (guard_free g (thread_of tid s)) s"

definition new_guards :: "nat \<Rightarrow> nat \<Rightarrow> cds_state \<Rightarrow> (nat list \<times> cds_state) option" where
  "new_guards n tid s = do { (gs, r) \<leftarrow> guard_array_alloc n (thread_of tid s); Some (gs, set_thread tid r s) }"

definition drop_guards :: "nat \<Rightarrow> nat list \<Rightarrow> cds_state \<Rightarrow> cds_state" where
  "drop_guards tid gs s = set_thread tid (guard_array_free gs (thread_of tid s)) s"

definition assign :: "nat \<Rightarrow> nat \<Rightarrow> addr \<Rightarrow> cds_state \<Rightarrow> cds_state" where
  "assign tid g p s = set_thread tid (guard_set g p (thread_of tid s)) s"

text \<open>\<open>GuardArray::copy\<close> of the slot \<open>j\<close> to the slot \<open>i\<close>.\<close>

definition copy :: "nat \<Rightarrow> nat list \<Rightarrow> nat \<Rightarrow> nat \<Rightarrow> cds_state \<Rightarrow> cds_state" where
  "copy tid gs i j s = assign tid (gs ! i) (guard_get (gs ! j) (thread_of tid s)) s"

text \<open>\<open>protect\<close> with \<open>gc_protect\<close>: assign the pointer loaded from the link until the link still has it.\<close>

partial_function (option) protect ::
  "nat \<Rightarrow> nat \<Rightarrow> addr \<Rightarrow> nat \<Rightarrow> cds_state \<Rightarrow> (marked_ptr \<times> cds_state) option" where
  "protect tid g a nLevel s = do {
     p \<leftarrow> node_load a nLevel s;
     let s = assign tid g (mp_ptr p) s;
     q \<leftarrow> node_load a nLevel s;
     if p = q then Some (p, s) else protect tid g a nLevel s
   }"

subsection \<open>Finding a position\<close>

record position =
  pPrev :: "addr list"
  pSucc :: "addr list"
  guards :: "nat list"
  pCur :: addr

definition new_position :: "nat \<Rightarrow> cds_state \<Rightarrow> (position \<times> cds_state) option" where
  "new_position tid s = do {
     (gs, s) \<leftarrow> new_guards (c_nMaxHeight * 2) tid s;
     Some (\<lparr>pPrev = replicate c_nMaxHeight 0, pSucc = replicate c_nMaxHeight 0, guards = gs, pCur = 0\<rparr>, s)
   }"

definition drop_position :: "nat \<Rightarrow> position \<Rightarrow> cds_state \<Rightarrow> cds_state" where
  "drop_position tid pos s = drop_guards tid (guards pos) s"

definition help_remove :: "nat \<Rightarrow> nat \<Rightarrow> addr \<Rightarrow> marked_ptr \<Rightarrow> cds_state \<Rightarrow> cds_state option" where
  "help_remove tid nLevel pPred cur s = do {
     upper \<leftarrow> is_upper_level nLevel (mp_ptr cur) s;
     if upper then do {
       (hp, s) \<leftarrow> new_guard tid s;
       (succ, s) \<leftarrow> protect tid hp (mp_ptr cur) nLevel s;
       s \<leftarrow> (if mp_bits succ \<noteq> 0 then do {
               (ok, _, s) \<leftarrow> node_cas pPred nLevel (mp_ptr cur) (mp_ptr succ) s;
               if ok then do {
                 (last_level, s) \<leftarrow> level_unlinked 1 (mp_ptr cur) s;
                 if last_level then gc_retire tid (mp_ptr cur) s else Some s
               } else Some s
             } else Some s);
       Some (drop_guard tid hp s)
     } else Some s
   }"

text \<open>What one turn of the inner loop of the functions that find a position does: \<open>goto retry\<close>, go on from
  the current node at the same level, leave the loop for the next level, \<open>goto found\<close>, or return false. The
  number is \<open>nCmp\<close>.\<close>

datatype walk = W_retry | W_next addr int | W_down addr int | W_found addr int | W_abort

text \<open>The part of the loop body that these functions share: \<open>rest\<close> is what follows the check of the mark
  of the current node, \<open>marked\<close> what is done when it is marked.\<close>

definition walk_step ::
  "nat \<Rightarrow> (addr \<Rightarrow> marked_ptr \<Rightarrow> cds_state \<Rightarrow> (walk \<times> cds_state) option)
    \<Rightarrow> (marked_ptr \<Rightarrow> cds_state \<Rightarrow> (walk \<times> cds_state) option)
    \<Rightarrow> nat \<Rightarrow> addr \<Rightarrow> int \<Rightarrow> nat list \<Rightarrow> cds_state \<Rightarrow> (walk \<times> cds_state) option" where
  "walk_step tid rest marked nLevel pPred nCmp gs s = do {
     (cur, s) \<leftarrow> protect tid (gs ! (nLevel * 2 + 1)) pPred nLevel s;
     if mp_bits cur \<noteq> 0 then Some (W_retry, s)
     else if mp_ptr cur = 0 then Some (W_down 0 nCmp, s)
     else do {
       succ \<leftarrow> node_load (mp_ptr cur) nLevel s;
       again \<leftarrow> node_load pPred nLevel s;
       if mp_all again \<noteq> mp_ptr cur then Some (W_retry, s)
       else if mp_bits succ \<noteq> 0 then marked cur s
       else rest (mp_ptr cur) succ s
     }
   }"

definition help_and_retry :: "nat \<Rightarrow> nat \<Rightarrow> addr \<Rightarrow> marked_ptr \<Rightarrow> cds_state \<Rightarrow> (walk \<times> cds_state) option" where
  "help_and_retry tid nLevel pPred cur s = do { s \<leftarrow> help_remove tid nLevel pPred cur s; Some (W_retry, s) }"

definition find_step ::
  "nat \<Rightarrow> int64 \<Rightarrow> bool \<Rightarrow> nat \<Rightarrow> addr \<Rightarrow> int \<Rightarrow> nat list \<Rightarrow> cds_state \<Rightarrow> (walk \<times> cds_state) option" where
  "find_step tid val bStopIfFound nLevel pPred nCmp gs s =
     walk_step tid
       (\<lambda>cur succ s. do {
          v \<leftarrow> node_value cur s;
          let nCmp = key_comparator v val;
          if nCmp < 0 then Some (W_next cur nCmp, copy tid gs (nLevel * 2) (nLevel * 2 + 1) s)
          else if nCmp = 0 \<and> bStopIfFound then Some (W_found cur nCmp, s)
          else Some (W_down cur nCmp, s)
        })
       (help_and_retry tid nLevel pPred) nLevel pPred nCmp gs s"

definition renew_step ::
  "nat \<Rightarrow> int64 \<Rightarrow> addr \<Rightarrow> nat \<Rightarrow> addr \<Rightarrow> int \<Rightarrow> nat list \<Rightarrow> cds_state \<Rightarrow> (walk \<times> cds_state) option" where
  "renew_step tid val pNode nLevel pPred nCmp gs s =
     walk_step tid
       (\<lambda>cur succ s. do {
          v \<leftarrow> node_value cur s;
          let nCmp = key_comparator v val;
          if nCmp < 0 then Some (W_next cur nCmp, copy tid gs (nLevel * 2) (nLevel * 2 + 1) s)
          else Some (W_down cur nCmp, s)
        })
       (\<lambda>cur s. if mp_ptr cur = pNode then Some (W_abort, s) else help_and_retry tid nLevel pPred cur s)
       nLevel pPred nCmp gs s"

text \<open>The loop over the levels around it, from \<open>nLevel\<close> down.\<close>

partial_function (option) walk_loop ::
  "(nat \<Rightarrow> addr \<Rightarrow> int \<Rightarrow> nat list \<Rightarrow> cds_state \<Rightarrow> (walk \<times> cds_state) option) \<Rightarrow> nat \<Rightarrow> addr
    \<Rightarrow> nat \<Rightarrow> addr \<Rightarrow> int \<Rightarrow> position \<Rightarrow> cds_state \<Rightarrow> (walk \<times> position \<times> cds_state) option" where
  "walk_loop step tid head nLevel pPred nCmp pos s = do {
     (w, s) \<leftarrow> step nLevel pPred nCmp (guards pos) s;
     case w of
       W_retry \<Rightarrow> walk_loop step tid head (c_nMaxHeight - 1) head 1 pos
                   (assign tid (guards pos ! ((c_nMaxHeight - 1) * 2)) head s)
     | W_next cur nCmp \<Rightarrow> walk_loop step tid head nLevel cur nCmp pos s
     | W_down cur nCmp \<Rightarrow>
         (let pos = pos\<lparr>pPrev := (pPrev pos)[nLevel := pPred], pSucc := (pSucc pos)[nLevel := cur]\<rparr> in
          if nLevel = 0 then Some (W_down cur nCmp, pos, s)
          else walk_loop step tid head (nLevel - 1) pPred nCmp pos
                 (assign tid (guards pos ! ((nLevel - 1) * 2)) pPred s))
     | W_found cur nCmp \<Rightarrow> Some (W_found cur nCmp, pos, s)
     | W_abort \<Rightarrow> Some (W_abort, pos, s)
   }"

definition walk_levels ::
  "(nat \<Rightarrow> addr \<Rightarrow> int \<Rightarrow> nat list \<Rightarrow> cds_state \<Rightarrow> (walk \<times> cds_state) option) \<Rightarrow> nat \<Rightarrow> addr
    \<Rightarrow> position \<Rightarrow> cds_state \<Rightarrow> (walk \<times> position \<times> cds_state) option" where
  "walk_levels step tid head pos s =
     walk_loop step tid head (c_nMaxHeight - 1) head 1 pos
       (assign tid (guards pos ! ((c_nMaxHeight - 1) * 2)) head s)"

definition find_position ::
  "nat \<Rightarrow> addr \<Rightarrow> int64 \<Rightarrow> bool \<Rightarrow> position \<Rightarrow> cds_state \<Rightarrow> (bool \<times> position \<times> cds_state) option" where
  "find_position tid head val bStopIfFound pos s = do {
     (w, pos, s) \<leftarrow> walk_levels (find_step tid val bStopIfFound) tid head pos s;
     case w of
       W_down cur nCmp \<Rightarrow>
         if nCmp \<noteq> 0 then Some (False, pos, s)
         else Some (cur \<noteq> 0 \<and> nCmp = 0, pos\<lparr>pCur := cur\<rparr>, s)
     | W_found cur nCmp \<Rightarrow> Some (cur \<noteq> 0 \<and> nCmp = 0, pos\<lparr>pCur := cur\<rparr>, s)
     | _ \<Rightarrow> None
   }"

definition renew_insert_position ::
  "nat \<Rightarrow> addr \<Rightarrow> int64 \<Rightarrow> addr \<Rightarrow> position \<Rightarrow> cds_state \<Rightarrow> (bool \<times> position \<times> cds_state) option" where
  "renew_insert_position tid head val pNode pos s = do {
     (w, pos, s) \<leftarrow> walk_levels (renew_step tid val pNode) tid head pos s;
     case w of
       W_down cur nCmp \<Rightarrow> Some (nCmp = 0, pos, s)
     | W_abort \<Rightarrow> Some (False, pos, s)
     | _ \<Rightarrow> None
   }"

subsection \<open>Inserting\<close>

fun clear_levels :: "addr \<Rightarrow> nat list \<Rightarrow> cds_state \<Rightarrow> cds_state option" where
  "clear_levels pNode [] s = Some s"
| "clear_levels pNode (nLevel # ls) s = do { s \<leftarrow> node_store pNode nLevel 0 s; clear_levels pNode ls s }"

text \<open>The loop of \<open>insert_at_position\<close> over the levels from 1 up: \<open>p\<close> is the link expected in the node.\<close>

partial_function (option) link_levels ::
  "nat \<Rightarrow> addr \<Rightarrow> int64 \<Rightarrow> addr \<Rightarrow> nat \<Rightarrow> nat \<Rightarrow> marked_ptr \<Rightarrow> position \<Rightarrow> cds_state \<Rightarrow> (position \<times> cds_state) option"
where
  "link_levels tid head val pNode nHeight nLevel p pos s =
     (if nLevel < nHeight then do {
        let succ = pSucc pos ! nLevel;
        (ok, _, s) \<leftarrow> node_cas pNode nLevel p succ s;
        if \<not> ok then do {
          (_, s) \<leftarrow> level_unlinked (nHeight - nLevel) pNode s;
          (_, pos, s) \<leftarrow> find_position tid head val False pos s;
          Some (pos, s)
        } else do {
          (linked, _, s) \<leftarrow> node_cas (pPrev pos ! nLevel) nLevel succ pNode s;
          if linked then link_levels tid head val pNode nHeight (Suc nLevel) 0 pos s
          else do {
            (renewed, pos, s) \<leftarrow> renew_insert_position tid head val pNode pos s;
            if \<not> renewed then do {
              (_, s) \<leftarrow> level_unlinked (nHeight - nLevel) pNode s;
              (_, pos, s) \<leftarrow> find_position tid head val False pos s;
              Some (pos, s)
            } else link_levels tid head val pNode nHeight nLevel succ pos s
          }
        }
      } else Some (pos, s))"

definition insert_at_position ::
  "nat \<Rightarrow> addr \<Rightarrow> int64 \<Rightarrow> addr \<Rightarrow> position \<Rightarrow> cds_state \<Rightarrow> (bool \<times> position \<times> cds_state) option" where
  "insert_at_position tid head val pNode pos s = do {
     nHeight \<leftarrow> node_height pNode s;
     s \<leftarrow> clear_levels pNode [1..<nHeight] s;
     let p = pSucc pos ! 0;
     s \<leftarrow> node_store pNode 0 p s;
     (ok, _, s) \<leftarrow> node_cas (pPrev pos ! 0) 0 p pNode s;
     if \<not> ok then Some (False, pos, s)
     else do {
       (pos, s) \<leftarrow> link_levels tid head val pNode nHeight 1 0 pos s;
       Some (True, pos, s)
     }
   }"

definition increase_height :: "addr \<Rightarrow> nat \<Rightarrow> cds_state \<Rightarrow> cds_state option" where
  "increase_height head nHeight s = do {
     st \<leftarrow> c_sets s head;
     Some (if ss_nHeight st < nHeight then s\<lparr>c_sets := (c_sets s)(head \<mapsto> st\<lparr>ss_nHeight := nHeight\<rparr>)\<rparr> else s)
   }"

text \<open>The tower is made with the node (\<open>dummy_node_builder\<close>), so \<open>build_node\<close> changes nothing.\<close>

partial_function (option) set_insert_loop ::
  "nat \<Rightarrow> addr \<Rightarrow> int64 \<Rightarrow> addr \<Rightarrow> position \<Rightarrow> cds_state \<Rightarrow> (bool \<times> position \<times> cds_state) option" where
  "set_insert_loop tid head val pNode pos s = do {
     (found, pos, s) \<leftarrow> find_position tid head val True pos s;
     if found then Some (False, pos, s)
     else do {
       nHeight \<leftarrow> node_height pNode s;
       (ok, pos, s) \<leftarrow> insert_at_position tid head val pNode pos s;
       if \<not> ok then set_insert_loop tid head val pNode pos s
       else do { s \<leftarrow> increase_height head nHeight s; Some (True, pos, s) }
     }
   }"

definition insert_node :: "nat \<Rightarrow> addr \<Rightarrow> addr \<Rightarrow> cds_state \<Rightarrow> (bool \<times> cds_state) option" where
  "insert_node tid head pNode s = do {
     (gNew, s) \<leftarrow> new_guard tid s;
     let s = assign tid gNew pNode s;
     val \<leftarrow> node_value pNode s;
     (pos, s) \<leftarrow> new_position tid s;
     (r, pos, s) \<leftarrow> set_insert_loop tid head val pNode pos s;
     Some (r, drop_guard tid gNew (drop_position tid pos s))
   }"

text \<open>\<open>container::SkipListSet::insert\<close>; \<open>a\<close> is the block that the allocator returns for the node.\<close>

definition set_insert :: "nat \<Rightarrow> addr \<Rightarrow> addr \<Rightarrow> int64 \<Rightarrow> cds_state \<Rightarrow> (bool \<times> cds_state) option" where
  "set_insert tid head a val s = do {
     st \<leftarrow> c_sets s head;
     let (nHeight, nSeed) = random_level (ss_nSeed st);
     let s = s\<lparr>c_sets := (c_sets s)(head \<mapsto> st\<lparr>ss_nSeed := nSeed\<rparr>)\<rparr>;
     let s = node_New a nHeight val s;
     (r, s) \<leftarrow> insert_node tid head a s;
     if r then Some (True, s) else do { s \<leftarrow> dispose_node a s; Some (False, s) }
   }"

subsection \<open>Erasing\<close>

text \<open>Marking a link of the node to erase: the loop of the compare-and-swap.\<close>

partial_function (option) mark_level :: "addr \<Rightarrow> nat \<Rightarrow> marked_ptr \<Rightarrow> cds_state \<Rightarrow> cds_state option" where
  "mark_level pDel nLevel succ s = do {
     (ok, cur, s) \<leftarrow> node_cas pDel nLevel succ (mp_or succ 1) s;
     if ok \<or> mp_bits cur \<noteq> 0 then Some s else mark_level pDel nLevel cur s
   }"

fun mark_levels :: "addr \<Rightarrow> nat list \<Rightarrow> cds_state \<Rightarrow> cds_state option" where
  "mark_levels pDel [] s = Some s"
| "mark_levels pDel (nLevel # ls) s = do {
     succ \<leftarrow> node_load pDel nLevel s;
     s \<leftarrow> (if mp_bits succ = 0 then mark_level pDel nLevel succ s else Some s);
     mark_levels pDel ls s
   }"

text \<open>The physical deletion, from level \<open>n - 1\<close> down to 0.\<close>

fun unlink_levels ::
  "nat \<Rightarrow> addr \<Rightarrow> addr \<Rightarrow> nat \<Rightarrow> position \<Rightarrow> cds_state \<Rightarrow> (position \<times> cds_state) option" where
  "unlink_levels tid head pDel 0 pos s = do { s \<leftarrow> gc_retire tid pDel s; Some (pos, s) }"
| "unlink_levels tid head pDel (Suc nLevel) pos s = do {
     succ \<leftarrow> node_load pDel nLevel s;
     (ok, _, s) \<leftarrow> node_cas (pPrev pos ! nLevel) nLevel pDel (mp_ptr succ) s;
     if ok then do {
       (_, s) \<leftarrow> level_unlinked 1 pDel s;
       unlink_levels tid head pDel nLevel pos s
     } else do {
       v \<leftarrow> node_value pDel s;
       (_, pos, s) \<leftarrow> find_position tid head v False pos s;
       Some (pos, s)
     }
   }"

text \<open>The loop that marks level 0 and, when this thread marked it, unlinks the node.\<close>

partial_function (option) set_remove_loop ::
  "nat \<Rightarrow> addr \<Rightarrow> addr \<Rightarrow> nat \<Rightarrow> marked_ptr \<Rightarrow> position \<Rightarrow> cds_state \<Rightarrow> (bool \<times> position \<times> cds_state) option"
where
  "set_remove_loop tid head pDel nHeight p pos s = do {
     (ok, cur, s) \<leftarrow> node_cas pDel 0 p (mp_or p 1) s;
     if ok then do {
       (pos, s) \<leftarrow> unlink_levels tid head pDel nHeight pos s;
       Some (True, pos, s)
     }
     else if mp_bits cur \<noteq> 0 then Some (False, pos, s)
     else set_remove_loop tid head pDel nHeight cur pos s
   }"

definition try_remove_at ::
  "nat \<Rightarrow> addr \<Rightarrow> addr \<Rightarrow> position \<Rightarrow> cds_state \<Rightarrow> (bool \<times> position \<times> cds_state) option" where
  "try_remove_at tid head pDel pos s = do {
     nHeight \<leftarrow> node_height pDel s;
     s \<leftarrow> mark_levels pDel (rev [1..<nHeight]) s;
     p \<leftarrow> node_load pDel 0 s;
     set_remove_loop tid head pDel nHeight (mp_ptr p) pos s
   }"

text \<open>\<open>erase_\<close>; \<open>set_erase\<close> is \<open>container::SkipListSet::erase\<close>.\<close>

definition set_erase :: "nat \<Rightarrow> addr \<Rightarrow> int64 \<Rightarrow> cds_state \<Rightarrow> (bool \<times> cds_state) option" where
  "set_erase tid head val s = do {
     (pos, s) \<leftarrow> new_position tid s;
     (found, pos, s) \<leftarrow> find_position tid head val False pos s;
     if \<not> found then Some (False, drop_position tid pos s)
     else do {
       let pDel = pCur pos;
       (gDel, s) \<leftarrow> new_guard tid s;
       let s = assign tid gDel pDel s;
       (r, pos, s) \<leftarrow> try_remove_at tid head pDel pos s;
       Some (r, drop_position tid pos (drop_guard tid gDel s))
     }
   }"

subsection \<open>Searching\<close>

datatype find_fastpath_result = find_fastpath_found | find_fastpath_not_found | find_fastpath_abort

text \<open>The loops of \<open>find_fastpath\<close>, at the head of the inner one; \<open>gs\<close> are its two guards.\<close>

partial_function (option) fastpath_loop ::
  "nat \<Rightarrow> addr \<Rightarrow> int64 \<Rightarrow> nat list \<Rightarrow> nat \<Rightarrow> nat \<Rightarrow> addr \<Rightarrow> marked_ptr \<Rightarrow> cds_state
    \<Rightarrow> (find_fastpath_result \<times> cds_state) option" where
  "fastpath_loop tid head val gs attempt nLevel pPred cur s =
     (if \<not> mp_eq cur 0 \<and> mp_bits cur \<noteq> 0 then
        (if Suc attempt < 4 then do {
           st \<leftarrow> c_sets s head;
           if ss_nHeight st = 0 then Some (find_fastpath_not_found, s)
           else do {
             (cur, s) \<leftarrow> protect tid (gs ! 1) head (ss_nHeight st - 1) s;
             fastpath_loop tid head val gs (Suc attempt) (ss_nHeight st - 1) head cur s
           }
         } else Some (find_fastpath_abort, s))
      else do {
        nCmp \<leftarrow> (if mp_eq cur 0 then Some 1
                else do { v \<leftarrow> node_value (mp_ptr cur) s; Some (key_comparator v val) });
        if nCmp < 0 then do {
          let s = copy tid gs 0 1 s;
          (succ, s) \<leftarrow> protect tid (gs ! 1) (mp_ptr cur) nLevel s;
          fastpath_loop tid head val gs attempt nLevel (mp_ptr cur) succ s
        }
        else if nCmp = 0 then Some (find_fastpath_found, s)
        else if nLevel = 0 then Some (find_fastpath_not_found, s)
        else do {
          (cur, s) \<leftarrow> protect tid (gs ! 1) pPred (nLevel - 1) s;
          fastpath_loop tid head val gs attempt (nLevel - 1) pPred cur s
        }
      })"

definition find_fastpath :: "nat \<Rightarrow> addr \<Rightarrow> int64 \<Rightarrow> cds_state \<Rightarrow> (find_fastpath_result \<times> cds_state) option" where
  "find_fastpath tid head val s = do {
     (gs, s) \<leftarrow> new_guards 2 tid s;
     st \<leftarrow> c_sets s head;
     (r, s) \<leftarrow> (if ss_nHeight st = 0 then Some (find_fastpath_not_found, s)
               else do {
                 (cur, s) \<leftarrow> protect tid (gs ! 1) head (ss_nHeight st - 1) s;
                 fastpath_loop tid head val gs 0 (ss_nHeight st - 1) head cur s
               });
     Some (r, drop_guards tid gs s)
   }"

definition find_slowpath :: "nat \<Rightarrow> addr \<Rightarrow> int64 \<Rightarrow> cds_state \<Rightarrow> (bool \<times> cds_state) option" where
  "find_slowpath tid head val s = do {
     (pos, s) \<leftarrow> new_position tid s;
     (found, pos, s) \<leftarrow> find_position tid head val True pos s;
     Some (found, drop_position tid pos s)
   }"

text \<open>\<open>find_with_\<close>; \<open>set_contains\<close> is \<open>container::SkipListSet::contains\<close>.\<close>

definition set_contains :: "nat \<Rightarrow> addr \<Rightarrow> int64 \<Rightarrow> cds_state \<Rightarrow> (bool \<times> cds_state) option" where
  "set_contains tid head val s = do {
     (r, s) \<leftarrow> find_fastpath tid head val s;
     case r of
       find_fastpath_found \<Rightarrow> Some (True, s)
     | find_fastpath_not_found \<Rightarrow> Some (False, s)
     | find_fastpath_abort \<Rightarrow> find_slowpath tid head val s
   }"

subsection \<open>Construction and destruction\<close>

text \<open>The head node, at the address of the set; \<open>nSeed\<close> is the random seed of the level generator.\<close>

definition head_node :: "nat \<Rightarrow> sl_node" where
  "head_node nHeight =
     \<lparr>sn_value = None, sn_pNext = 0, sn_nHeight = nHeight, sn_arrNext = replicate c_nHeightLimit 0,
      sn_nUnlink = of_nat nHeight\<rparr>"

definition set_ctor :: "addr \<Rightarrow> 32 word \<Rightarrow> cds_state \<Rightarrow> cds_state option" where
  "set_ctor head nSeed s =
     (if check_hazard_ptr_count c_nHazardPtrCount (c_smr s)
      then Some (s\<lparr>c_nodes := (c_nodes s)(head \<mapsto> head_node c_nMaxHeight),
                   c_sets := (c_sets s)(head \<mapsto> \<lparr>ss_nSeed = nSeed, ss_nHeight = c_nMinHeight\<rparr>)\<rparr>)
      else None)"

partial_function (option) destroy_loop :: "addr \<Rightarrow> cds_state \<Rightarrow> cds_state option" where
  "destroy_loop p s =
     (if p = 0 then Some s
      else do {
        succ \<leftarrow> node_load p 0 s;
        s \<leftarrow> dispose_node p s;
        destroy_loop (mp_ptr succ) s
      })"

definition set_dtor :: "addr \<Rightarrow> cds_state \<Rightarrow> cds_state option" where
  "set_dtor head s = do {
     p \<leftarrow> node_load head 0 s;
     s \<leftarrow> destroy_loop (mp_ptr p) s;
     Some (s\<lparr>c_nodes := (c_nodes s)(head := None), c_sets := (c_sets s)(head := None)\<rparr>)
   }"

definition set_empty :: "addr \<Rightarrow> cds_state \<Rightarrow> bool option" where
  "set_empty head s = map_option (\<lambda>p. p = 0) (node_load head 0 s)"

end
