(* ===== verification/Conc_Commands.thy ===== *)
theory Conc_Commands
  imports Skip_List Event_Queue Redis_Server Llca_Commands
begin

text \<open>
  The skip-list commands of \<^verbatim>\<open>src/src/skip_list.cpp\<close>: the object \<open>llca_conc_obj\<close>, the helpers
  \<open>check_arity\<close>, \<open>string_to_longlong\<close> and \<open>lookup_key\<close>, the type methods, the five event classes and
  \<open>LLCA_Conc_OnLoad\<close>.

  The state adds that of libcds (\<open>st_cds\<close>) and the static variable \<open>llca_conc\<close>. \<open>tid\<close> is the thread
  that runs the code, by the position of its hazard-pointer record. A \<open>platform\<close> gives what the C++
  runtime supplies: the address that \<^verbatim>\<open>operator new\<close> returns when \<open>live\<close> are the addresses in use, the
  random seed of a new level generator, and the size of the object in memory.

  The block of an object is that of its list's head: the destructor takes it out of \<open>st_cds\<close>, and
  \<open>RedisModule_Free\<close> after it has no effect but the call. What is printed to \<^verbatim>\<open>std::cerr\<close> is left out.
\<close>

subsection \<open>State\<close>

record 'w conc_state = "'w llca_state" +
  st_cds :: cds_state
  st_llca_conc :: addr

record 'w platform =
  p_new :: "addr set \<Rightarrow> addr"
  p_random_seed :: "'w \<Rightarrow> 32 word"
  p_sizeof_llca_conc_obj :: size64

definition conc_live :: "('w, 'm) conc_state_scheme \<Rightarrow> addr set" where
  "conc_live st = llca_live (st_ll st) \<union> dom (c_nodes (st_cds st))"

subsection \<open>The object\<close>

definition conc_insert :: "'w platform \<Rightarrow> nat \<Rightarrow> addr \<Rightarrow> int64 \<Rightarrow>
    ('w, 'm) conc_state_scheme \<Rightarrow> (bool \<times> ('w, 'm) conc_state_scheme) option" where
  "conc_insert pf tid obj val st = do {
     (r, s) \<leftarrow> set_insert tid obj (p_new pf (conc_live st)) val (st_cds st);
     Some (r, st\<lparr>st_cds := s\<rparr>)
   }"

definition conc_remove :: "nat \<Rightarrow> addr \<Rightarrow> int64 \<Rightarrow>
    ('w, 'm) conc_state_scheme \<Rightarrow> (bool \<times> ('w, 'm) conc_state_scheme) option" where
  "conc_remove tid obj val st = do {
     (r, s) \<leftarrow> set_erase tid obj val (st_cds st);
     Some (r, st\<lparr>st_cds := s\<rparr>)
   }"

definition conc_contains :: "nat \<Rightarrow> addr \<Rightarrow> int64 \<Rightarrow>
    ('w, 'm) conc_state_scheme \<Rightarrow> (bool \<times> ('w, 'm) conc_state_scheme) option" where
  "conc_contains tid obj val st = do {
     (r, s) \<leftarrow> set_contains tid obj val (st_cds st);
     Some (r, st\<lparr>st_cds := s\<rparr>)
   }"

text \<open>Placement \<^verbatim>\<open>new\<close> of the object at \<open>a\<close>, and the explicit destructor call.\<close>

definition conc_construct :: "'w platform \<Rightarrow> addr \<Rightarrow>
    ('w, 'm) conc_state_scheme \<Rightarrow> ('w, 'm) conc_state_scheme option" where
  "conc_construct pf a st = do {
     s \<leftarrow> set_ctor a (p_random_seed pf (st_srv st)) (st_cds st);
     Some (st\<lparr>st_cds := s\<rparr>)
   }"

definition conc_destruct :: "addr \<Rightarrow> ('w, 'm) conc_state_scheme \<Rightarrow> ('w, 'm) conc_state_scheme option" where
  "conc_destruct a st = do { s \<leftarrow> set_dtor a (st_cds st); Some (st\<lparr>st_cds := s\<rparr>) }"

subsection \<open>Helpers\<close>

definition check_arity :: "'w redis_api \<Rightarrow> addr \<Rightarrow> int \<Rightarrow> int \<Rightarrow> ('w, 'm) host_state_scheme \<Rightarrow>
    bool \<times> ('w, 'm) host_state_scheme" where
  "check_arity api ctx argc expected st =
     (if argc \<noteq> expected
      then let (_, st) = RedisModule_ReplyWithError api ctx ''ERR: wrong arity'' st in (False, st)
      else (True, st))"

definition string_to_longlong :: "'w redis_api \<Rightarrow> addr \<Rightarrow> string \<Rightarrow> ('w, 'm) host_state_scheme \<Rightarrow>
    int64 option \<times> ('w, 'm) host_state_scheme" where
  "string_to_longlong api ctx str st =
     (let ((r, value), st) = RedisModule_StringToLongLong api str st in
      if r \<noteq> REDISMODULE_OK
      then let (_, st) = RedisModule_ReplyWithError api ctx
                 ''ERR invalid value: must be a signed 64 bit integer'' st
           in (None, st)
      else (Some value, st))"

definition lookup_key :: "'w redis_api \<Rightarrow> addr \<Rightarrow> string \<Rightarrow> bool \<Rightarrow> ('w, 'm) conc_state_scheme \<Rightarrow>
    addr \<times> ('w, 'm) conc_state_scheme" where
  "lookup_key api ctx key_str thread_safe st =
     (let (key, st) = RedisModule_OpenKey api ctx key_str (or REDISMODULE_READ REDISMODULE_WRITE) st;
          (type, st) = RedisModule_KeyType api key st;
          (wrong, st) =
            (if type \<noteq> REDISMODULE_KEYTYPE_EMPTY
             then let (mt, st) = RedisModule_ModuleTypeGetType api key st in (mt \<noteq> st_llca_conc st, st)
             else (False, st))
      in
      if wrong
      then let (_, st) = RedisModule_ReplyWithError api ctx REDISMODULE_ERRORMSG_WRONGTYPE st in (0, st)
      else if type = REDISMODULE_KEYTYPE_EMPTY
      then let (_, st) = RedisModule_ReplyWithError api ctx ''ERR: no list exists for that key'' st in (0, st)
      else RedisModule_ModuleTypeGetValue api key st)"

subsection \<open>Type methods\<close>

definition llca_conc_rdb_load :: "addr \<Rightarrow> int \<Rightarrow> ('w, 'm) conc_state_scheme \<Rightarrow> addr \<times> ('w, 'm) conc_state_scheme" where
  "llca_conc_rdb_load rdb encver st = (0, st)"

definition llca_conc_rdb_save :: "addr \<Rightarrow> addr \<Rightarrow> ('w, 'm) conc_state_scheme \<Rightarrow> ('w, 'm) conc_state_scheme" where
  "llca_conc_rdb_save rdb value st = st"

definition llca_conc_aof_rewrite :: "addr \<Rightarrow> string \<Rightarrow> addr \<Rightarrow> ('w, 'm) conc_state_scheme \<Rightarrow> ('w, 'm) conc_state_scheme" where
  "llca_conc_aof_rewrite aof key value st = st"

definition llca_conc_mem_usage :: "addr \<Rightarrow> ('w, 'm) conc_state_scheme \<Rightarrow> size64" where
  "llca_conc_mem_usage value st = 0"

definition llca_conc_free :: "addr \<Rightarrow> ('w, 'm) conc_state_scheme \<Rightarrow> ('w, 'm) conc_state_scheme" where
  "llca_conc_free value st = st"

definition llca_conc_digest :: "addr \<Rightarrow> addr \<Rightarrow> ('w, 'm) conc_state_scheme \<Rightarrow> ('w, 'm) conc_state_scheme" where
  "llca_conc_digest md value st = st"

subsection \<open>Events\<close>

text \<open>The lock calls, made only by an event that runs on a worker.\<close>

definition lock_unless :: "'w redis_api \<Rightarrow> bool \<Rightarrow> addr \<Rightarrow> ('w, 'm) host_state_scheme \<Rightarrow> ('w, 'm) host_state_scheme" where
  "lock_unless api ts ctx st = (if \<not> ts then snd (RedisModule_ThreadSafeContextLock api ctx st) else st)"

definition unlock_unless :: "'w redis_api \<Rightarrow> bool \<Rightarrow> addr \<Rightarrow> ('w, 'm) host_state_scheme \<Rightarrow> ('w, 'm) host_state_scheme" where
  "unlock_unless api ts ctx st = (if \<not> ts then snd (RedisModule_ThreadSafeContextUnlock api ctx st) else st)"

definition llca_conc_create_event_execute :: "'w redis_api \<Rightarrow> 'w platform \<Rightarrow> event \<Rightarrow>
    ('w, 'm) conc_state_scheme \<Rightarrow> ('w, 'm) conc_state_scheme option" where
  "llca_conc_create_event_execute api pf e st =
     (let ctx = ev_ctx e; (ok, st) = check_arity api ctx (ev_argc e) 2 st in
      if \<not> ok then Some st
      else do {
        let st = lock_unless api (ev_thread_safe e) ctx st;
        arg1 \<leftarrow> at (ev_argv e) 1;
        let (key, st) = RedisModule_OpenKey api ctx arg1 (or REDISMODULE_READ REDISMODULE_WRITE) st;
        let (type, st) = RedisModule_KeyType api key st;
        if type \<noteq> REDISMODULE_KEYTYPE_EMPTY then do {
          let (_, st) = RedisModule_ReplyWithSimpleString api ctx ''ERR: key already exists'' st;
          Some (unlock_unless api (ev_thread_safe e) ctx st)
        }
        else do {
          let (ll, st) = RedisModule_Alloc api (p_sizeof_llca_conc_obj pf) (conc_live st) st;
          st \<leftarrow> conc_construct pf ll st;
          let (_, st) = RedisModule_ModuleTypeSetValue api key (st_llca_conc st) ll st;
          let st = unlock_unless api (ev_thread_safe e) ctx st;
          Some (snd (RedisModule_ReplyWithSimpleString api ctx ''OK'' st))
        }
      })"

definition llca_conc_delete_event_execute :: "'w redis_api \<Rightarrow> event \<Rightarrow>
    ('w, 'm) conc_state_scheme \<Rightarrow> ('w, 'm) conc_state_scheme option" where
  "llca_conc_delete_event_execute api e st =
     (let ctx = ev_ctx e; (ok, st) = check_arity api ctx (ev_argc e) 2 st in
      if \<not> ok then Some st
      else do {
        let st = lock_unless api (ev_thread_safe e) ctx st;
        arg1 \<leftarrow> at (ev_argv e) 1;
        let (key, st) = RedisModule_OpenKey api ctx arg1 (or REDISMODULE_READ REDISMODULE_WRITE) st;
        let (type, st) = RedisModule_KeyType api key st;
        if type = REDISMODULE_KEYTYPE_EMPTY then do {
          let (_, st) = RedisModule_ReplyWithSimpleString api ctx ''ERR: key does not exist'' st;
          Some (unlock_unless api (ev_thread_safe e) ctx st)
        }
        else do {
          let (mt, st) = RedisModule_ModuleTypeGetType api key st;
          if mt \<noteq> st_llca_conc st then do {
            let (_, st) = RedisModule_ReplyWithError api ctx REDISMODULE_ERRORMSG_WRONGTYPE st;
            Some (unlock_unless api (ev_thread_safe e) ctx st)
          }
          else do {
            let (ll, st) = RedisModule_ModuleTypeGetValue api key st;
            st \<leftarrow> conc_destruct ll st;
            let (_, st) = RedisModule_Free api ll st;
            let (_, st) = RedisModule_DeleteKey api key st;
            let st = unlock_unless api (ev_thread_safe e) ctx st;
            Some (snd (RedisModule_ReplyWithSimpleString api ctx ''OK'' st))
          }
        }
      })"

definition llca_conc_remove_event_execute :: "'w redis_api \<Rightarrow> nat \<Rightarrow> event \<Rightarrow>
    ('w, 'm) conc_state_scheme \<Rightarrow> ('w, 'm) conc_state_scheme option" where
  "llca_conc_remove_event_execute api tid e st =
     (let ctx = ev_ctx e; (ok, st) = check_arity api ctx (ev_argc e) 3 st in
      if \<not> ok then Some st
      else do {
        arg2 \<leftarrow> at (ev_argv e) 2;
        let (val, st) = string_to_longlong api ctx arg2 st;
        case val of
          None \<Rightarrow> Some st
        | Some value \<Rightarrow> do {
            arg1 \<leftarrow> at (ev_argv e) 1;
            let (obj, st) = lookup_key api ctx arg1 (ev_thread_safe e) st;
            if obj = 0 then Some st
            else do {
              (r, st) \<leftarrow> conc_remove tid obj value st;
              Some (snd (RedisModule_ReplyWithSimpleString api ctx
                (if r then ''OK'' else ''ERR: value does not exist'') st))
            }
          }
      })"

definition llca_conc_contains_event_execute :: "'w redis_api \<Rightarrow> nat \<Rightarrow> event \<Rightarrow>
    ('w, 'm) conc_state_scheme \<Rightarrow> ('w, 'm) conc_state_scheme option" where
  "llca_conc_contains_event_execute api tid e st =
     (let ctx = ev_ctx e; (ok, st) = check_arity api ctx (ev_argc e) 3 st in
      if \<not> ok then Some st
      else do {
        arg2 \<leftarrow> at (ev_argv e) 2;
        let (val, st) = string_to_longlong api ctx arg2 st;
        case val of
          None \<Rightarrow> Some st
        | Some value \<Rightarrow> do {
            arg1 \<leftarrow> at (ev_argv e) 1;
            let (obj, st) = lookup_key api ctx arg1 (ev_thread_safe e) st;
            if obj = 0 then Some st
            else do {
              (r, st) \<leftarrow> conc_contains tid obj value st;
              Some (snd (RedisModule_ReplyWithSimpleString api ctx
                (if r then ''OK'' else ''ERR: value does not exist'') st))
            }
          }
      })"

definition llca_conc_insert_event_execute :: "'w redis_api \<Rightarrow> 'w platform \<Rightarrow> nat \<Rightarrow> event \<Rightarrow>
    ('w, 'm) conc_state_scheme \<Rightarrow> ('w, 'm) conc_state_scheme option" where
  "llca_conc_insert_event_execute api pf tid e st =
     (let ctx = ev_ctx e; (ok, st) = check_arity api ctx (ev_argc e) 3 st in
      if \<not> ok then Some st
      else do {
        arg2 \<leftarrow> at (ev_argv e) 2;
        let (val, st) = string_to_longlong api ctx arg2 st;
        case val of
          None \<Rightarrow> Some st
        | Some value \<Rightarrow> do {
            arg1 \<leftarrow> at (ev_argv e) 1;
            let (obj, st) = lookup_key api ctx arg1 (ev_thread_safe e) st;
            if obj = 0 then Some st
            else do {
              (r, st) \<leftarrow> conc_insert pf tid obj value st;
              Some (snd (RedisModule_ReplyWithSimpleString api ctx
                (if r then ''OK'' else ''ERR: value exists'') st))
            }
          }
      })"

subsection \<open>Loading the module type\<close>

definition llca_conc_type_methods :: type_methods where
  "llca_conc_type_methods =
     \<lparr>tm_version = 1, tm_rdb_load = ''llca_conc_rdb_load'', tm_rdb_save = ''llca_conc_rdb_save'',
      tm_aof_rewrite = ''llca_conc_aof_rewrite'', tm_mem_usage = ''llca_conc_mem_usage'',
      tm_digest = ''llca_conc_digest'', tm_free = ''llca_conc_free''\<rparr>"

text \<open>The commands, in the order in which they are registered: each one if those before it were.\<close>

definition conc_commands :: "(string \<times> cmd_func) list" where
  "conc_commands =
     [(''llca_conc.insert'', Conc_Handler ''llca_conc_insert_event''),
      (''llca_conc.contains'', Conc_Handler ''llca_conc_contains_event''),
      (''llca_conc.remove'', Conc_Handler ''llca_conc_remove_event''),
      (''llca_conc.create'', Conc_Handler ''llca_conc_create_event''),
      (''llca_conc.delete'', Conc_Handler ''llca_conc_delete_event''),
      (''llca_seq.insert'', Seq_Handler ''llca_conc_insert_event''),
      (''llca_seq.contains'', Seq_Handler ''llca_conc_contains_event''),
      (''llca_seq.remove'', Seq_Handler ''llca_conc_remove_event''),
      (''llca_seq.create'', Seq_Handler ''llca_conc_create_event''),
      (''llca_seq.delete'', Seq_Handler ''llca_conc_delete_event'')]"

fun register_commands :: "'w redis_api \<Rightarrow> addr \<Rightarrow> (string \<times> cmd_func) list \<Rightarrow>
    ('w, 'm) host_state_scheme \<Rightarrow> int \<times> ('w, 'm) host_state_scheme" where
  "register_commands api ctx [] st = (REDISMODULE_OK, st)"
| "register_commands api ctx ((name, f) # cs) st =
     (let (r, st) = RedisModule_CreateCommand api ctx name f ''write'' 1 1 1 st in
      if r = REDISMODULE_ERR then (REDISMODULE_ERR, st) else register_commands api ctx cs st)"

definition LLCA_Conc_OnLoad :: "'w redis_api \<Rightarrow> addr \<Rightarrow> ('w, 'm) conc_state_scheme \<Rightarrow>
    int \<times> ('w, 'm) conc_state_scheme" where
  "LLCA_Conc_OnLoad api ctx st =
     (let (mt, st) = RedisModule_CreateDataType api ctx ''llca_conc'' 0 llca_conc_type_methods st;
          st = st\<lparr>st_llca_conc := mt\<rparr>
      in if mt = 0 then (REDISMODULE_ERR, st) else register_commands api ctx conc_commands st)"

end
