(* ===== verification/Skip_List_State.thy ===== *)
theory Skip_List_State
  imports Skip_List
begin

text \<open>
  Facts on the state of the skip list that the proofs of its operations share: what the guard operations
  do to the record of the running thread, and links, paths and towers of the node store.
\<close>

subsection \<open>The guards of the running thread\<close>

text \<open>Between two operations on a set, only the hazard pointers and the free list of the running thread
  change: the states of an operation are written \<open>wg tid hs fr s\<close>.\<close>

definition wg :: "nat \<Rightarrow> addr list \<Rightarrow> nat list \<Rightarrow> cds_state \<Rightarrow> cds_state" where
  "wg tid hs fr s = set_thread tid ((thread_of tid s)\<lparr>tr_hazards := hs, tr_free := fr\<rparr>) s"

definition tid_ok :: "nat \<Rightarrow> cds_state \<Rightarrow> bool" where
  "tid_ok tid s \<longleftrightarrow> tid < length (smr_threads (c_smr s))"

lemma wg_id: "wg tid (tr_hazards (thread_of tid s)) (tr_free (thread_of tid s)) s = s"
  by (simp add: wg_def set_thread_def thread_of_def)

lemma wg_fields [simp]:
  "c_nodes (wg tid hs fr s) = c_nodes s" "c_sets (wg tid hs fr s) = c_sets s"
  "tid_ok tid (wg tid hs fr s) = tid_ok tid s"
  "tid_ok tid (c_nodes_update f s) = tid_ok tid s" "tid_ok tid (c_sets_update g s) = tid_ok tid s"
  "thread_of tid (c_nodes_update f s) = thread_of tid s" "thread_of tid (c_sets_update g s) = thread_of tid s"
  by (simp_all add: wg_def set_thread_def tid_ok_def thread_of_def)

lemma wg_updates [simp]:
  "c_nodes_update f (wg tid hs fr s) = wg tid hs fr (c_nodes_update f s)"
  "c_sets_update g (wg tid hs fr s) = wg tid hs fr (c_sets_update g s)"
  by (simp_all add: wg_def set_thread_def thread_of_def)

lemma thread_record_swap:
  "(r :: thread_record)\<lparr>tr_free := fr, tr_hazards := hs\<rparr> = r\<lparr>tr_hazards := hs, tr_free := fr\<rparr>"
  by simp

lemma wg_ops [simp]:
  assumes "tid_ok tid s"
  shows "thread_of tid (wg tid hs fr s) = (thread_of tid s)\<lparr>tr_hazards := hs, tr_free := fr\<rparr>"
    and "wg tid hs' fr' (wg tid hs fr s) = wg tid hs' fr' s"
    and "assign tid g p (wg tid hs fr s) = wg tid (hs[g := p]) fr s"
    and "copy tid gs i j (wg tid hs fr s) = wg tid (hs[gs ! i := hs ! (gs ! j)]) fr s"
    and "new_guard tid (wg tid hs (g # fr) s) = Some (g, wg tid hs fr s)"
    and "drop_guard tid g (wg tid hs fr s) = wg tid (hs[g := 0]) (g # fr) s"
    and "n \<le> length fr \<Longrightarrow> new_guards n tid (wg tid hs fr s) = Some (take n fr, wg tid hs (drop n fr) s)"
  using assms
  by (simp_all add: wg_def set_thread_def tid_ok_def thread_of_def assign_def copy_def guard_get_def
      guard_set_def new_guard_def guard_alloc_def drop_guard_def guard_free_def new_guards_def
      guard_array_alloc_def thread_record_swap)

lemma guard_array_free_eq:
  "guard_array_free gs r =
     r\<lparr>tr_hazards := fold (\<lambda>g hs. hs[g := 0]) gs (tr_hazards r), tr_free := rev gs @ tr_free r\<rparr>"
  by (induction gs arbitrary: r) (simp_all add: guard_array_free_def guard_free_def)

lemma drop_guards_wg [simp]:
  assumes "tid_ok tid s"
  shows "drop_guards tid gs (wg tid hs fr s) = wg tid (fold (\<lambda>g hs. hs[g := 0]) gs hs) (rev gs @ fr) s"
  using assms
  by (simp add: drop_guards_def guard_array_free_eq wg_def set_thread_def tid_ok_def thread_of_def)

lemma fold_clear:
  "length (fold (\<lambda>g hs. hs[g := 0]) gs hs) = length hs"
  "(g < length hs \<Longrightarrow> fold (\<lambda>g hs. hs[g := 0]) gs hs ! g = (if g \<in> set gs then 0 else hs ! g))"
  by (induction gs arbitrary: hs) (auto simp: nth_list_update)

text \<open>Hazard pointers that differ only at the guards \<open>G\<close>.\<close>

definition hs_upd :: "nat set \<Rightarrow> addr list \<Rightarrow> addr list \<Rightarrow> bool" where
  "hs_upd G hs hs' \<longleftrightarrow> length hs' = length hs \<and> (\<forall>g. g \<notin> G \<longrightarrow> hs' ! g = hs ! g)"

lemma hs_upd_refl [simp]: "hs_upd G hs hs"
  by (simp add: hs_upd_def)

lemma hs_upd_trans: "hs_upd G hs hs' \<Longrightarrow> hs_upd G hs' hs'' \<Longrightarrow> hs_upd G hs hs''"
  by (simp add: hs_upd_def)

lemma hs_upd_update [simp]: "g \<in> G \<Longrightarrow> hs_upd G hs (hs[g := p])"
  unfolding hs_upd_def by (metis length_list_update nth_list_update_neq)

lemma hs_upd_mono: "hs_upd G hs hs' \<Longrightarrow> G \<subseteq> G' \<Longrightarrow> hs_upd G' hs hs'"
  unfolding hs_upd_def by (metis subsetD)

subsection \<open>Links\<close>

definition link :: "(addr \<rightharpoonup> sl_node) \<Rightarrow> nat \<Rightarrow> addr \<Rightarrow> marked_ptr option" where
  "link ns l a = Option.bind (ns a) (sn_next l)"

text \<open>What the stores to a link do not change of a node: its value, height, size of the tower and counter.\<close>

definition attr :: "(addr \<rightharpoonup> sl_node) \<Rightarrow> addr \<Rightarrow> (int64 option \<times> nat \<times> nat \<times> 32 word) option" where
  "attr ns a = map_option (\<lambda>n. (sn_value n, sn_nHeight n, length (sn_arrNext n), sn_nUnlink n)) (ns a)"

definition upd_link :: "addr \<Rightarrow> nat \<Rightarrow> marked_ptr \<Rightarrow> (addr \<rightharpoonup> sl_node) \<Rightarrow> (addr \<rightharpoonup> sl_node)" where
  "upd_link a l p ns = (case ns a of None \<Rightarrow> ns | Some n \<Rightarrow> ns(a \<mapsto> set_link l p n))"

lemma sn_next_set_link:
  "sn_next l n \<noteq> None \<Longrightarrow> sn_next l' (set_link l p n) = (if l = l' then Some p else sn_next l' n)"
  by (auto simp: sn_next_def set_link_def nth_list_update split: if_splits)

lemma link_upd_link:
  "link ns l a \<noteq> None \<Longrightarrow>
     link (upd_link a l p ns) l' b = (if a = b \<and> l = l' then Some p else link ns l' b)"
  by (auto simp: link_def upd_link_def sn_next_set_link split: option.splits)

lemma attr_upd_link [simp]: "attr (upd_link a l p ns) = attr ns"
  by (rule ext) (auto simp: attr_def upd_link_def set_link_def split: option.splits)

lemma upd_link_other: "b \<noteq> a \<Longrightarrow> upd_link a l p ns b = ns b"
  by (simp add: upd_link_def split: option.splits)

lemma node_load_link: "node_load a l s = link (c_nodes s) l a"
  by (simp add: node_load_def link_def)

lemma node_store_link:
  assumes "link (c_nodes s) l a \<noteq> None"
  shows "node_store a l p s = Some (s\<lparr>c_nodes := upd_link a l p (c_nodes s)\<rparr>)"
  using assms by (auto simp: node_store_def link_def upd_link_def split: option.splits)

lemma node_cas_link:
  assumes "link (c_nodes s) l a = Some old"
  shows "node_cas a l expected desired s =
    (if old = expected then Some (True, old, s\<lparr>c_nodes := upd_link a l desired (c_nodes s)\<rparr>)
     else Some (False, old, s))"
  using assms by (auto simp: node_cas_def node_load_link node_store_link mp_eq_def mp_all_def)

lemma node_value_attr: "attr (c_nodes s) a = Some (v, h, n, u) \<Longrightarrow> node_value a s = v"
  by (auto simp: attr_def node_value_def)

lemma node_height_attr: "attr (c_nodes s) a = Some (v, h, n, u) \<Longrightarrow> node_height a s = Some h"
  by (auto simp: attr_def node_height_def)

lemma link_attr:
  "attr ns a = Some (v, h, n, u) \<Longrightarrow> link ns l a \<noteq> None \<longleftrightarrow> l \<le> n"
  by (cases "ns a"; cases l) (auto simp: attr_def link_def sn_next_def)

lemma protect_wg [simp]:
  assumes "tid_ok tid s"
  shows "protect tid g a l (wg tid hs fr s) =
    map_option (\<lambda>p. (p, wg tid (hs[g := mp_ptr p]) fr s)) (link (c_nodes s) l a)"
  using assms by (cases "link (c_nodes s) l a") (simp_all add: protect.simps node_load_link)

subsection \<open>Paths\<close>

fun path :: "(addr \<rightharpoonup> sl_node) \<Rightarrow> nat \<Rightarrow> addr \<Rightarrow> addr list \<Rightarrow> addr \<Rightarrow> bool" where
  "path ns l p [] q = (link ns l p = Some q)"
| "path ns l p (y # ys) q = (link ns l p = Some y \<and> path ns l y ys q)"

lemma path_append: "path ns l p (ys @ z # zs) q \<longleftrightarrow> path ns l p ys z \<and> path ns l z zs q"
  by (induction ys arbitrary: p) auto

lemma path_cong:
  "(\<And>a. a \<in> set (p # ys) \<Longrightarrow> link ns l a = link ns' l a) \<Longrightarrow> path ns l p ys q \<longleftrightarrow> path ns' l p ys q"
  by (induction ys arbitrary: p) auto

text \<open>The link of an element of a path is the next element.\<close>

lemma path_link:
  assumes "path ns l p ys q" and "p # ys = as @ a # bs"
  shows "link ns l a = Some (hd (bs @ [q]))"
  using assms
proof (induction ys arbitrary: p as)
  case Nil
  then show ?case by (cases as) auto
next
  case (Cons y ys)
  show ?case
  proof (cases as)
    case Nil
    with Cons.prems show ?thesis by auto
  next
    case (Cons a' as')
    with Cons.prems have "path ns l y ys q" "y # ys = as' @ a # bs" by auto
    then show ?thesis by (rule Cons.IH)
  qed
qed

lemma first_or_null_hd: "first_or_null xs = hd (xs @ [0])"
  by (cases xs) simp_all

text \<open>Only the last link decides where a path ends.\<close>

lemma path_redirect:
  assumes "path ns l p ys q" and "distinct (p # ys)"
    and "\<And>a. a \<in> set (butlast (p # ys)) \<Longrightarrow> link ns' l a = link ns l a"
    and "link ns' l (last (p # ys)) = Some q'"
  shows "path ns' l p ys q'"
  using assms
proof (induction ys arbitrary: p)
  case (Cons y ys)
  have "path ns' l y ys q'"
    by (rule Cons.IH) (use Cons.prems in auto)
  with Cons.prems show ?case by auto
qed simp

text \<open>The last element of a non-empty list.\<close>

lemma last_mem: "set ys \<subseteq> S \<Longrightarrow> last (p # ys) \<in> insert p S"
proof (cases "ys = []")
  case False
  assume "set ys \<subseteq> S"
  from this last_in_set [OF False] have "last ys \<in> S" by (rule subsetD)
  with False show ?thesis by simp
qed simp

subsection \<open>Towers\<close>

text \<open>An item of a set: the node's address, its value and its height. \<open>lev l xs\<close> are the addresses of the
  items that have a link at level \<open>l\<close>.\<close>

type_synonym item = "addr \<times> int64 \<times> nat"

abbreviation it_addr :: "item \<Rightarrow> addr" where "it_addr \<equiv> fst"
abbreviation it_key :: "item \<Rightarrow> int64" where "it_key i \<equiv> fst (snd i)"
abbreviation it_height :: "item \<Rightarrow> nat" where "it_height i \<equiv> snd (snd i)"

definition lev :: "nat \<Rightarrow> item list \<Rightarrow> addr list" where
  "lev l xs = map it_addr (filter (\<lambda>i. l < it_height i) xs)"

lemma lev_simps [simp]:
  "lev l [] = []" "lev l (xs @ ys) = lev l xs @ lev l ys"
  "lev l ((a, k, h) # xs) = (if l < h then a # lev l xs else lev l xs)"
  by (simp_all add: lev_def)

lemma lev_subset: "set (lev l xs) \<subseteq> it_addr ` set xs"
  by (auto simp: lev_def)

lemma lev_mono: "l \<le> l' \<Longrightarrow> set (lev l' xs) \<subseteq> set (lev l xs)"
  by (force simp: lev_def)

definition item_ok :: "(addr \<rightharpoonup> sl_node) \<Rightarrow> item \<Rightarrow> bool" where
  "item_ok ns = (\<lambda>(a, k, h). a \<noteq> 0 \<and> aligned a \<and> 1 \<le> h \<and> h \<le> c_nMaxHeight \<and>
     attr ns a = Some (Some k, h, h - 1, of_nat h))"

definition head_ok :: "(addr \<rightharpoonup> sl_node) \<Rightarrow> addr \<Rightarrow> bool" where
  "head_ok ns head \<longleftrightarrow> head \<noteq> 0 \<and> aligned head \<and>
     (\<exists>h u. attr ns head = Some (None, h, c_nHeightLimit, u))"

definition keys :: "item list \<Rightarrow> int64 set" where "keys xs = it_key ` set xs"

abbreviation blocks :: "addr \<Rightarrow> item list \<Rightarrow> addr set" where
  "blocks head xs \<equiv> insert head (it_addr ` set xs)"

text \<open>The nodes of a set: the items in ascending order, each linked at all its levels.\<close>

definition list_ok :: "(addr \<rightharpoonup> sl_node) \<Rightarrow> addr \<Rightarrow> item list \<Rightarrow> bool" where
  "list_ok ns head xs \<longleftrightarrow> head_ok ns head \<and> (\<forall>i \<in> set xs. item_ok ns i) \<and>
     distinct (head # map it_addr xs) \<and> sorted_wrt (<) (map (\<lambda>i. sint (it_key i)) xs) \<and>
     (\<forall>l < c_nMaxHeight. path ns l head (lev l xs) 0)"

lemma c_nMaxHeight_eq [simp]: "c_nMaxHeight = 32" "c_nHeightLimit = 32"
  by (simp_all add: c_nMaxHeight_def c_nHeightLimit_def)

lemma distinct_lev: "distinct (map it_addr xs) \<Longrightarrow> distinct (lev l xs)"
  unfolding lev_def by (rule distinct_map_filter)

text \<open>A set splits at a value into the items below it and the rest.\<close>

definition below :: "int64 \<Rightarrow> item list \<Rightarrow> item list" where
  "below v xs = takeWhile (\<lambda>i. sint (it_key i) < sint v) xs"

definition above :: "int64 \<Rightarrow> item list \<Rightarrow> item list" where
  "above v xs = dropWhile (\<lambda>i. sint (it_key i) < sint v) xs"

lemma below_above: "xs = below v xs @ above v xs"
  by (simp add: below_def above_def)

lemma below_less: "i \<in> set (below v xs) \<Longrightarrow> sint (it_key i) < sint v"
  by (auto simp: below_def dest: set_takeWhileD)

lemma above_ge:
  assumes "sorted_wrt (<) (map (\<lambda>i. sint (it_key i)) xs)" and "i \<in> set (above v xs)"
  shows "sint v \<le> sint (it_key i)"
proof -
  have "sorted (map (\<lambda>i. sint (it_key i)) xs)"
    using assms(1) by (simp add: strict_sorted_iff)
  then show ?thesis
    using assms(2) dropWhile_sorted_le [of "\<lambda>i. sint (it_key i)" xs i "sint v"] by (simp add: above_def)
qed

text \<open>The value is in the set iff it is that of the first item that is not below it.\<close>

definition hit :: "int64 \<Rightarrow> item list \<Rightarrow> bool" where
  "hit v xs \<longleftrightarrow> above v xs \<noteq> [] \<and> it_key (hd (above v xs)) = v"

lemma above_hd:
  assumes sorted: "sorted_wrt (<) (map (\<lambda>i. sint (it_key i)) xs)"
    and i: "i \<in> set (above v xs)" "it_key i = v"
  shows "hd (above v xs) = i"
proof -
  obtain j js where js: "above v xs = j # js" using i(1) by (cases "above v xs") auto
  have "sorted_wrt (<) (map (\<lambda>i. sint (it_key i)) (below v xs @ j # js))"
    using sorted below_above [of xs v] js by simp
  then have "\<forall>i \<in> set js. sint (it_key j) < sint (it_key i)" by (auto simp: sorted_wrt_append)
  moreover have "sint v \<le> sint (it_key j)" using above_ge [OF sorted, of j v] js by simp
  ultimately have "j = i" using i js by force
  with js show ?thesis by simp
qed

lemma hit_iff:
  assumes "sorted_wrt (<) (map (\<lambda>i. sint (it_key i)) xs)"
  shows "hit v xs \<longleftrightarrow> v \<in> keys xs"
proof
  assume "hit v xs"
  then have "hd (above v xs) \<in> set xs"
    unfolding hit_def above_def by (meson hd_in_set set_dropWhileD)
  with \<open>hit v xs\<close> show "v \<in> keys xs" unfolding hit_def keys_def by (metis image_eqI)
next
  assume "v \<in> keys xs"
  then obtain i where i: "i \<in> set xs" "it_key i = v" by (auto simp: keys_def)
  then have "i \<in> set (above v xs)"
    using below_above [of xs v] below_less [of i v xs] by (metis Un_iff order_less_irrefl set_append)
  with above_hd [OF assms this i(2)] i(2) show "hit v xs" by (auto simp: hit_def)
qed

end
