(* ===== verification/Skip_List_Find.thy ===== *)
theory Skip_List_Find
  imports Skip_List_State
begin

text \<open>
  What \<open>find_position\<close> and \<open>find_fastpath\<close> compute on a well-formed set: the predecessors and successors
  of a value at every level, and whether the value is in the set.
\<close>

subsection \<open>Following the links of a set\<close>

lemma list_ok_path:
  assumes "list_ok ns head xs" and "l < 32"
  shows "path ns l head (lev l (below v xs) @ lev l (above v xs)) 0"
  using assms below_above [of xs v] by (metis c_nMaxHeight_eq(1) lev_simps(2) list_ok_def)

lemma list_ok_item:
  assumes "list_ok ns head xs" and "a \<in> set (lev l xs)"
  obtains k h where "(a, k, h) \<in> set xs" "l < h" "item_ok ns (a, k, h)"
  using assms by (auto simp: list_ok_def lev_def)

lemma item_ok_facts:
  assumes "item_ok ns (a, k, h)" and "ns = c_nodes s"
  shows "a \<noteq> 0" "aligned a" "node_value a s = Some k" "node_height a s = Some h"
    "1 \<le> h" "h \<le> 32" "l < h \<longleftrightarrow> link ns l a \<noteq> None"
  using assms node_value_attr [of s a] node_height_attr [of s a] link_attr [of ns a _ _ _ _ l]
  by (auto simp: item_ok_def)

text \<open>The link of the head or of an item at a level, when \<open>bs\<close> are the items that follow.\<close>

lemma list_ok_link:
  assumes "list_ok ns head xs" and "l < 32"
    and "head # lev l (below v xs) = as @ p # bs"
  shows "link ns l p = Some (first_or_null (bs @ lev l (above v xs)))"
proof -
  have "head # (lev l (below v xs) @ lev l (above v xs)) = as @ p # (bs @ lev l (above v xs))"
    using assms(3) by (metis append.assoc append_Cons)
  from path_link [OF list_ok_path [OF assms(1,2)] this] show ?thesis
    by (simp add: first_or_null_hd)
qed

lemma list_ok_link_item:
  assumes ok: "list_ok ns head xs" and "l < 32" and mem: "a \<in> set (lev l xs)"
  obtains d where "link ns l a = Some d" "aligned d"
proof -
  obtain as bs where split: "lev l xs = as @ a # bs" using mem by (meson split_list)
  then have "path ns l head (as @ a # bs) 0" using ok assms(2) by (auto simp: list_ok_def)
  then have "link ns l a = Some (hd (bs @ [0]))"
    by (rule path_link [where as = "head # as"]) simp
  moreover have "aligned (hd (bs @ [0]))"
  proof (cases bs)
    case (Cons b bs')
    then have "b \<in> set (lev l xs)" using split by simp
    with ok obtain k h where "item_ok ns (b, k, h)" by (rule list_ok_item)
    then show ?thesis using Cons by (simp add: item_ok_def)
  qed simp
  ultimately show ?thesis by (rule that)
qed

lemma lev_below_above: "set (lev l xs) = set (lev l (below v xs)) \<union> set (lev l (above v xs))"
  using below_above [of xs v] by (metis lev_simps(2) set_append)

lemma list_ok_sorted: "list_ok ns head xs \<Longrightarrow> sorted_wrt (<) (map (\<lambda>i. sint (it_key i)) xs)"
  by (simp add: list_ok_def)

subsection \<open>One turn of the loop\<close>

lemma find_step_end:
  assumes "tid_ok tid s" and "link (c_nodes s) l p = Some 0"
  shows "find_step tid v stop l p n gs (wg tid hs fr s)
    = Some (W_down 0 n, wg tid (hs[gs ! (l * 2 + 1) := 0]) fr s)"
  using assms by (simp add: find_step_def walk_step_def)

lemma find_step_node:
  assumes "tid_ok tid s" and "link (c_nodes s) l p = Some c" and "aligned c" and "c \<noteq> 0"
    and "link (c_nodes s) l c = Some d" and "aligned d" and "node_value c s = Some k"
  shows "\<exists>hs'. hs_upd {gs ! (l * 2), gs ! (l * 2 + 1)} hs hs' \<and>
    find_step tid v stop l p n gs (wg tid hs fr s) =
      Some (if key_comparator k v < 0 then W_next c (key_comparator k v)
            else if key_comparator k v = 0 \<and> stop then W_found c (key_comparator k v)
            else W_down c (key_comparator k v), wg tid hs' fr s)"
proof -
  let ?G = "{gs ! (l * 2), gs ! (l * 2 + 1)}"
  let ?hs1 = "hs[gs ! (l * 2 + 1) := c]"
  let ?hs2 = "?hs1[gs ! (l * 2) := ?hs1 ! (gs ! (l * 2 + 1))]"
  have val: "node_value c (wg tid hs1 fr s) = Some k" for hs1
    using assms(7) by (simp add: node_value_def)
  have u1: "hs_upd ?G hs ?hs1" by simp
  have u2: "hs_upd ?G hs ?hs2" by (rule hs_upd_trans [OF u1]) simp
  have "find_step tid v stop l p n gs (wg tid hs fr s) =
      Some (if key_comparator k v < 0 then (W_next c (key_comparator k v), wg tid ?hs2 fr s)
            else if key_comparator k v = 0 \<and> stop then (W_found c (key_comparator k v), wg tid ?hs1 fr s)
            else (W_down c (key_comparator k v), wg tid ?hs1 fr s))"
    using assms val by (simp add: find_step_def walk_step_def node_load_link mp_all_def Let_def)
  with u1 u2 show ?thesis
    by (cases "key_comparator k v < 0") (auto intro: exI [of _ ?hs1] exI [of _ ?hs2])
qed

subsection \<open>The loop\<close>

definition pos_ok :: "position \<Rightarrow> nat list \<Rightarrow> bool" where
  "pos_ok pos gs \<longleftrightarrow> guards pos = gs \<and> length gs = 64 \<and> length (pPrev pos) = 32 \<and> length (pSucc pos) = 32"

text \<open>The loop at one level: it stops at the last item below the value.\<close>

lemma find_inner:
  assumes ok: "list_ok (c_nodes s) head xs" and tid: "tid_ok tid s" and l: "l < 32" and pos: "pos_ok pos gs"
  shows "head # lev l (below v xs) = as @ p # bs \<Longrightarrow>
    \<exists>hs' n'. hs_upd (set gs) hs hs' \<and> (if bs = [] then n' = n else n' < 0) \<and>
      walk_loop (find_step tid v stop) tid head l p n pos (wg tid hs fr s) =
      walk_loop (find_step tid v stop) tid head l (last (p # bs)) n' pos (wg tid hs' fr s)"
proof (induction bs arbitrary: as p n hs)
  case Nil
  show ?case by (intro exI [of _ hs] exI [of _ n]) simp
next
  case (Cons b bs)
  have link: "link (c_nodes s) l p = Some b"
    using list_ok_link [OF ok l Cons.prems] by simp
  have split: "head # lev l (below v xs) = (as @ [p]) @ b # bs" using Cons.prems by simp
  then have b: "b \<in> set (lev l (below v xs))" by (cases as) auto
  then obtain k h where item: "(b, k, h) \<in> set (below v xs)" by (auto simp: lev_def)
  then have "(b, k, h) \<in> set xs" using below_above [of xs v] by (metis Un_iff set_append)
  with ok have iok: "item_ok (c_nodes s) (b, k, h)" by (auto simp: list_ok_def)
  have less: "key_comparator k v < 0"
    using below_less [OF item] by (simp add: key_comparator_iff)
  obtain d where d: "link (c_nodes s) l b = Some d" "aligned d"
    using list_ok_link_item [OF ok l, of b] b lev_below_above by blast
  obtain hs1 where hs1: "hs_upd {gs ! (l * 2), gs ! (l * 2 + 1)} hs hs1"
    "find_step tid v stop l p n gs (wg tid hs fr s) = Some (W_next b (key_comparator k v), wg tid hs1 fr s)"
    using find_step_node [OF tid link _ _ d item_ok_facts(3) [OF iok refl], of gs hs v stop n fr] less
      item_ok_facts(1,2) [OF iok refl] by auto
  have sub: "{gs ! (l * 2), gs ! (l * 2 + 1)} \<subseteq> set gs" using pos l by (auto simp: pos_ok_def)
  have up1: "hs_upd (set gs) hs hs1" using hs1(1) sub by (rule hs_upd_mono)
  obtain hs' n' where rest: "hs_upd (set gs) hs1 hs'" "if bs = [] then n' = key_comparator k v else n' < 0"
    "walk_loop (find_step tid v stop) tid head l b (key_comparator k v) pos (wg tid hs1 fr s) =
     walk_loop (find_step tid v stop) tid head l (last (b # bs)) n' pos (wg tid hs' fr s)"
    using Cons.IH [OF split] by blast
  have "walk_loop (find_step tid v stop) tid head l p n pos (wg tid hs fr s) =
        walk_loop (find_step tid v stop) tid head l b (key_comparator k v) pos (wg tid hs1 fr s)"
    using hs1(2) pos by (subst walk_loop.simps) (simp add: pos_ok_def)
  with rest less hs_upd_trans [OF up1] show ?case
    by (intro exI [of _ hs'] exI [of _ n']) (auto split: if_splits)
qed

text \<open>The last item below the value has no item at its level between it and the rest.\<close>

lemma last_split: "head # ys = butlast (head # ys) @ [last (head # ys)]"
  by (metis append_butlast_last_id list.distinct(1))

lemma find_bottom:
  fixes v :: int64
  assumes ok: "list_ok (c_nodes s) head xs" and tid: "tid_ok tid s" and l: "l < 32" and pos: "pos_ok pos gs"
  defines "p \<equiv> last (head # lev l (below v xs))" and "A \<equiv> above v xs"
  shows "\<exists>hs'. hs_upd (set gs) hs hs' \<and>
    find_step tid v stop l p n gs (wg tid hs fr s) =
      Some (if lev l A = [] then W_down 0 n
            else let (c, k, h) = hd (filter (\<lambda>i. l < it_height i) A) in
                 if k = v \<and> stop then W_found c 0 else W_down c (key_comparator k v), wg tid hs' fr s)"
proof (cases "lev l A = []")
  case True
  have link: "link (c_nodes s) l p = Some 0"
    using list_ok_link [OF ok l, of v "butlast (head # lev l (below v xs))" p "[]"] last_split True
    by (simp add: p_def A_def)
  show ?thesis
    using find_step_end [OF tid link, of v stop n gs hs fr] True l pos
    by (intro exI [of _ "hs[gs ! (l * 2 + 1) := 0]"]) (auto simp: pos_ok_def)
next
  case False
  then obtain c k h rest where f: "filter (\<lambda>i. l < it_height i) A = (c, k, h) # rest"
    by (cases "filter (\<lambda>i. l < it_height i) A") (auto simp: lev_def)
  have lev: "lev l A = c # map it_addr rest" using f by (simp add: lev_def)
  have link: "link (c_nodes s) l p = Some c"
    using list_ok_link [OF ok l, of v "butlast (head # lev l (below v xs))" p "[]"] last_split lev
    by (simp add: p_def A_def)
  have "(c, k, h) \<in> set (filter (\<lambda>i. l < it_height i) A)" using f by simp
  then have mem: "(c, k, h) \<in> set A" by simp
  then have "(c, k, h) \<in> set xs" using below_above [of xs v] unfolding A_def by (metis Un_iff set_append)
  with ok have iok: "item_ok (c_nodes s) (c, k, h)" by (auto simp: list_ok_def)
  obtain d where d: "link (c_nodes s) l c = Some d" "aligned d"
    using list_ok_link_item [OF ok l, of c] lev lev_below_above [of l xs v] A_def by (metis UnCI list.set_intros(1))
  have "sint v \<le> sint k"
    using above_ge [OF list_ok_sorted [OF ok], of "(c, k, h)" v] mem by (simp add: A_def)
  then have ge: "\<not> key_comparator k v < 0" by (simp add: key_comparator_iff)
  obtain hs' where hs': "hs_upd {gs ! (l * 2), gs ! (l * 2 + 1)} hs hs'"
    "find_step tid v stop l p n gs (wg tid hs fr s) =
      Some (if key_comparator k v = 0 \<and> stop then W_found c (key_comparator k v)
            else W_down c (key_comparator k v), wg tid hs' fr s)"
    using find_step_node [OF tid link _ _ d item_ok_facts(3) [OF iok refl], of gs hs v stop n fr] ge
      item_ok_facts(1,2) [OF iok refl] by auto
  have "{gs ! (l * 2), gs ! (l * 2 + 1)} \<subseteq> set gs" using pos l by (auto simp: pos_ok_def)
  with hs'(1) have "hs_upd (set gs) hs hs'" by (rule hs_upd_mono)
  with hs'(2) f lev show ?thesis by (intro exI [of _ hs']) (auto simp: key_comparator_iff)
qed

text \<open>What the loop has found out at its end: whether the value is there, and its neighbours at the levels
  that it has passed.\<close>

definition neighbours :: "addr \<Rightarrow> item list \<Rightarrow> int64 \<Rightarrow> nat \<Rightarrow> position \<Rightarrow> bool" where
  "neighbours head xs v l pos \<longleftrightarrow>
     pPrev pos ! l = last (head # lev l (below v xs)) \<and> pSucc pos ! l = first_or_null (lev l (above v xs))"

definition walk_result :: "addr \<Rightarrow> item list \<Rightarrow> int64 \<Rightarrow> bool \<Rightarrow> walk \<Rightarrow> position \<Rightarrow> bool" where
  "walk_result head xs v stop w pos \<longleftrightarrow>
     w = W_found (it_addr (hd (above v xs))) 0 \<and> stop \<and> hit v xs \<or>
     (\<exists>n. w = W_down (first_or_null (lev 0 (above v xs))) n \<and> (n = 0 \<longleftrightarrow> hit v xs) \<and>
          \<not> (stop \<and> hit v xs) \<and> (\<forall>j < 32. neighbours head xs v j pos))"

lemma lev_0:
  assumes "\<forall>i \<in> set ys. item_ok ns i"
  shows "lev 0 ys = map it_addr ys" "filter (\<lambda>i. 0 < it_height i) ys = ys"
proof -
  show "filter (\<lambda>i. 0 < it_height i) ys = ys"
    using assms by (auto simp: item_ok_def intro!: filter_True)
  then show "lev 0 ys = map it_addr ys" by (simp add: lev_def)
qed

lemma find_loop:
  fixes v :: int64
  assumes ok: "list_ok (c_nodes s) head xs" and tid: "tid_ok tid s"
  shows "l < 32 \<Longrightarrow> pos_ok pos gs \<Longrightarrow> p \<in> set (head # lev l (below v xs)) \<Longrightarrow> (n = 0 \<Longrightarrow> above v xs \<noteq> []) \<Longrightarrow>
    \<forall>j. l < j \<and> j < 32 \<longrightarrow> neighbours head xs v j pos \<Longrightarrow>
    \<exists>hs' w pos'. hs_upd (set gs) hs hs' \<and> pos_ok pos' gs \<and> walk_result head xs v stop w pos' \<and>
      walk_loop (find_step tid v stop) tid head l p n pos (wg tid hs fr s) = Some (w, pos', wg tid hs' fr s)"
proof (induction l arbitrary: p n pos hs)
  case (0 p n pos hs)
  let ?A = "above v xs" and ?p = "last (head # lev 0 (below v xs))"
  have items: "\<forall>i \<in> set ?A. item_ok (c_nodes s) i"
    using ok below_above [of xs v] unfolding list_ok_def by (metis Un_iff set_append)
  obtain as bs where split: "head # lev 0 (below v xs) = as @ p # bs"
    using 0(3) by (meson split_list)
  have lastp: "last (p # bs) = ?p" using split by (metis last_appendR list.distinct(1))
  obtain hs1 n1 where 1: "hs_upd (set gs) hs hs1" "if bs = [] then n1 = n else n1 < 0"
    "walk_loop (find_step tid v stop) tid head 0 p n pos (wg tid hs fr s) =
     walk_loop (find_step tid v stop) tid head 0 ?p n1 pos (wg tid hs1 fr s)"
    using find_inner [OF ok tid 0(1,2) split, where n = n and hs = hs and stop = stop and fr = fr] lastp by auto
  obtain hs2 where 2: "hs_upd (set gs) hs1 hs2"
    "find_step tid v stop 0 ?p n1 gs (wg tid hs1 fr s) =
      Some (if lev 0 ?A = [] then W_down 0 n1
            else let (c, k, h) = hd (filter (\<lambda>i. 0 < it_height i) ?A) in
                 if k = v \<and> stop then W_found c 0 else W_down c (key_comparator k v), wg tid hs2 fr s)"
    using find_bottom [OF ok tid 0(1,2), where v = v and hs = hs1 and stop = stop and n = n1 and fr = fr] by auto
  have up: "hs_upd (set gs) hs hs2" by (rule hs_upd_trans [OF 1(1) 2(1)])
  have gs: "guards pos = gs" using 0(2) by (simp add: pos_ok_def)
  let ?pos = "\<lambda>c. pos\<lparr>pPrev := (pPrev pos)[0 := ?p], pSucc := (pSucc pos)[0 := c]\<rparr>"
  have nb: "\<forall>j < 32. neighbours head xs v j (?pos (first_or_null (lev 0 ?A)))"
    using 0(2,5) by (auto simp: neighbours_def pos_ok_def nth_list_update)
  have pok: "pos_ok (?pos c) gs" for c using 0(2) by (simp add: pos_ok_def)
  show ?case
  proof (cases "?A = []")
    case True
    then have "n1 \<noteq> 0" using 1(2) 0(4) by (auto split: if_splits)
    moreover have "walk_loop (find_step tid v stop) tid head 0 ?p n1 pos (wg tid hs1 fr s) =
        Some (W_down 0 n1, ?pos 0, wg tid hs2 fr s)"
      using 2(2) gs True by (subst walk_loop.simps) simp
    ultimately show ?thesis
      using up pok nb True 1(3)
      by (intro exI [of _ hs2] exI [of _ "W_down 0 n1"] exI [of _ "?pos 0"]) (simp add: walk_result_def hit_def)
  next
    case False
    obtain c k h where hd: "hd ?A = (c, k, h)" by (cases "hd ?A") auto
    have lev: "lev 0 ?A \<noteq> []" "first_or_null (lev 0 ?A) = c"
      using False hd lev_0(1) [OF items] by (cases ?A; simp)+
    have hit: "hit v xs \<longleftrightarrow> k = v" using False hd by (simp add: hit_def)
    show ?thesis
    proof (cases "k = v \<and> stop")
      case True
      then have "walk_loop (find_step tid v stop) tid head 0 ?p n1 pos (wg tid hs1 fr s) =
          Some (W_found c 0, pos, wg tid hs2 fr s)"
        using 2(2) gs lev lev_0(2) [OF items] hd by (subst walk_loop.simps) simp
      then show ?thesis
        using up 0(2) hit True 1(3) hd
        by (intro exI [of _ hs2] exI [of _ "W_found c 0"] exI [of _ pos]) (simp add: walk_result_def)
    next
      case nf: False
      then have "walk_loop (find_step tid v stop) tid head 0 ?p n1 pos (wg tid hs1 fr s) =
          Some (W_down c (key_comparator k v), ?pos c, wg tid hs2 fr s)"
        using 2(2) gs lev lev_0(2) [OF items] hd by (subst walk_loop.simps) auto
      then show ?thesis
        using up pok nb hit nf 1(3) hd lev
        by (intro exI [of _ hs2] exI [of _ "W_down c (key_comparator k v)"] exI [of _ "?pos c"])
          (auto simp: walk_result_def key_comparator_iff)
    qed
  qed
next
  case (Suc l p n pos hs)
  let ?A = "above v xs" and ?p = "last (head # lev (Suc l) (below v xs))"
  let ?F = "filter (\<lambda>i. Suc l < it_height i) ?A"
  obtain as bs where split: "head # lev (Suc l) (below v xs) = as @ p # bs"
    using Suc.prems(3) by (meson split_list)
  have lastp: "last (p # bs) = ?p" using split by (metis last_appendR list.distinct(1))
  obtain hs1 n1 where 1: "hs_upd (set gs) hs hs1" "if bs = [] then n1 = n else n1 < 0"
    "walk_loop (find_step tid v stop) tid head (Suc l) p n pos (wg tid hs fr s) =
     walk_loop (find_step tid v stop) tid head (Suc l) ?p n1 pos (wg tid hs1 fr s)"
    using find_inner [OF ok tid Suc.prems(1,2) split, where n = n and hs = hs and stop = stop and fr = fr] lastp by auto
  obtain hs2 where 2: "hs_upd (set gs) hs1 hs2"
    "find_step tid v stop (Suc l) ?p n1 gs (wg tid hs1 fr s) =
      Some (if lev (Suc l) ?A = [] then W_down 0 n1
            else let (c, k, h) = hd ?F in
                 if k = v \<and> stop then W_found c 0 else W_down c (key_comparator k v), wg tid hs2 fr s)"
    using find_bottom [OF ok tid Suc.prems(1,2), where v = v and hs = hs1 and stop = stop and n = n1 and fr = fr] by auto
  have up: "hs_upd (set gs) hs hs2" by (rule hs_upd_trans [OF 1(1) 2(1)])
  have gs: "guards pos = gs" "length gs = 64" using Suc.prems(2) by (simp_all add: pos_ok_def)
  let ?c = "first_or_null (lev (Suc l) ?A)"
  let ?pos = "pos\<lparr>pPrev := (pPrev pos)[Suc l := ?p], pSucc := (pSucc pos)[Suc l := ?c]\<rparr>"
  have nb: "\<forall>j. l < j \<and> j < 32 \<longrightarrow> neighbours head xs v j ?pos"
    using Suc.prems(1,2,5) by (auto simp: neighbours_def pos_ok_def nth_list_update)
  have pok: "pos_ok ?pos gs" using Suc.prems(2) by (simp add: pos_ok_def)
  have p': "?p \<in> set (head # lev l (below v xs))"
    using lev_mono [of l "Suc l" "below v xs"] last_in_set [of "head # lev (Suc l) (below v xs)"] by auto
  have down: ?case if w: "find_step tid v stop (Suc l) ?p n1 gs (wg tid hs1 fr s) = Some (W_down ?c m, wg tid hs2 fr s)"
    and m: "m = 0 \<Longrightarrow> ?A \<noteq> []" for m
  proof -
    let ?hs3 = "hs2[gs ! (l * 2) := ?p]"
    have l: "l < 32" "l * 2 < 64" using Suc.prems(1) by simp_all
    then have up3: "hs_upd (set gs) hs ?hs3" using gs l by (intro hs_upd_trans [OF up]) simp
    obtain hs' w pos' where r: "hs_upd (set gs) ?hs3 hs'" "pos_ok pos' gs" "walk_result head xs v stop w pos'"
      "walk_loop (find_step tid v stop) tid head l ?p m ?pos (wg tid ?hs3 fr s) = Some (w, pos', wg tid hs' fr s)"
      using Suc.IH [where n = m and hs = ?hs3 and pos = ?pos and p = ?p, OF l(1) pok p' m nb] by blast
    have "walk_loop (find_step tid v stop) tid head (Suc l) ?p n1 pos (wg tid hs1 fr s) =
        walk_loop (find_step tid v stop) tid head l ?p m ?pos (wg tid ?hs3 fr s)"
      using w gs tid by (subst walk_loop.simps) simp
    with r 1(3) hs_upd_trans [OF up3 r(1)] show ?thesis by auto
  qed
  show ?case
  proof (cases "lev (Suc l) ?A = []")
    case True
    then show ?thesis using down [of n1] 2(2) 1(2) Suc.prems(4) by (auto split: if_splits)
  next
    case False
    then obtain c k h rest where f: "?F = (c, k, h) # rest"
      by (cases ?F) (auto simp: lev_def)
    have "(c, k, h) \<in> set ?F" using f by simp
    then have mem: "(c, k, h) \<in> set ?A" by simp
    have c: "?c = c" using f by (simp add: lev_def)
    show ?thesis
    proof (cases "k = v \<and> stop")
      case True
      then have "walk_loop (find_step tid v stop) tid head (Suc l) ?p n1 pos (wg tid hs1 fr s) =
          Some (W_found c 0, pos, wg tid hs2 fr s)"
        using 2(2) gs False f by (subst walk_loop.simps) simp
      moreover have "hd ?A = (c, k, h)"
        using above_hd [OF list_ok_sorted [OF ok] mem] True by simp
      moreover have "?A \<noteq> []" using mem by auto
      ultimately show ?thesis
        using up Suc.prems(2) True 1(3)
        by (intro exI [of _ hs2] exI [of _ "W_found c 0"] exI [of _ pos]) (simp add: walk_result_def hit_def)
    next
      case nf: False
      show ?thesis
      proof (rule down)
        show "find_step tid v stop (Suc l) ?p n1 gs (wg tid hs1 fr s) =
            Some (W_down ?c (key_comparator k v), wg tid hs2 fr s)"
          using 2(2) False f c nf by simp
        show "key_comparator k v = 0 \<Longrightarrow> ?A \<noteq> []" using mem by auto
      qed
    qed
  qed
qed

text \<open>\<open>find_position\<close> on a well-formed set.\<close>

lemma find_position_spec:
  fixes v :: int64
  assumes ok: "list_ok (c_nodes s) head xs" and tid: "tid_ok tid s" and pos: "pos_ok pos gs"
  shows "\<exists>hs' pos'. hs_upd (set gs) hs hs' \<and> pos_ok pos' gs \<and>
    find_position tid head v stop pos (wg tid hs fr s) = Some (hit v xs, pos', wg tid hs' fr s) \<and>
    (hit v xs \<longrightarrow> pCur pos' = it_addr (hd (above v xs))) \<and>
    (\<not> (stop \<and> hit v xs) \<longrightarrow> (\<forall>j < 32. neighbours head xs v j pos'))"
proof -
  let ?hs = "hs[gs ! 62 := head]"
  have up: "hs_upd (set gs) hs ?hs" using pos by (simp add: pos_ok_def)
  have none: "\<forall>j. 31 < j \<and> j < 32 \<longrightarrow> neighbours head xs v j pos"
    by (intro allI impI, elim conjE) linarith
  obtain hs' w pos' where r: "hs_upd (set gs) ?hs hs'" "pos_ok pos' gs" "walk_result head xs v stop w pos'"
    "walk_loop (find_step tid v stop) tid head 31 head 1 pos (wg tid ?hs fr s) = Some (w, pos', wg tid hs' fr s)"
    using find_loop [OF ok tid _ pos _ _ none, of head 1 ?hs stop fr] by auto
  have walk: "walk_levels (find_step tid v stop) tid head pos (wg tid hs fr s) = Some (w, pos', wg tid hs' fr s)"
    using r(4) pos tid by (simp add: walk_levels_def pos_ok_def)
  have nz: "hit v xs \<Longrightarrow> it_addr (hd (above v xs)) \<noteq> 0 \<and>
      first_or_null (lev 0 (above v xs)) = it_addr (hd (above v xs))"
  proof -
    assume "hit v xs"
    then obtain i rest where A: "above v xs = i # rest" by (cases "above v xs") (auto simp: hit_def)
    then have "i \<in> set xs" using below_above [of xs v] by (metis in_set_conv_decomp)
    with ok have "item_ok (c_nodes s) i" by (simp add: list_ok_def)
    with A show ?thesis by (auto simp: item_ok_def)
  qed
  show ?thesis
    using r(3) unfolding walk_result_def
  proof (elim disjE exE conjE)
    assume "w = W_found (it_addr (hd (above v xs))) 0" "stop" "hit v xs"
    with walk nz show ?thesis
      using r(1,2) hs_upd_trans [OF up]
      by (intro exI [of _ hs'] exI [of _ "pos'\<lparr>pCur := it_addr (hd (above v xs))\<rparr>"])
        (auto simp: find_position_def pos_ok_def)
  next
    fix n
    assume w: "w = W_down (first_or_null (lev 0 (above v xs))) n" and n: "(n = 0) = hit v xs"
      and "\<not> (stop \<and> hit v xs)" and nb: "\<forall>j < 32. neighbours head xs v j pos'"
    show ?thesis
    proof (cases "hit v xs")
      case True
      with w n walk nz nb r(1,2) hs_upd_trans [OF up] show ?thesis
        by (intro exI [of _ hs'] exI [of _ "pos'\<lparr>pCur := it_addr (hd (above v xs))\<rparr>"])
          (auto simp: find_position_def pos_ok_def neighbours_def)
    next
      case False
      with w n walk nb r(1,2) hs_upd_trans [OF up] show ?thesis
        by (intro exI [of _ hs'] exI [of _ pos']) (auto simp: find_position_def)
    qed
  qed
qed

subsection \<open>The fast path of a search\<close>

abbreviation fast ::
  "nat \<Rightarrow> addr \<Rightarrow> int64 \<Rightarrow> nat list \<Rightarrow> nat \<Rightarrow> addr \<Rightarrow> marked_ptr \<Rightarrow> cds_state \<Rightarrow> (find_fastpath_result \<times> cds_state) option"
where
  "fast tid head v gs l p c s \<equiv> fastpath_loop tid head v gs 0 l p c s"

lemma fastpath_next:
  assumes "tid_ok tid s" and "b \<noteq> 0" and "aligned b" and "node_value b s = Some k" and "key_comparator k v < 0"
    and "link (c_nodes s) l b = Some c" and "aligned c"
  shows "fast tid head v gs l p b (wg tid hs fr s) =
    fast tid head v gs l b c (wg tid (hs[gs ! 0 := hs ! (gs ! 1), gs ! 1 := c]) fr s)"
proof -
  have "node_value b (wg tid hs fr s) = Some k" using assms(4) by (simp add: node_value_def)
  with assms show ?thesis
    by (subst fastpath_loop.simps)
      (simp only: mp_eq_def mp_all_def mp_unmarked if_True if_False simp_thms, simp)
qed

lemma fastpath_inner:
  assumes ok: "list_ok (c_nodes s) head xs" and tid: "tid_ok tid s" and l: "l < 32" and gs: "length gs = 2"
  shows "head # lev l (below v xs) = as @ p # bs \<Longrightarrow>
    \<exists>hs'. hs_upd (set gs) hs hs' \<and>
      fast tid head v gs l p (first_or_null (bs @ lev l (above v xs))) (wg tid hs fr s) =
      fast tid head v gs l (last (p # bs)) (first_or_null (lev l (above v xs))) (wg tid hs' fr s)"
proof (induction bs arbitrary: as p hs)
  case Nil
  show ?case by (intro exI [of _ hs]) simp
next
  case (Cons b bs)
  have split: "head # lev l (below v xs) = (as @ [p]) @ b # bs" using Cons.prems by simp
  then have b: "b \<in> set (lev l (below v xs))" by (cases as) auto
  then obtain k h where item: "(b, k, h) \<in> set (below v xs)" by (auto simp: lev_def)
  then have "(b, k, h) \<in> set xs" using below_above [of xs v] by (metis Un_iff set_append)
  with ok have iok: "item_ok (c_nodes s) (b, k, h)" by (auto simp: list_ok_def)
  note f = item_ok_facts [OF iok refl]
  have less: "key_comparator k v < 0"
    using below_less [OF item] by (simp add: key_comparator_iff)
  have link: "link (c_nodes s) l b = Some (first_or_null (bs @ lev l (above v xs)))"
    by (rule list_ok_link [OF ok l split])
  moreover obtain d where "link (c_nodes s) l b = Some d" "aligned d"
    using list_ok_link_item [OF ok l, of b] b lev_below_above by blast
  ultimately have al: "aligned (first_or_null (bs @ lev l (above v xs)))" by simp
  let ?c = "first_or_null (bs @ lev l (above v xs))"
  let ?hs1 = "hs[gs ! 0 := hs ! (gs ! 1)]"
  let ?hs2 = "?hs1[gs ! 1 := ?c]"
  have up: "hs_upd (set gs) hs ?hs2"
    using gs by (simp add: hs_upd_trans [OF hs_upd_update hs_upd_update])
  have "fast tid head v gs l p b (wg tid hs fr s) = fast tid head v gs l b ?c (wg tid ?hs2 fr s)"
    by (rule fastpath_next [OF tid f(1,2,3) less link al])
  moreover obtain hs' where "hs_upd (set gs) ?hs2 hs'"
    "fast tid head v gs l b ?c (wg tid ?hs2 fr s) =
     fast tid head v gs l (last (b # bs)) (first_or_null (lev l (above v xs))) (wg tid hs' fr s)"
    using Cons.IH [OF split, of ?hs2] by blast
  ultimately show ?case using hs_upd_trans [OF up] by (intro exI [of _ hs']) simp
qed

definition fast_result :: "int64 \<Rightarrow> item list \<Rightarrow> find_fastpath_result" where
  "fast_result v xs = (if hit v xs then find_fastpath_found else find_fastpath_not_found)"

text \<open>One level of the search, given the levels below it.\<close>

lemma fastpath_level:
  fixes v :: int64
  assumes ok: "list_ok (c_nodes s) head xs" and tid: "tid_ok tid s" and gs: "length gs = 2"
    and l: "l < 32" and p: "p \<in> set (head # lev l (below v xs))" and c: "link (c_nodes s) l p = Some c"
    and next_level: "\<And>hs1. l \<noteq> 0 \<Longrightarrow> \<exists>c' hs'. link (c_nodes s) (l - 1) (last (head # lev l (below v xs))) = Some c' \<and>
      hs_upd (set gs) hs1 hs' \<and>
      fast tid head v gs (l - 1) (last (head # lev l (below v xs))) c' (wg tid (hs1[gs ! 1 := mp_ptr c']) fr s)
        = Some (fast_result v xs, wg tid hs' fr s)"
  shows "\<exists>hs'. hs_upd (set gs) hs hs' \<and> fast tid head v gs l p c (wg tid hs fr s) =
      Some (fast_result v xs, wg tid hs' fr s)"
proof -
  let ?A = "above v xs" and ?p = "last (head # lev l (below v xs))"
  let ?c = "first_or_null (lev l ?A)"
  obtain as bs where split: "head # lev l (below v xs) = as @ p # bs" using p by (meson split_list)
  have lastp: "last (p # bs) = ?p" using split by (metis last_appendR list.distinct(1))
  have c': "c = first_or_null (bs @ lev l ?A)" using list_ok_link [OF ok l split] c by simp
  obtain hs1 where 1: "hs_upd (set gs) hs hs1"
    "fast tid head v gs l p c (wg tid hs fr s) = fast tid head v gs l ?p ?c (wg tid hs1 fr s)"
    using fastpath_inner [OF ok tid l gs split, of hs fr] lastp c' by auto
  have miss0: "\<not> hit v xs" if "l = 0" "?c = 0 \<or> (\<exists>k h rest. ?A = (?c, k, h) # rest \<and> k \<noteq> v)"
  proof -
    have items: "\<forall>i \<in> set ?A. item_ok (c_nodes s) i"
      using ok below_above [of xs v] unfolding list_ok_def by (metis Un_iff set_append)
    then have "lev 0 ?A = map it_addr ?A" "\<forall>i \<in> set ?A. it_addr i \<noteq> 0"
      by (auto simp: lev_0 item_ok_def)
    with that show ?thesis by (cases ?A) (auto simp: hit_def)
  qed
  show ?thesis
  proof (cases "lev l ?A = []")
    case True
    show ?thesis
    proof (cases "l = 0")
      case l0: True
      have "fast tid head v gs l ?p ?c (wg tid hs1 fr s) = Some (find_fastpath_not_found, wg tid hs1 fr s)"
        using True l0 by (subst fastpath_loop.simps) (simp add: mp_eq_def mp_all_def)
      with 1 miss0 True l0 show ?thesis by (intro exI [of _ hs1]) (simp add: fast_result_def)
    next
      case False
      obtain c1 hs2 where n: "link (c_nodes s) (l - 1) ?p = Some c1" "hs_upd (set gs) hs1 hs2"
        "fast tid head v gs (l - 1) ?p c1 (wg tid (hs1[gs ! 1 := mp_ptr c1]) fr s) = Some ((fast_result v xs), wg tid hs2 fr s)"
        using next_level [OF False, of hs1] by blast
      have "fast tid head v gs l ?p ?c (wg tid hs1 fr s) = Some ((fast_result v xs), wg tid hs2 fr s)"
        using True False n(1,3) tid by (subst fastpath_loop.simps) (simp add: mp_eq_def mp_all_def)
      with 1 n(2) hs_upd_trans show ?thesis by metis
    qed
  next
    case False
    then obtain k h rest where f: "filter (\<lambda>i. l < it_height i) ?A = (?c, k, h) # rest"
      by (cases "filter (\<lambda>i. l < it_height i) ?A") (auto simp: lev_def)
    then have "(?c, k, h) \<in> set (filter (\<lambda>i. l < it_height i) ?A)" by simp
    then have mem: "(?c, k, h) \<in> set ?A" by simp
    then have "(?c, k, h) \<in> set xs" using below_above [of xs v] by (metis Un_iff set_append)
    with ok have iok: "item_ok (c_nodes s) (?c, k, h)" by (auto simp: list_ok_def)
    note fc = item_ok_facts [OF iok refl]
    have val: "node_value ?c (wg tid hs1 fr s) = Some k" using fc(3) by (simp add: node_value_def)
    have "sint v \<le> sint k"
      using above_ge [OF list_ok_sorted [OF ok] mem] by simp
    then have ge: "\<not> key_comparator k v < 0" by (simp add: key_comparator_iff)
    show ?thesis
    proof (cases "k = v")
      case True
      then have "hit v xs"
        using above_hd [OF list_ok_sorted [OF ok] mem] mem by (auto simp: hit_def)
      moreover have "fast tid head v gs l ?p ?c (wg tid hs1 fr s) = Some (find_fastpath_found, wg tid hs1 fr s)"
        using True fc(1,2) val ge
        by (subst fastpath_loop.simps) (simp add: mp_eq_def mp_all_def key_comparator_iff)
      ultimately show ?thesis using 1 by (intro exI [of _ hs1]) (simp add: fast_result_def)
    next
      case kv: False
      then have nz: "key_comparator k v \<noteq> 0" by (simp add: key_comparator_iff)
      show ?thesis
      proof (cases "l = 0")
        case l0: True
        have "fast tid head v gs l ?p ?c (wg tid hs1 fr s) = Some (find_fastpath_not_found, wg tid hs1 fr s)"
          using l0 fc(1,2) val ge nz
          by (subst fastpath_loop.simps) (simp add: mp_eq_def mp_all_def)
        moreover have "\<not> hit v xs"
        proof (rule miss0 [OF l0], rule disjI2)
          have "\<forall>i \<in> set ?A. item_ok (c_nodes s) i"
            using ok below_above [of xs v] unfolding list_ok_def by (metis Un_iff set_append)
          then show "\<exists>k h rest. ?A = (?c, k, h) # rest \<and> k \<noteq> v"
            using f l0 kv lev_0(2) by metis
        qed
        ultimately show ?thesis using 1 by (intro exI [of _ hs1]) (simp add: fast_result_def)
      next
        case l1: False
        obtain c1 hs2 where n: "link (c_nodes s) (l - 1) ?p = Some c1" "hs_upd (set gs) hs1 hs2"
          "fast tid head v gs (l - 1) ?p c1 (wg tid (hs1[gs ! 1 := mp_ptr c1]) fr s) = Some ((fast_result v xs), wg tid hs2 fr s)"
          using next_level [OF l1, of hs1] by blast
        have "fast tid head v gs l ?p ?c (wg tid hs1 fr s) = Some ((fast_result v xs), wg tid hs2 fr s)"
          using l1 n(1,3) tid fc(1,2) val ge nz
          by (subst fastpath_loop.simps) (simp add: mp_eq_def mp_all_def)
        with 1 n(2) hs_upd_trans show ?thesis by metis
      qed
    qed
  qed
qed

lemma fastpath_loop_spec:
  fixes v :: int64
  assumes ok: "list_ok (c_nodes s) head xs" and tid: "tid_ok tid s" and gs: "length gs = 2"
  shows "l < 32 \<Longrightarrow> p \<in> set (head # lev l (below v xs)) \<Longrightarrow> link (c_nodes s) l p = Some c \<Longrightarrow>
    \<exists>hs'. hs_upd (set gs) hs hs' \<and> fast tid head v gs l p c (wg tid hs fr s) =
      Some (fast_result v xs, wg tid hs' fr s)"
proof (induction l arbitrary: p c hs)
  case 0
  show ?case by (rule fastpath_level [OF ok tid gs 0]) simp
next
  case (Suc l)
  let ?p = "last (head # lev (Suc l) (below v xs))"
  show ?case
  proof (rule fastpath_level [OF ok tid gs Suc.prems])
    fix hs1
    have "?p \<in> insert head (set (lev l (below v xs)))" by (intro last_mem lev_mono) simp
    then have p: "?p \<in> set (head # lev l (below v xs))" by simp
    then obtain as bs where "head # lev l (below v xs) = as @ ?p # bs" by (meson split_list)
    then obtain c where c: "link (c_nodes s) l ?p = Some c"
      using list_ok_link [OF ok] Suc.prems(1) by (metis Suc_lessD)
    obtain hs' where "hs_upd (set gs) (hs1[gs ! 1 := mp_ptr c]) hs'"
      "fast tid head v gs l ?p c (wg tid (hs1[gs ! 1 := mp_ptr c]) fr s) = Some (fast_result v xs, wg tid hs' fr s)"
      using Suc.IH [OF Suc_lessD [OF Suc.prems(1)] p c] by blast
    moreover have "hs_upd (set gs) hs1 (hs1[gs ! 1 := mp_ptr c])" using gs by simp
    ultimately show "\<exists>c' hs'. link (c_nodes s) (Suc l - 1) ?p = Some c' \<and> hs_upd (set gs) hs1 hs' \<and>
      fast tid head v gs (Suc l - 1) ?p c' (wg tid (hs1[gs ! 1 := mp_ptr c']) fr s)
        = Some (fast_result v xs, wg tid hs' fr s)"
      using c hs_upd_trans by (intro exI [of _ c] exI [of _ hs']) auto
  qed
qed

end
