(* ===== verification/Skip_List_Insert.thy ===== *)
theory Skip_List_Insert
  imports Skip_List_Find
begin

text \<open>
  What \<open>insert_at_position\<close> does to a well-formed set: the new node is linked at every level of its tower
  between the neighbours that \<open>find_position\<close> returned.
\<close>

subsection \<open>Paths around a node\<close>

definition tail_path :: "(addr \<rightharpoonup> sl_node) \<Rightarrow> nat \<Rightarrow> addr list \<Rightarrow> bool" where
  "tail_path ns l zs = (case zs of [] \<Rightarrow> True | z # zs' \<Rightarrow> path ns l z zs' 0)"

lemma path_split:
  "path ns l p (ys @ zs) 0 \<longleftrightarrow> path ns l p ys (first_or_null zs) \<and> tail_path ns l zs"
  by (cases zs) (simp_all add: tail_path_def path_append)

lemma tail_path_cong:
  "(\<And>b. b \<in> set zs \<Longrightarrow> link ns' l b = link ns l b) \<Longrightarrow> tail_path ns l zs \<Longrightarrow> tail_path ns' l zs"
proof (cases zs)
  case (Cons z zs')
  moreover assume "\<And>b. b \<in> set zs \<Longrightarrow> link ns' l b = link ns l b" "tail_path ns l zs"
  ultimately show ?thesis using path_cong [of z zs' ns' l ns 0] by (simp add: tail_path_def)
qed (simp add: tail_path_def)

text \<open>Redirecting the link before \<open>zs\<close>: the front part ends at \<open>q\<close>.\<close>

lemma path_front:
  assumes "path ns l p (ys @ zs) 0" and "distinct (p # ys)"
    and "link ns' l (last (p # ys)) = Some q"
    and "\<And>b. b \<in> set (p # ys) \<Longrightarrow> b \<noteq> last (p # ys) \<Longrightarrow> link ns' l b = link ns l b"
  shows "path ns' l p ys q"
proof (rule path_redirect)
  show "path ns l p ys (first_or_null zs)" using assms(1) by (simp add: path_split)
  fix b assume b: "b \<in> set (butlast (p # ys))"
  have "distinct (butlast (p # ys) @ [last (p # ys)])"
    using assms(2) last_split [of p ys] by metis
  with b have "b \<noteq> last (p # ys)" by auto
  moreover have "b \<in> set (p # ys)" using b by (rule in_set_butlastD)
  ultimately show "link ns' l b = link ns l b" by (rule assms(4) [rotated])
qed (use assms in auto)

lemma path_insert:
  assumes "path ns l p (ys @ zs) 0" and "distinct (p # ys @ zs)"
    and "link ns' l a = Some (first_or_null zs)" and "link ns' l (last (p # ys)) = Some a"
    and "\<And>b. b \<in> set (p # ys @ zs) \<Longrightarrow> b \<noteq> last (p # ys) \<Longrightarrow> link ns' l b = link ns l b"
  shows "path ns' l p (ys @ a # zs) 0"
proof -
  have "path ns' l p ys a"
    by (rule path_front [OF assms(1)]) (use assms in auto)
  moreover have "tail_path ns' l zs"
  proof (rule tail_path_cong)
    show "tail_path ns l zs" using assms(1) by (simp add: path_split)
    fix b assume b: "b \<in> set zs"
    have "last (p # ys) \<in> set (p # ys)" by (rule last_in_set) simp
    with b assms(2) have "b \<noteq> last (p # ys)" by auto
    with b assms(5) show "link ns' l b = link ns l b" by simp
  qed
  moreover have "path ns' l a zs 0 \<longleftrightarrow> tail_path ns' l zs"
    using assms(3) by (cases zs) (auto simp: tail_path_def)
  ultimately show ?thesis by (simp add: path_append)
qed

lemma path_remove:
  assumes "path ns l p (ys @ d # zs) 0" and "distinct (p # ys @ zs)"
    and "link ns' l (last (p # ys)) = Some (first_or_null zs)"
    and "\<And>b. b \<in> set (p # ys @ zs) \<Longrightarrow> b \<noteq> last (p # ys) \<Longrightarrow> link ns' l b = link ns l b"
  shows "path ns' l p (ys @ zs) 0"
proof -
  have "path ns' l p ys (first_or_null zs)"
    by (rule path_front [OF assms(1)]) (use assms in auto)
  moreover have "tail_path ns' l zs"
  proof (rule tail_path_cong)
    have "path ns l d zs 0" using assms(1) by (simp add: path_append)
    then show "tail_path ns l zs" by (cases zs) (auto simp: tail_path_def)
    fix b assume b: "b \<in> set zs"
    have "last (p # ys) \<in> set (p # ys)" by (rule last_in_set) simp
    with b assms(2) have "b \<noteq> last (p # ys)" by auto
    with b assms(4) show "link ns' l b = link ns l b" by simp
  qed
  ultimately show ?thesis by (simp add: path_split)
qed

subsection \<open>The neighbours\<close>

abbreviation prev_at :: "addr \<Rightarrow> item list \<Rightarrow> int64 \<Rightarrow> nat \<Rightarrow> addr" where
  "prev_at head xs v l \<equiv> last (head # lev l (below v xs))"

lemma below_subset: "set (below v xs) \<subseteq> set xs" and above_subset: "set (above v xs) \<subseteq> set xs"
  by (auto simp: below_def above_def dest: set_takeWhileD set_dropWhileD)

lemma prev_at_mem: "prev_at head xs v l \<in> blocks head xs"
  using lev_subset [of l "below v xs"] below_subset [of v xs] by (intro last_mem) fast

lemma prev_at_link:
  assumes "list_ok ns head xs" and "l < 32"
  shows "link ns l (prev_at head xs v l) = Some (first_or_null (lev l (above v xs)))"
  using list_ok_link [OF assms, of v "butlast (head # lev l (below v xs))" "prev_at head xs v l" "[]"]
    last_split [of head "lev l (below v xs)"] by simp

subsection \<open>Linking the new node\<close>

lemma clear_levels_spec:
  assumes "\<forall>l \<in> set ls. link (c_nodes s) l a \<noteq> None"
  shows "\<exists>ns. clear_levels a ls s = Some (s\<lparr>c_nodes := ns\<rparr>) \<and> attr ns = attr (c_nodes s) \<and>
    (\<forall>l b. link ns l b = (if b = a \<and> l \<in> set ls then Some 0 else link (c_nodes s) l b)) \<and>
    (\<forall>b. b \<noteq> a \<longrightarrow> ns b = c_nodes s b)"
  using assms
proof (induction ls arbitrary: s)
  case Nil
  show ?case by (intro exI [of _ "c_nodes s"]) simp
next
  case (Cons l ls)
  let ?s = "s\<lparr>c_nodes := upd_link a l 0 (c_nodes s)\<rparr>"
  have step: "node_store a l 0 s = Some ?s"
    using Cons.prems by (intro node_store_link) simp
  have lk: "link (c_nodes ?s) l' b = (if a = b \<and> l = l' then Some 0 else link (c_nodes s) l' b)" for l' b
    using Cons.prems link_upd_link [of "c_nodes s" l a 0 l' b] by simp
  then have "\<forall>l \<in> set ls. link (c_nodes ?s) l a \<noteq> None" using Cons.prems by simp
  then obtain ns where r: "clear_levels a ls ?s = Some (?s\<lparr>c_nodes := ns\<rparr>)" "attr ns = attr (c_nodes ?s)"
    "\<forall>l b. link ns l b = (if b = a \<and> l \<in> set ls then Some 0 else link (c_nodes ?s) l b)"
    "\<forall>b. b \<noteq> a \<longrightarrow> ns b = c_nodes ?s b"
    using Cons.IH [of ?s] by blast
  show ?case
  proof (intro exI [of _ ns] conjI allI impI)
    show "clear_levels a (l # ls) s = Some (s\<lparr>c_nodes := ns\<rparr>)" using step r(1) by simp
    show "attr ns = attr (c_nodes s)" using r(2) by simp
    show "link ns l' b = (if b = a \<and> l' \<in> set (l # ls) then Some 0 else link (c_nodes s) l' b)" for l' b
      using r(3) lk by auto
    show "ns b = c_nodes s b" if "b \<noteq> a" for b
      using r(4) that by (simp add: upd_link_other)
  qed
qed

text \<open>The store when the new node \<open>a\<close> of height \<open>h\<close> is linked at the levels below \<open>k\<close>.\<close>

definition linked_to ::
  "(addr \<rightharpoonup> sl_node) \<Rightarrow> addr \<Rightarrow> nat \<Rightarrow> (nat \<Rightarrow> addr) \<Rightarrow> (nat \<Rightarrow> addr) \<Rightarrow> nat \<Rightarrow> (addr \<rightharpoonup> sl_node) \<Rightarrow> bool" where
  "linked_to ns0 a h P S k ns \<longleftrightarrow> attr ns = attr ns0 \<and>
     (\<forall>l b. link ns l b =
        (if b = a \<and> l < h then Some (if l < k then S l else 0)
         else if l < k \<and> b = P l then Some a else link ns0 l b)) \<and>
     (\<forall>b. b \<noteq> a \<and> b \<notin> range P \<longrightarrow> ns b = ns0 b)"

lemma link_levels_spec:
  fixes P S :: "nat \<Rightarrow> addr"
  assumes h: "h \<le> 32" and pos: "\<forall>l < 32. pPrev pos ! l = P l \<and> pSucc pos ! l = S l"
    and P: "\<forall>l < 32. link ns0 l (P l) = Some (S l) \<and> P l \<noteq> a"
  shows "k \<le> h \<Longrightarrow> linked_to ns0 a h P S k (c_nodes s) \<Longrightarrow>
    \<exists>ns. link_levels tid head v a h k 0 pos s = Some (pos, s\<lparr>c_nodes := ns\<rparr>) \<and> linked_to ns0 a h P S h ns"
proof (induction "h - k" arbitrary: k s)
  case 0
  then show ?case by (intro exI [of _ "c_nodes s"]) (simp add: link_levels.simps)
next
  case (Suc m)
  then have k: "k < h" and m: "m = h - Suc k" by simp_all
  have st: "link (c_nodes s) k a = Some 0" "link (c_nodes s) k (P k) = Some (S k)"
    using Suc.prems(2) k h P by (auto simp: linked_to_def)
  let ?ns1 = "upd_link a k (S k) (c_nodes s)"
  let ?s1 = "s\<lparr>c_nodes := ?ns1\<rparr>"
  have l1: "link ?ns1 l b = (if a = b \<and> k = l then Some (S k) else link (c_nodes s) l b)" for l b
    using st(1) by (simp add: link_upd_link)
  have Pa: "P k \<noteq> a" using P k h by simp
  let ?ns2 = "upd_link (P k) k a ?ns1"
  let ?s2 = "s\<lparr>c_nodes := ?ns2\<rparr>"
  have "link ?ns1 k (P k) = Some (S k)" using l1 st(2) Pa by simp
  then have l2: "link ?ns2 l b = (if P k = b \<and> k = l then Some a else link ?ns1 l b)" for l b
    by (simp add: link_upd_link)
  have c1: "node_cas a k 0 (S k) s = Some (True, 0, ?s1)"
    using node_cas_link [OF st(1)] by simp
  have c2: "node_cas (P k) k (S k) a ?s1 = Some (True, S k, ?s2)"
    using node_cas_link [of ?s1 k "P k" "S k"] l1 st(2) Pa by simp
  have "linked_to ns0 a h P S (Suc k) ?ns2"
    unfolding linked_to_def
  proof (intro conjI allI impI)
    show "attr ?ns2 = attr ns0" using Suc.prems(2) by (simp add: linked_to_def)
    fix l b
    show "link ?ns2 l b =
        (if b = a \<and> l < h then Some (if l < Suc k then S l else 0)
         else if l < Suc k \<and> b = P l then Some a else link ns0 l b)"
      using l1 l2 Pa k Suc.prems(2) by (auto simp: linked_to_def less_Suc_eq)
  next
    fix b assume "b \<noteq> a \<and> b \<notin> range P"
    moreover from this have "b \<noteq> P k" by auto
    ultimately show "?ns2 b = ns0 b"
      using Suc.prems(2) by (simp add: upd_link_other linked_to_def)
  qed
  then obtain ns where "link_levels tid head v a h (Suc k) 0 pos ?s2 = Some (pos, ?s2\<lparr>c_nodes := ns\<rparr>)"
    "linked_to ns0 a h P S h ns"
    using Suc.hyps(1) [of "Suc k" ?s2] m k by auto
  moreover have "pPrev pos ! k = P k" "pSucc pos ! k = S k" using pos k h by auto
  ultimately show ?case
    using c1 c2 k by (subst link_levels.simps) (auto simp: Let_def)
qed

text \<open>The new node before it is linked: its links are null.\<close>

definition fresh_node :: "(addr \<rightharpoonup> sl_node) \<Rightarrow> addr \<Rightarrow> int64 \<Rightarrow> nat \<Rightarrow> bool" where
  "fresh_node ns a v h \<longleftrightarrow> item_ok ns (a, v, h) \<and> (\<forall>l < h. link ns l a = Some 0)"

lemma insert_at_position_spec:
  assumes ok: "list_ok (c_nodes s) head xs" and new: "fresh_node (c_nodes s) a v h" "a \<notin> blocks head xs"
    and pos: "\<forall>j < 32. neighbours head xs v j pos"
  shows "\<exists>ns. insert_at_position tid head v a pos s = Some (True, pos, s\<lparr>c_nodes := ns\<rparr>) \<and>
    linked_to (c_nodes s) a h (\<lambda>l. prev_at head xs v l) (\<lambda>l. first_or_null (lev l (above v xs))) h ns"
proof -
  let ?P = "\<lambda>l. prev_at head xs v l" and ?S = "\<lambda>l. first_or_null (lev l (above v xs))"
  have item: "item_ok (c_nodes s) (a, v, h)" and z: "\<forall>l < h. link (c_nodes s) l a = Some 0"
    using new by (auto simp: fresh_node_def)
  have h: "1 \<le> h" "h \<le> 32" "node_height a s = Some h"
    using item_ok_facts [OF item refl] by auto
  have P: "\<forall>l < 32. link (c_nodes s) l (?P l) = Some (?S l) \<and> ?P l \<noteq> a"
    using prev_at_link [OF ok] prev_at_mem new(2) by metis
  have posl: "\<forall>l < 32. pPrev pos ! l = ?P l \<and> pSucc pos ! l = ?S l"
    using pos by (auto simp: neighbours_def)
  obtain ns1 where n1: "clear_levels a [1..<h] s = Some (s\<lparr>c_nodes := ns1\<rparr>)" "attr ns1 = attr (c_nodes s)"
    "\<forall>l b. link ns1 l b = (if b = a \<and> l \<in> set [1..<h] then Some 0 else link (c_nodes s) l b)"
    "\<forall>b. b \<noteq> a \<longrightarrow> ns1 b = c_nodes s b"
    using clear_levels_spec [of "[1..<h]" s a] z by auto
  have l1: "link ns1 l b = link (c_nodes s) l b" for l b using n1(3) z by auto
  let ?ns2 = "upd_link a 0 (?S 0) ns1"
  have a0: "link ns1 0 a = Some 0" using l1 z h(1) by simp
  have l2: "link ?ns2 l b = (if a = b \<and> 0 = l then Some (?S 0) else link (c_nodes s) l b)" for l b
    using a0 l1 by (simp add: link_upd_link)
  have st: "node_store a 0 (?S 0) (s\<lparr>c_nodes := ns1\<rparr>) = Some (s\<lparr>c_nodes := ?ns2\<rparr>)"
    using node_store_link [of "s\<lparr>c_nodes := ns1\<rparr>" 0 a "?S 0"] a0 by simp
  have p0: "link ?ns2 0 (?P 0) = Some (?S 0)" using l2 P by simp
  let ?ns3 = "upd_link (?P 0) 0 a ?ns2"
  have l3: "link ?ns3 l b = (if ?P 0 = b \<and> 0 = l then Some a else link ?ns2 l b)" for l b
    using p0 by (simp add: link_upd_link)
  have cas: "node_cas (?P 0) 0 (?S 0) a (s\<lparr>c_nodes := ?ns2\<rparr>) = Some (True, ?S 0, s\<lparr>c_nodes := ?ns3\<rparr>)"
    using node_cas_link [of "s\<lparr>c_nodes := ?ns2\<rparr>" 0 "?P 0" "?S 0"] p0 by simp
  have "linked_to (c_nodes s) a h ?P ?S 1 ?ns3"
    unfolding linked_to_def
  proof (intro conjI allI impI)
    show "attr ?ns3 = attr (c_nodes s)" using n1(2) by simp
    fix l b
    have Pa: "?P 0 \<noteq> a" using P by simp
    show "link ?ns3 l b =
        (if b = a \<and> l < h then Some (if l < 1 then ?S l else 0)
         else if l < 1 \<and> b = ?P l then Some a else link (c_nodes s) l b)"
      unfolding l3 l2 using Pa h(1) z by (cases "l = 0"; cases "b = a"; simp; force)
  next
    fix b assume b: "b \<noteq> a \<and> b \<notin> range ?P"
    then have "b \<noteq> ?P 0" by (metis rangeI)
    with b n1(4) show "?ns3 b = c_nodes s b" by (simp add: upd_link_other)
  qed
  then obtain ns where ns: "link_levels tid head v a h 1 0 pos (s\<lparr>c_nodes := ?ns3\<rparr>)
      = Some (pos, s\<lparr>c_nodes := ns\<rparr>)" "linked_to (c_nodes s) a h ?P ?S h ns"
    using link_levels_spec [OF h(2) posl P h(1), of "s\<lparr>c_nodes := ?ns3\<rparr>" tid head v] by auto
  have "pPrev pos ! 0 = ?P 0" "pSucc pos ! 0 = ?S 0" using posl by auto
  then have "insert_at_position tid head v a pos s = Some (True, pos, s\<lparr>c_nodes := ns\<rparr>)"
    using h(3) n1(1) st cas ns(1) by (simp add: insert_at_position_def)
  with ns(2) show ?thesis by blast
qed

text \<open>The set with the new item.\<close>

lemma attr_item_ok: "attr ns' = attr ns \<Longrightarrow> item_ok ns' i = item_ok ns i"
  by (simp add: item_ok_def)

lemma list_ok_insert:
  assumes ok: "list_ok ns head xs" and new: "fresh_node ns a v h" "a \<notin> blocks head xs" and miss: "\<not> hit v xs"
    and ns': "linked_to ns a h (\<lambda>l. prev_at head xs v l) (\<lambda>l. first_or_null (lev l (above v xs))) h ns'"
  shows "list_ok ns' head (below v xs @ (a, v, h) # above v xs)"
proof -
  let ?B = "below v xs" and ?A = "above v xs"
  have xs: "xs = ?B @ ?A" by (rule below_above)
  have item: "item_ok ns (a, v, h)" using new by (simp add: fresh_node_def)
  have attr: "attr ns' = attr ns" using ns' by (simp add: linked_to_def)
  have dist: "distinct (head # map it_addr (?B @ ?A))" using ok xs by (metis list_ok_def)
  have "head_ok ns' head" using ok attr by (simp add: list_ok_def head_ok_def)
  moreover have "\<forall>i \<in> set (?B @ (a, v, h) # ?A). item_ok ns' i"
    using ok xs item attr_item_ok [OF attr] unfolding list_ok_def
    by (metis Un_iff insert_iff list.simps(15) set_append)
  moreover have "distinct (head # map it_addr (?B @ (a, v, h) # ?A))"
  proof -
    have "it_addr ` set xs = it_addr ` set ?B \<union> it_addr ` set ?A"
      using xs by (metis image_Un set_append)
    then show ?thesis using dist new(2) by auto
  qed
  moreover have "sorted_wrt (<) (map (\<lambda>i. sint (it_key i)) (?B @ (a, v, h) # ?A))"
  proof -
    have srt: "sorted_wrt (<) (map (\<lambda>i. sint (it_key i)) xs)" using ok by (simp add: list_ok_def)
    then have srt': "sorted_wrt (<) (map (\<lambda>i. sint (it_key i)) (?B @ ?A))" using xs by simp
    have "sint v < sint (it_key i)" if i: "i \<in> set ?A" for i
    proof -
      have "it_key i \<noteq> v"
        using above_hd [OF srt i] miss i by (auto simp: hit_def)
      with above_ge [OF srt i] show ?thesis by (simp add: order_less_le sint_eq_iff)
    qed
    moreover have "\<forall>i \<in> set ?B. sint (it_key i) < sint v" using below_less by blast
    ultimately show ?thesis using srt' by (auto simp: sorted_wrt_append)
  qed
  moreover have "\<forall>l < c_nMaxHeight. path ns' l head (lev l (?B @ (a, v, h) # ?A)) 0"
  proof (intro allI impI)
    fix l assume "l < c_nMaxHeight"
    then have l: "l < 32" by simp
    have p: "path ns l head (lev l ?B @ lev l ?A) 0" by (rule list_ok_path [OF ok l])
    have sub: "set (lev l ?B @ lev l ?A) \<subseteq> it_addr ` set xs"
      using lev_subset [of l xs] lev_below_above [of l xs v] by auto
    have dl: "distinct (head # lev l ?B @ lev l ?A)"
    proof -
      have "distinct (lev l ?B @ lev l ?A)"
        using dist distinct_lev [of "?B @ ?A" l] by simp
      moreover have "head \<notin> it_addr ` set xs" using ok by (auto simp: list_ok_def)
      ultimately show ?thesis using sub by auto
    qed
    have old: "link ns' l b = link ns l b"
      if "b \<in> set (head # lev l ?B @ lev l ?A)" "b \<noteq> prev_at head xs v l \<or> \<not> l < h" for b
    proof -
      have "b \<noteq> a" using that(1) sub new(2) by auto
      with that(2) ns' show ?thesis by (auto simp: linked_to_def)
    qed
    show "path ns' l head (lev l (?B @ (a, v, h) # ?A)) 0"
    proof (cases "l < h")
      case True
      have "link ns' l a = Some (first_or_null (lev l ?A))" using ns' True by (simp add: linked_to_def)
      moreover have "prev_at head xs v l \<noteq> a"
        using prev_at_mem new(2) by metis
      then have "link ns' l (prev_at head xs v l) = Some a"
        using ns' True unfolding linked_to_def by simp
      ultimately show ?thesis using path_insert [OF p dl] old True by simp
    next
      case False
      then have "path ns' l head (lev l ?B @ lev l ?A) 0"
        using p old path_cong [of head "lev l ?B @ lev l ?A" ns l ns' 0] by simp
      then show ?thesis using False by simp
    qed
  qed
  ultimately show ?thesis unfolding list_ok_def by blast
qed

end
