(* ===== verification/Skip_List_Erase.thy ===== *)
theory Skip_List_Erase
  imports Skip_List_Insert
begin

text \<open>
  What \<open>try_remove_at\<close> does to a well-formed set: it marks the links of the node, unlinks it from the top
  level down and retires it.
\<close>

subsection \<open>Marking\<close>

lemma mark_level_spec:
  assumes "link (c_nodes s) l d = Some p"
  shows "mark_level d l p s = Some (s\<lparr>c_nodes := upd_link d l (mp_or p 1) (c_nodes s)\<rparr>)"
  using assms by (subst mark_level.simps) (simp add: node_cas_link)

lemma mark_levels_spec:
  assumes "\<forall>l \<in> set ls. link (c_nodes s) l d = Some (D l) \<and> aligned (D l)" and "distinct ls"
  shows "\<exists>ns. mark_levels d ls s = Some (s\<lparr>c_nodes := ns\<rparr>) \<and> attr ns = attr (c_nodes s) \<and>
    (\<forall>l b. link ns l b = (if b = d \<and> l \<in> set ls then Some (mp_or (D l) 1) else link (c_nodes s) l b)) \<and>
    (\<forall>b. b \<noteq> d \<longrightarrow> ns b = c_nodes s b)"
  using assms
proof (induction ls arbitrary: s)
  case Nil
  show ?case by (intro exI [of _ "c_nodes s"]) simp
next
  case (Cons l ls)
  let ?s = "s\<lparr>c_nodes := upd_link d l (mp_or (D l) 1) (c_nodes s)\<rparr>"
  have lkd: "link (c_nodes s) l d = Some (D l)" using Cons.prems by simp
  have lk: "link (c_nodes ?s) l' b =
      (if d = b \<and> l = l' then Some (mp_or (D l) 1) else link (c_nodes s) l' b)" for l' b
    using lkd link_upd_link [of "c_nodes s" l d "mp_or (D l) 1" l' b] by simp
  have "\<forall>l' \<in> set ls. link (c_nodes ?s) l' d = Some (D l') \<and> aligned (D l')"
    using Cons.prems lk by auto
  then obtain ns where r: "mark_levels d ls ?s = Some (?s\<lparr>c_nodes := ns\<rparr>)" "attr ns = attr (c_nodes ?s)"
    "\<forall>l b. link ns l b = (if b = d \<and> l \<in> set ls then Some (mp_or (D l) 1) else link (c_nodes ?s) l b)"
    "\<forall>b. b \<noteq> d \<longrightarrow> ns b = c_nodes ?s b"
    using Cons.IH [of ?s] Cons.prems(2) by auto
  show ?case
  proof (intro exI [of _ ns] conjI allI impI)
    show "mark_levels d (l # ls) s = Some (s\<lparr>c_nodes := ns\<rparr>)"
      using lkd r(1) Cons.prems(1) mark_level_spec [OF lkd] by (simp add: node_load_link)
    show "attr ns = attr (c_nodes s)" using r(2) by simp
    show "link ns l' b = (if b = d \<and> l' \<in> set (l # ls) then Some (mp_or (D l') 1) else link (c_nodes s) l' b)"
      for l' b using r(3) lk by auto
    show "ns b = c_nodes s b" if "b \<noteq> d" for b
      using r(4) that by (simp add: upd_link_other)
  qed
qed

subsection \<open>Unlinking\<close>

text \<open>The value of a node, which no operation on its links changes.\<close>

abbreviation val_of :: "(addr \<rightharpoonup> sl_node) \<Rightarrow> addr \<Rightarrow> int64 option option" where
  "val_of ns b \<equiv> map_option sn_value (ns b)"

lemma attr_val: "attr ns b = attr ns' b \<Longrightarrow> val_of ns b = val_of ns' b"
  by (auto simp: attr_def map_option_case split: option.splits)

text \<open>The store when the node \<open>d\<close> of height \<open>h\<close> is unlinked at the levels from \<open>n\<close> up.\<close>

definition unlinked_from ::
  "(addr \<rightharpoonup> sl_node) \<Rightarrow> addr \<Rightarrow> nat \<Rightarrow> (nat \<Rightarrow> addr) \<Rightarrow> (nat \<Rightarrow> addr) \<Rightarrow> nat \<Rightarrow> (addr \<rightharpoonup> sl_node) \<Rightarrow> bool" where
  "unlinked_from ns0 d h P D n ns \<longleftrightarrow> dom ns = dom ns0 \<and>
     (\<forall>b. b \<noteq> d \<longrightarrow> attr ns b = attr ns0 b) \<and> (\<forall>b. val_of ns b = val_of ns0 b) \<and>
     (\<forall>l b. link ns l b = (if n \<le> l \<and> l < h \<and> b = P l then Some (D l) else link ns0 l b)) \<and>
     (\<forall>b. b \<noteq> d \<and> b \<notin> range P \<longrightarrow> ns b = ns0 b)"

lemma dom_upd_link [simp]: "dom (upd_link a l p ns) = dom ns"
  by (auto simp: upd_link_def split: option.splits)

lemma level_unlinked_spec:
  assumes "link (c_nodes s) l d \<noteq> None"
  shows "\<exists>r ns. level_unlinked n d s = Some (r, s\<lparr>c_nodes := ns\<rparr>) \<and> dom ns = dom (c_nodes s) \<and>
    (\<forall>l b. link ns l b = link (c_nodes s) l b) \<and> (\<forall>b. b \<noteq> d \<longrightarrow> ns b = c_nodes s b) \<and>
    (\<forall>b. val_of ns b = val_of (c_nodes s) b)"
proof -
  obtain n' where n': "c_nodes s d = Some n'" using assms by (auto simp: link_def)
  let ?ns = "(c_nodes s)(d \<mapsto> n'\<lparr>sn_nUnlink := sn_nUnlink n' - of_nat n\<rparr>)"
  have "\<forall>l b. link ?ns l b = link (c_nodes s) l b"
    using n' by (simp add: link_def sn_next_def)
  with n' show ?thesis
    by (intro exI [of _ "sn_nUnlink n' = 1"] exI [of _ ?ns]) (auto simp: level_unlinked_def)
qed

lemma unlink_levels_spec:
  fixes P D :: "nat \<Rightarrow> addr"
  assumes pos: "\<forall>l < h. pPrev pos ! l = P l"
    and P: "\<forall>l < h. link ns0 l (P l) = Some d \<and> P l \<noteq> d"
    and D: "\<forall>l < h. link ns0 l d = Some (mp_or (D l) 1) \<and> aligned (D l)"
  shows "n \<le> h \<Longrightarrow> unlinked_from ns0 d h P D n (c_nodes s) \<Longrightarrow>
    \<exists>ns. unlink_levels tid head d n pos s =
           map_option (\<lambda>s. (pos, s)) (gc_retire tid d (s\<lparr>c_nodes := ns\<rparr>)) \<and>
         unlinked_from ns0 d h P D 0 ns"
proof (induction n arbitrary: s)
  case 0
  then show ?case
    by (intro exI [of _ "c_nodes s"]) (cases "gc_retire tid d s"; simp)
next
  case (Suc n)
  then have n: "n < h" by simp
  have st: "link (c_nodes s) n (P n) = Some d" "link (c_nodes s) n d = Some (mp_or (D n) 1)"
    using Suc.prems(2) P D n by (auto simp: unlinked_from_def)
  let ?s1 = "s\<lparr>c_nodes := upd_link (P n) n (D n) (c_nodes s)\<rparr>"
  have l1: "link (c_nodes ?s1) l b = (if P n = b \<and> n = l then Some (D n) else link (c_nodes s) l b)" for l b
    using st(1) by (simp add: link_upd_link)
  have cas: "node_cas (P n) n d (D n) s = Some (True, d, ?s1)"
    using node_cas_link [OF st(1)] by simp
  have Pd: "P n \<noteq> d" using P n by simp
  have "link (c_nodes ?s1) n d \<noteq> None" using l1 st(2) Pd by simp
  from level_unlinked_spec [OF this, of 1] obtain r ns1 where u: "level_unlinked 1 d ?s1 = Some (r, ?s1\<lparr>c_nodes := ns1\<rparr>)"
    "dom ns1 = dom (c_nodes ?s1)" "\<forall>l b. link ns1 l b = link (c_nodes ?s1) l b"
    "\<forall>b. b \<noteq> d \<longrightarrow> ns1 b = c_nodes ?s1 b" "\<forall>b. val_of ns1 b = val_of (c_nodes ?s1) b"
    by blast
  have "unlinked_from ns0 d h P D n ns1"
    unfolding unlinked_from_def
  proof (intro conjI allI impI)
    show "dom ns1 = dom ns0" using u(2) Suc.prems(2) by (simp add: unlinked_from_def)
    show "attr ns1 b = attr ns0 b" if b: "b \<noteq> d" for b
    proof -
      have "attr ns1 b = attr (c_nodes ?s1) b" by (simp only: attr_def u(4) [rule_format, OF b])
      also have "\<dots> = attr ns0 b" using Suc.prems(2) b by (simp add: unlinked_from_def)
      finally show ?thesis .
    qed
    show "val_of ns1 b = val_of ns0 b" for b
    proof -
      have "val_of (c_nodes ?s1) b = val_of (c_nodes s) b" by (rule attr_val) simp
      then show ?thesis using u(5) Suc.prems(2) by (simp add: unlinked_from_def)
    qed
    show "link ns1 l b = (if n \<le> l \<and> l < h \<and> b = P l then Some (D l) else link ns0 l b)" for l b
      using u(3) l1 Suc.prems(2) n unfolding unlinked_from_def
      by (cases "l = n") (auto simp: Suc_le_eq)
    show "ns1 b = ns0 b" if "b \<noteq> d \<and> b \<notin> range P" for b
    proof -
      have "b \<noteq> P n" using that by auto
      then show ?thesis using u(4) that Suc.prems(2) by (simp add: upd_link_other unlinked_from_def)
    qed
  qed
  then obtain ns where r: "unlink_levels tid head d n pos (?s1\<lparr>c_nodes := ns1\<rparr>) =
      map_option (\<lambda>s. (pos, s)) (gc_retire tid d ((?s1\<lparr>c_nodes := ns1\<rparr>)\<lparr>c_nodes := ns\<rparr>))"
    "unlinked_from ns0 d h P D 0 ns"
    using Suc.IH [of "?s1\<lparr>c_nodes := ns1\<rparr>"] n by auto
  have Dn: "aligned (D n)" "pPrev pos ! n = P n" using D pos n by auto
  show ?case
    using r cas u(1) st(2) Dn by (intro exI [of _ ns]) (simp add: node_load_link)
qed

subsection \<open>Removing a node\<close>

text \<open>The store after the node has been unlinked; its own links do not matter any more.\<close>

definition removed_from ::
  "(addr \<rightharpoonup> sl_node) \<Rightarrow> addr \<Rightarrow> nat \<Rightarrow> (nat \<Rightarrow> addr) \<Rightarrow> (nat \<Rightarrow> addr) \<Rightarrow> (addr \<rightharpoonup> sl_node) \<Rightarrow> bool" where
  "removed_from ns0 d h P D ns \<longleftrightarrow> dom ns = dom ns0 \<and> (\<forall>b. b \<noteq> d \<longrightarrow> attr ns b = attr ns0 b) \<and>
     (\<forall>b. val_of ns b = val_of ns0 b) \<and>
     (\<forall>l b. b \<noteq> d \<longrightarrow> link ns l b = (if l < h \<and> b = P l then Some (D l) else link ns0 l b)) \<and>
     (\<forall>b. b \<noteq> d \<and> b \<notin> range P \<longrightarrow> ns b = ns0 b)"

lemma try_remove_at_store:
  fixes P D :: "nat \<Rightarrow> addr"
  assumes h: "node_height d s = Some h" "1 \<le> h" and pos: "\<forall>l < h. pPrev pos ! l = P l"
    and P: "\<forall>l < h. link (c_nodes s) l (P l) = Some d \<and> P l \<noteq> d"
    and D: "\<forall>l < h. link (c_nodes s) l d = Some (D l) \<and> aligned (D l)"
  shows "\<exists>ns. try_remove_at tid head d pos s =
      map_option (\<lambda>s. (True, pos, s)) (gc_retire tid d (s\<lparr>c_nodes := ns\<rparr>)) \<and>
    removed_from (c_nodes s) d h P D ns"
proof -
  have "\<forall>l \<in> set (rev [1..<h]). link (c_nodes s) l d = Some (D l) \<and> aligned (D l)" using D by simp
  from mark_levels_spec [OF this] obtain ns1 where n1: "mark_levels d (rev [1..<h]) s = Some (s\<lparr>c_nodes := ns1\<rparr>)"
    "attr ns1 = attr (c_nodes s)"
    "\<forall>l b. link ns1 l b = (if b = d \<and> l \<in> set (rev [1..<h]) then Some (mp_or (D l) 1) else link (c_nodes s) l b)"
    "\<forall>b. b \<noteq> d \<longrightarrow> ns1 b = c_nodes s b"
    by auto
  have d0: "link ns1 0 d = Some (D 0)" "aligned (D 0)" using n1(3) D h(2) by auto
  let ?ns2 = "upd_link d 0 (mp_or (D 0) 1) ns1"
  let ?s2 = "s\<lparr>c_nodes := ?ns2\<rparr>"
  have cas: "node_cas d 0 (D 0) (mp_or (D 0) 1) (s\<lparr>c_nodes := ns1\<rparr>) = Some (True, D 0, ?s2)"
    using node_cas_link [of "s\<lparr>c_nodes := ns1\<rparr>" 0 d "D 0"] d0 by simp
  have l2: "link ?ns2 l b = (if b = d \<and> l < h then Some (mp_or (D l) 1) else link (c_nodes s) l b)" for l b
    using d0(1) n1(3) h(2) by (auto simp: link_upd_link)
  have P2: "\<forall>l < h. link ?ns2 l (P l) = Some d \<and> P l \<noteq> d" using l2 P by simp
  have D2: "\<forall>l < h. link ?ns2 l d = Some (mp_or (D l) 1) \<and> aligned (D l)" using l2 D by simp
  have "unlinked_from ?ns2 d h P D h (c_nodes ?s2)" by (auto simp: unlinked_from_def)
  then obtain ns where r: "unlink_levels tid head d h pos ?s2 =
      map_option (\<lambda>s. (pos, s)) (gc_retire tid d (?s2\<lparr>c_nodes := ns\<rparr>))"
    "unlinked_from ?ns2 d h P D 0 ns"
    using unlink_levels_spec [OF pos P2 D2, of h ?s2 tid head] by auto
  have "try_remove_at tid head d pos s =
      map_option (\<lambda>s. (True, pos, s)) (gc_retire tid d (s\<lparr>c_nodes := ns\<rparr>))"
    using h n1(1) d0 cas r(1)
    by (cases "gc_retire tid d (s\<lparr>c_nodes := ns\<rparr>)")
      (simp_all add: try_remove_at_def node_load_link set_remove_loop.simps)
  moreover have "removed_from (c_nodes s) d h P D ns"
    unfolding removed_from_def
  proof (intro conjI allI impI)
    show "dom ns = dom (c_nodes s)"
    proof -
      have "dom ns1 = dom (c_nodes s)"
        using n1(2) by (auto simp: attr_def dom_def fun_eq_iff map_option_case split: option.splits)
      then show ?thesis using r(2) by (simp add: unlinked_from_def)
    qed
    show "attr ns b = attr (c_nodes s) b" if "b \<noteq> d" for b
      using r(2) n1(2) that by (simp add: unlinked_from_def)
    show "val_of ns b = val_of (c_nodes s) b" for b
    proof -
      have "attr ?ns2 = attr (c_nodes s)" using n1(2) by simp
      then have "val_of ?ns2 b = val_of (c_nodes s) b" by (intro attr_val) simp
      then show ?thesis using r(2) by (simp add: unlinked_from_def)
    qed
    show "link ns l b = (if l < h \<and> b = P l then Some (D l) else link (c_nodes s) l b)" if "b \<noteq> d" for l b
      using r(2) l2 that by (simp add: unlinked_from_def)
    show "ns b = c_nodes s b" if "b \<noteq> d \<and> b \<notin> range P" for b
      using r(2) n1(4) that by (simp add: unlinked_from_def upd_link_other)
  qed
  ultimately show ?thesis by blast
qed

text \<open>The set without the item.\<close>

lemma list_ok_remove:
  assumes ok: "list_ok ns head xs" and A: "above v xs = (d, v, h) # ys"
    and ns': "removed_from ns d h (\<lambda>l. prev_at head xs v l) (\<lambda>l. first_or_null (lev l ys)) ns'"
  shows "list_ok ns' head (below v xs @ ys)"
proof -
  let ?B = "below v xs"
  have xs: "xs = ?B @ (d, v, h) # ys" using below_above [of xs v] A by simp
  have dist: "distinct (head # map it_addr (?B @ (d, v, h) # ys))" using ok xs by (metis list_ok_def)
  have nd: "d \<noteq> head" "d \<notin> it_addr ` set (?B @ ys)" using dist by auto
  have "head_ok ns' head" using ok ns' nd(1) by (simp add: list_ok_def head_ok_def removed_from_def)
  moreover have "\<forall>i \<in> set (?B @ ys). item_ok ns' i"
  proof
    fix i assume i: "i \<in> set (?B @ ys)"
    then have "item_ok ns i" using ok xs unfolding list_ok_def by (metis Un_iff list.set_intros(2) set_append)
    moreover have "it_addr i \<noteq> d" using i nd(2) by (metis imageI)
    ultimately show "item_ok ns' i" using ns' by (cases i) (simp add: item_ok_def removed_from_def)
  qed
  moreover have "distinct (head # map it_addr (?B @ ys))" using dist by auto
  moreover have "sorted_wrt (<) (map (\<lambda>i. sint (it_key i)) (?B @ ys))"
  proof -
    have "sorted_wrt (<) (map (\<lambda>i. sint (it_key i)) (?B @ (d, v, h) # ys))"
      using ok xs by (metis list_ok_def)
    then show ?thesis by (auto simp: sorted_wrt_append)
  qed
  moreover have "\<forall>l < c_nMaxHeight. path ns' l head (lev l (?B @ ys)) 0"
  proof (intro allI impI)
    fix l assume "l < c_nMaxHeight"
    then have l: "l < 32" by simp
    have p: "path ns l head (lev l ?B @ lev l (above v xs)) 0" by (rule list_ok_path [OF ok l])
    have sub: "set (lev l ?B @ lev l ys) \<subseteq> it_addr ` set (?B @ ys)"
      using lev_subset [of l "?B @ ys"] by simp
    have dl: "distinct (head # lev l ?B @ lev l ys)"
    proof -
      have "distinct (lev l ?B @ lev l ys)" using dist distinct_lev [of "?B @ ys" l] by simp
      moreover have "head \<notin> it_addr ` set (?B @ ys)" using dist by auto
      ultimately show ?thesis using sub by auto
    qed
    have old: "link ns' l b = link ns l b"
      if "b \<in> set (head # lev l ?B @ lev l ys)" "b \<noteq> prev_at head xs v l \<or> \<not> l < h" for b
    proof -
      have "b \<noteq> d" using that(1) sub nd by auto
      with that(2) ns' show ?thesis by (auto simp: removed_from_def)
    qed
    show "path ns' l head (lev l (?B @ ys)) 0"
    proof (cases "l < h")
      case True
      have "prev_at head xs v l \<in> insert head (it_addr ` set (?B @ ys))" using sub by (intro last_mem) simp
      moreover have "d \<notin> insert head (it_addr ` set (?B @ ys))" using nd by simp
      ultimately have "prev_at head xs v l \<noteq> d" by metis
      then have "link ns' l (prev_at head xs v l) = Some (first_or_null (lev l ys))"
        using ns' True unfolding removed_from_def by simp
      with path_remove [of ns l head "lev l ?B" d "lev l ys" ns'] p A True dl old show ?thesis by simp
    next
      case False
      then have "path ns l head (lev l ?B @ lev l ys) 0" using p A by simp
      then show ?thesis
        using False old path_cong [of head "lev l ?B @ lev l ys" ns l ns' 0] by simp
    qed
  qed
  ultimately show ?thesis unfolding list_ok_def by blast
qed

text \<open>\<open>try_remove_at\<close> at a position with the predecessors of the node at its levels.\<close>

lemma try_remove_at_spec:
  assumes ok: "list_ok (c_nodes s) head xs" and A: "above v xs = (d, v, h) # ys"
    and pos: "\<forall>j < h. pPrev pos ! j = prev_at head xs v j"
  shows "\<exists>ns. try_remove_at tid head d pos s =
      map_option (\<lambda>s. (True, pos, s)) (gc_retire tid d (s\<lparr>c_nodes := ns\<rparr>)) \<and>
    list_ok ns head (below v xs @ ys) \<and> dom ns = dom (c_nodes s) \<and>
    (\<forall>b. b \<notin> blocks head xs \<longrightarrow> ns b = c_nodes s b) \<and> (\<forall>b. val_of ns b = val_of (c_nodes s) b)"
proof -
  let ?P = "\<lambda>l. prev_at head xs v l" and ?D = "\<lambda>l. first_or_null (lev l ys)"
  have mem: "(d, v, h) \<in> set xs" using above_subset [of v xs] A by auto
  then have item: "item_ok (c_nodes s) (d, v, h)" using ok by (simp add: list_ok_def)
  note f = item_ok_facts [OF item refl]
  have dist: "distinct (head # map it_addr xs)" using ok by (simp add: list_ok_def)
  have P: "\<forall>l < h. link (c_nodes s) l (?P l) = Some d \<and> ?P l \<noteq> d"
  proof (intro allI impI)
    fix l assume l: "l < h"
    have "?P l \<in> insert head (it_addr ` set (below v xs))" by (intro last_mem lev_subset)
    moreover have "distinct (head # map it_addr (below v xs @ (d, v, h) # ys))"
      using dist below_above [of xs v] A by simp
    then have "d \<notin> insert head (it_addr ` set (below v xs))" by auto
    ultimately have "?P l \<noteq> d" by metis
    then show "link (c_nodes s) l (?P l) = Some d \<and> ?P l \<noteq> d"
      using prev_at_link [OF ok, of l v] l f(6) A by simp
  qed
  have D: "\<forall>l < h. link (c_nodes s) l d = Some (?D l) \<and> aligned (?D l)"
  proof (intro allI impI)
    fix l assume l: "l < h"
    then have l32: "l < 32" using f(6) by simp
    have p: "path (c_nodes s) l head (lev l (below v xs) @ d # lev l ys) 0"
      using list_ok_path [OF ok l32, of v] A l by simp
    have "link (c_nodes s) l d = Some (?D l)"
      using path_link [OF p, of "head # lev l (below v xs)" d "lev l ys"] by (simp add: first_or_null_hd)
    moreover have "d \<in> set (lev l xs)" using mem l by (force simp: lev_def)
    then obtain q where "link (c_nodes s) l d = Some q" "aligned q"
      using list_ok_link_item [OF ok l32] by blast
    ultimately show "link (c_nodes s) l d = Some (?D l) \<and> aligned (?D l)" by simp
  qed
  from try_remove_at_store [OF f(4,5) pos P D, of tid head] obtain ns where
    r: "try_remove_at tid head d pos s =
      map_option (\<lambda>s. (True, pos, s)) (gc_retire tid d (s\<lparr>c_nodes := ns\<rparr>))"
    "removed_from (c_nodes s) d h ?P ?D ns" by blast
  have "ns b = c_nodes s b" if "b \<notin> blocks head xs" for b
  proof -
    have "b \<noteq> d" using that mem by force
    moreover have "b \<notin> range ?P" using that prev_at_mem [of head _ v xs] by blast
    ultimately show ?thesis using r(2) by (simp add: removed_from_def)
  qed
  with r list_ok_remove [OF ok A r(2)] show ?thesis unfolding removed_from_def by blast
qed

end
