(* ===== verification/Skip_List_Set.thy ===== *)
theory Skip_List_Set
  imports Skip_List_Erase
begin

text \<open>
  The sets of libcds as their clients see them: the invariant of all sets together with the garbage
  collector, and what every operation does to the contents of a set.
\<close>

subsection \<open>The invariant\<close>

text \<open>Between two operations every guard of every thread is free, no pointer is retired twice, and the
  allocated blocks are exactly those of the sets and the retired ones: \<open>F\<close> maps the address of each set to
  its items.\<close>

definition collector_ok :: "smr \<Rightarrow> bool" where
  "collector_ok s \<longleftrightarrow> smr_ok s \<and> c_nHazardPtrCount \<le> hazard_ptr_count s \<and>
     (\<forall>r \<in> set (smr_threads s). length (tr_free r) = hazard_ptr_count s) \<and>
     (\<forall>i < length (smr_threads s). \<forall>j < length (smr_threads s). i \<noteq> j \<longrightarrow>
        set (tr_retired (smr_threads s ! i)) \<inter> set (tr_retired (smr_threads s ! j)) = {})"

definition height_ok :: "sl_set \<Rightarrow> item list \<Rightarrow> bool" where
  "height_ok st xs \<longleftrightarrow> 1 \<le> ss_nHeight st \<and> ss_nHeight st \<le> 32 \<and> (\<forall>i \<in> set xs. it_height i \<le> ss_nHeight st)"

definition cds_inv :: "cds_state \<Rightarrow> (addr \<rightharpoonup> item list) \<Rightarrow> bool" where
  "cds_inv s F \<longleftrightarrow> collector_ok (c_smr s) \<and>
     dom (c_nodes s) = (\<Union>head \<in> dom F. blocks head (the (F head))) \<union> retired_set (c_smr s) \<and>
     dom (c_sets s) = dom F \<and>
     (\<forall>head xs. F head = Some xs \<longrightarrow> list_ok (c_nodes s) head xs \<and>
        blocks head xs \<inter> retired_set (c_smr s) = {} \<and> height_ok (the (c_sets s head)) xs) \<and>
     (\<forall>h h' xs xs'. F h = Some xs \<and> F h' = Some xs' \<and> h \<noteq> h' \<longrightarrow> blocks h xs \<inter> blocks h' xs' = {})"

lemma list_ok_cong:
  assumes "\<And>b. b \<in> blocks head xs \<Longrightarrow> ns' b = ns b" and "list_ok ns head xs"
  shows "list_ok ns' head xs"
proof -
  have a: "attr ns' b = attr ns b" "link ns' l b = link ns l b" if "b \<in> blocks head xs" for l b
    using assms(1) [OF that] by (simp_all add: attr_def link_def)
  have p: "path ns' l head (lev l xs) 0" if "path ns l head (lev l xs) 0" for l
  proof -
    have "link ns' l b = link ns l b" if "b \<in> set (head # lev l xs)" for b
      using that lev_subset [of l xs] by (intro a(2)) auto
    from path_cong [OF this] that show ?thesis by blast
  qed
  have i: "item_ok ns' i" if "i \<in> set xs" "item_ok ns i" for i
  proof -
    have "attr ns' (fst i) = attr ns (fst i)" using a(1) that(1) by simp
    then show ?thesis using that(2) by (cases i) (simp add: item_ok_def)
  qed
  show ?thesis
    using assms(2) a(1) [of head] i p unfolding list_ok_def by (simp add: head_ok_def)
qed

subsection \<open>Guards at the end of an operation\<close>

definition guards_fit :: "addr list \<Rightarrow> nat list \<Rightarrow> nat \<Rightarrow> bool" where
  "guards_fit hs fr n \<longleftrightarrow> length hs = n \<and> distinct fr \<and> (\<forall>g \<in> set fr. g < n \<and> hs ! g = 0)"

lemma hs_restore:
  assumes "hs_upd (set gs) hs hs'" and "\<forall>g \<in> set gs. g < length hs \<and> hs ! g = 0"
  shows "fold (\<lambda>g hs. hs[g := 0]) gs hs' = hs"
proof (rule nth_equalityI)
  show len: "length (fold (\<lambda>g hs. hs[g := 0]) gs hs') = length hs"
    using assms(1) by (simp add: fold_clear hs_upd_def)
  fix i assume "i < length (fold (\<lambda>g hs. hs[g := 0]) gs hs')"
  with len have i: "i < length hs" "i < length hs'" using assms(1) by (simp_all add: hs_upd_def)
  then show "fold (\<lambda>g hs. hs[g := 0]) gs hs' ! i = hs ! i"
    using assms by (cases "i \<in> set gs") (simp_all add: fold_clear hs_upd_def)
qed

lemma smr_ok_wg:
  assumes ok: "smr_ok (c_smr s)" and tid: "tid_ok tid s"
    and fit: "guards_fit hs fr (hazard_ptr_count (c_smr s))"
  shows "smr_ok (c_smr (wg tid hs fr s))"
proof -
  let ?r = "(thread_of tid s)\<lparr>tr_hazards := hs, tr_free := fr\<rparr>"
  have "thread_of tid s \<in> set (smr_threads (c_smr s))"
    using tid by (simp add: thread_of_def tid_ok_def)
  then have "record_ok (hazard_ptr_count (c_smr s)) (max_retired_ptr_count (c_smr s)) (thread_of tid s)"
    using ok by (simp add: smr_ok_def)
  then have "record_ok (hazard_ptr_count (c_smr s)) (max_retired_ptr_count (c_smr s)) ?r"
    using fit by (simp add: record_ok_def guards_ok_def guards_fit_def)
  then show ?thesis
    using ok set_update_subset_insert [of "smr_threads (c_smr s)" tid ?r]
    by (auto simp: smr_ok_def wg_def set_thread_def)
qed

lemma retired_wg [simp]:
  "length (smr_threads (c_smr (wg tid hs fr s))) = length (smr_threads (c_smr s))"
  "hazard_ptr_count (c_smr (wg tid hs fr s)) = hazard_ptr_count (c_smr s)"
  by (simp_all add: wg_def set_thread_def)

lemma retired_wg_nth [simp]:
  "tr_retired (smr_threads (c_smr (wg tid hs fr s)) ! i) = tr_retired (smr_threads (c_smr s) ! i)"
proof (cases "tid < length (smr_threads (c_smr s))")
  case True
  then show ?thesis by (cases "i = tid") (simp_all add: wg_def set_thread_def thread_of_def)
next
  case False
  then show ?thesis by (simp add: wg_def set_thread_def list_update_beyond)
qed

lemma retired_set_wg [simp]: "retired_set (c_smr (wg tid hs fr s)) = retired_set (c_smr s)"
  by (simp add: retired_set_def)

lemma collector_ok_fit:
  assumes "collector_ok (c_smr s)" and "tid_ok tid s"
  shows "guards_fit (tr_hazards (thread_of tid s)) (tr_free (thread_of tid s)) (hazard_ptr_count (c_smr s))"
    "67 \<le> length (tr_free (thread_of tid s))"
    "length (tr_free (thread_of tid s)) = hazard_ptr_count (c_smr s)"
proof -
  have "thread_of tid s \<in> set (smr_threads (c_smr s))"
    using assms(2) by (simp add: thread_of_def tid_ok_def)
  then show "guards_fit (tr_hazards (thread_of tid s)) (tr_free (thread_of tid s)) (hazard_ptr_count (c_smr s))"
    "67 \<le> length (tr_free (thread_of tid s))"
    "length (tr_free (thread_of tid s)) = hazard_ptr_count (c_smr s)"
    using assms(1)
    by (auto simp: collector_ok_def smr_ok_def record_ok_def guards_ok_def guards_fit_def c_nHazardPtrCount_def)
qed

text \<open>Guards taken from the free list and given back leave the collector well formed.\<close>

lemma collector_ok_wg:
  assumes ok: "collector_ok (c_smr s)" and tid: "tid_ok tid s"
    and fr: "mset fr = mset (tr_free (thread_of tid s))"
  shows "collector_ok (c_smr (wg tid (tr_hazards (thread_of tid s)) fr s))"
proof -
  let ?s = "wg tid (tr_hazards (thread_of tid s)) fr s"
  note fit = collector_ok_fit [OF ok tid]
  have fr': "distinct fr" "set fr = set (tr_free (thread_of tid s))" "length fr = hazard_ptr_count (c_smr s)"
    using fit(1,3) fr mset_eq_imp_distinct_iff [OF fr] mset_eq_setD [OF fr] mset_eq_length [OF fr]
    by (simp_all add: guards_fit_def)
  then have "smr_ok (c_smr ?s)"
    using smr_ok_wg [OF _ tid] ok fit(1) by (simp add: collector_ok_def guards_fit_def)
  moreover have "\<forall>r \<in> set (smr_threads (c_smr ?s)). length (tr_free r) = hazard_ptr_count (c_smr s)"
    using ok fr'(3) set_update_subset_insert [of "smr_threads (c_smr s)" tid]
    by (fastforce simp: collector_ok_def wg_def set_thread_def)
  ultimately show ?thesis
    using ok by (simp add: collector_ok_def)
qed

lemma cds_inv_wg:
  assumes "cds_inv s F" and "tid_ok tid s" and "mset fr = mset (tr_free (thread_of tid s))"
  shows "cds_inv (wg tid (tr_hazards (thread_of tid s)) fr s) F"
proof -
  note inv = assms(1) [unfolded cds_inv_def]
  show ?thesis
    unfolding cds_inv_def wg_fields retired_set_wg
    by (rule conjI [OF collector_ok_wg [OF conjunct1 [OF inv] assms(2,3)] conjunct2 [OF inv]])
qed

subsection \<open>Retiring a node\<close>

definition ret_state :: "nat \<Rightarrow> addr list \<Rightarrow> cds_state \<Rightarrow> cds_state" where
  "ret_state tid ps s = s\<lparr>c_smr := set_retired tid ps (c_smr s)\<rparr>"

lemma ret_state_simps [simp]:
  "c_nodes (ret_state tid ps s) = c_nodes s" "c_sets (ret_state tid ps s) = c_sets s"
  "tid_ok tid (ret_state tid ps s) = tid_ok tid s"
  "hazard_ptr_count (c_smr (ret_state tid ps s)) = hazard_ptr_count (c_smr s)"
  "c_nodes_update f (ret_state tid ps s) = ret_state tid ps (c_nodes_update f s)"
  "c_smr (ret_state tid ps s) = set_retired tid ps (c_smr s)"
  by (simp_all add: ret_state_def set_retired_def tid_ok_def)

lemma thread_record_swap_retired:
  "(r :: thread_record)\<lparr>tr_retired := ps, tr_hazards := hs, tr_free := fr\<rparr>
    = r\<lparr>tr_hazards := hs, tr_free := fr, tr_retired := ps\<rparr>"
  by simp

lemma ret_state_wg:
  "tid_ok tid s \<Longrightarrow> ret_state tid ps (wg tid hs fr s) = wg tid hs fr (ret_state tid ps s)"
  by (simp add: ret_state_def wg_def set_thread_def set_retired_def thread_of_def tid_ok_def
      thread_record_swap_retired)

lemma ret_state_thread:
  "tid_ok tid s \<Longrightarrow> thread_of tid (ret_state tid ps s) = (thread_of tid s)\<lparr>tr_retired := ps\<rparr>"
  by (simp add: ret_state_def set_retired_def thread_of_def tid_ok_def)

lemma dispose_all_spec:
  "distinct ps \<Longrightarrow> set ps \<subseteq> dom (c_nodes s) \<Longrightarrow>
     dispose_all ps s = Some (s\<lparr>c_nodes := c_nodes s |` (- set ps)\<rparr>)"
proof (induction ps arbitrary: s)
  case Nil
  have "c_nodes s |` (- set []) = c_nodes s" by (rule ext) (simp add: restrict_map_def)
  then show ?case by simp
next
  case (Cons p ps)
  then have p: "p \<in> dom (c_nodes s)" by simp
  let ?s = "s\<lparr>c_nodes := (c_nodes s)(p := None)\<rparr>"
  have "dispose_node p s = Some ?s" using p by (auto simp: dispose_node_def)
  then have "dispose_all (p # ps) s = dispose_all ps ?s" by simp
  also have "\<dots> = Some (?s\<lparr>c_nodes := c_nodes ?s |` (- set ps)\<rparr>)"
    using Cons.prems by (intro Cons.IH) auto
  also have "c_nodes ?s |` (- set ps) = c_nodes s |` (- set (p # ps))"
    by (rule ext) (simp add: restrict_map_def)
  finally show ?case by simp
qed

lemma gc_retire_wg:
  assumes ok: "smr_ok (c_smr (wg tid hs fr s))" and tid: "tid_ok tid s"
    and d: "aligned d" "d \<noteq> 0" "d \<in> dom (c_nodes s)" "d \<notin> retired_set (c_smr s)"
    and ret: "retired_set (c_smr s) \<subseteq> dom (c_nodes s)"
  shows "\<exists>freed kept. gc_retire tid d (wg tid hs fr s) =
      Some (wg tid hs fr ((ret_state tid kept s)\<lparr>c_nodes := c_nodes s |` (- set freed)\<rparr>)) \<and>
    smr_ok (c_smr (wg tid hs fr (ret_state tid kept s))) \<and>
    set freed \<union> set kept = insert d (set (tr_retired (thread_of tid s))) \<and> set freed \<inter> set kept = {} \<and>
    set freed \<inter> set (hazard_ptrs (c_smr (wg tid hs fr s))) = {}"
proof -
  let ?w = "wg tid hs fr s"
  have thr: "tid < length (smr_threads (c_smr ?w))" using tid by (simp add: tid_ok_def)
  have mem: "set (tr_retired (thread_of tid s)) \<subseteq> retired_set (c_smr s)"
    using tid by (auto simp: retired_set_def thread_of_def tid_ok_def)
  then have nd: "d \<notin> set (tr_retired (smr_threads (c_smr ?w) ! tid))"
    using d(4) by (auto simp: thread_of_def)
  obtain freed kept where r: "retire tid d (c_smr ?w) = Some (freed, set_retired tid kept (c_smr ?w))"
    "smr_ok (set_retired tid kept (c_smr ?w))" "distinct freed"
    "set freed \<union> set kept = insert d (set (tr_retired (thread_of tid s)))" "set freed \<inter> set kept = {}"
    "set freed \<inter> set (hazard_ptrs (c_smr ?w)) = {}"
    using retire_spec [OF ok thr d(1,2) nd] by (auto simp: thread_of_def)
  have st: "?w\<lparr>c_smr := set_retired tid kept (c_smr ?w)\<rparr> = wg tid hs fr (ret_state tid kept s)"
    using ret_state_wg [OF tid, of kept hs fr] by (simp add: ret_state_def)
  have "set freed \<subseteq> insert d (set (tr_retired (thread_of tid s)))" using r(4) by blast
  with mem ret d(3) have "set freed \<subseteq> dom (c_nodes s)" by blast
  then have "dispose_all freed (wg tid hs fr (ret_state tid kept s)) =
      Some (wg tid hs fr ((ret_state tid kept s)\<lparr>c_nodes := c_nodes s |` (- set freed)\<rparr>))"
    using dispose_all_spec [OF r(3), of "wg tid hs fr (ret_state tid kept s)"] by simp
  moreover have "smr_ok (c_smr (wg tid hs fr (ret_state tid kept s)))"
    using r(2) arg_cong [OF st, of c_smr] by simp
  ultimately show ?thesis
    using r st by (intro exI [of _ freed] exI [of _ kept]) (simp add: gc_retire_def)
qed

subsection \<open>A position and its guards\<close>

lemma new_position_wg:
  assumes "tid_ok tid s" and "64 \<le> length fr"
  shows "\<exists>pos. new_position tid (wg tid hs fr s) = Some (pos, wg tid hs (drop 64 fr) s) \<and> pos_ok pos (take 64 fr)"
  using assms by (simp add: new_position_def pos_ok_def)

lemma drop_position_wg:
  assumes tid: "tid_ok tid s" and pos: "pos_ok pos gs" and up: "hs_upd (set gs) hs hs'"
    and z: "\<forall>g \<in> set gs. g < length hs \<and> hs ! g = 0"
  shows "drop_position tid pos (wg tid hs' fr s) = wg tid hs (rev gs @ fr) s"
  using hs_restore [OF up z] pos tid by (simp add: drop_position_def pos_ok_def)

lemma guards_fit_take:
  assumes "guards_fit hs fr n"
  shows "\<forall>g \<in> set (take k fr). g < length hs \<and> hs ! g = 0" "guards_fit hs (drop k fr) n"
  using assms by (auto simp: guards_fit_def dest: in_set_takeD in_set_dropD)

lemma mset_take_drop: "mset (rev (take k fr) @ drop k fr) = mset fr"
  by (metis append_take_drop_id mset_append mset_rev)

subsection \<open>Searching\<close>

lemma set_contains_run:
  assumes ok: "list_ok (c_nodes s) head xs" and st: "c_sets s head = Some st" "height_ok st xs"
    and tid: "tid_ok tid s" and fit: "guards_fit hs fr n" and len: "2 \<le> length fr"
  shows "set_contains tid head v (wg tid hs fr s) =
    Some (v \<in> keys xs, wg tid hs (rev (take 2 fr) @ drop 2 fr) s)"
proof -
  let ?gs = "take 2 fr" and ?fr = "drop 2 fr" and ?l = "ss_nHeight st - 1"
  have gs: "length ?gs = 2" using len by simp
  have l: "?l < 32" "ss_nHeight st \<noteq> 0" using st(2) by (auto simp: height_ok_def)
  have new: "new_guards 2 tid (wg tid hs fr s) = Some (?gs, wg tid hs ?fr s)" using tid len by simp
  obtain c where c: "link (c_nodes s) ?l head = Some c"
    using list_ok_link [OF ok l(1), of v "[]" head "lev ?l (below v xs)"] by simp
  let ?hs = "hs[?gs ! 1 := mp_ptr c]"
  obtain hs' where r: "hs_upd (set ?gs) ?hs hs'"
    "fast tid head v ?gs ?l head c (wg tid ?hs ?fr s) = Some (fast_result v xs, wg tid hs' ?fr s)"
    using fastpath_loop_spec [OF ok tid gs l(1) _ c, where v = v and hs = ?hs and fr = ?fr] by auto
  have "?gs ! 1 \<in> set ?gs" using gs by (intro nth_mem) simp
  then have "hs_upd (set ?gs) hs hs'" using r(1) hs_upd_trans hs_upd_update by blast
  from hs_restore [OF this guards_fit_take(1) [OF fit]]
  have "drop_guards tid ?gs (wg tid hs' ?fr s) = wg tid hs (rev ?gs @ ?fr) s"
    using tid by simp
  then have "find_fastpath tid head v (wg tid hs fr s) = Some (fast_result v xs, wg tid hs (rev ?gs @ ?fr) s)"
    using new st(1) l(2) c r(2) tid by (simp add: find_fastpath_def)
  then show ?thesis
    using hit_iff [OF list_ok_sorted [OF ok]] by (simp add: set_contains_def fast_result_def)
qed

subsection \<open>Inserting\<close>

lemma node_ctor_eq:
  assumes "1 \<le> h"
  shows "node_ctor h v =
    \<lparr>sn_value = Some v, sn_pNext = 0, sn_nHeight = h, sn_arrNext = replicate (h - 1) 0, sn_nUnlink = of_nat h\<rparr>"
  using assms by (cases "h = 1") (simp_all add: node_ctor_def Let_def)

lemma fresh_node_New:
  assumes "1 \<le> h" and "h \<le> 32" and "a \<noteq> 0" and "aligned a"
  shows "fresh_node (ns(a \<mapsto> node_ctor h v)) a v h"
  using assms
  by (auto simp: fresh_node_def item_ok_def attr_def link_def node_ctor_eq sn_next_def)

text \<open>Inserting an allocated node whose value is not in the set, and one whose value is.\<close>

lemma insert_node_run:
  assumes ok: "list_ok (c_nodes s) head xs" and st: "c_sets s head = Some st"
    and new: "fresh_node (c_nodes s) a v h" "a \<notin> blocks head xs"
    and tid: "tid_ok tid s" and fit: "guards_fit hs (g # fr) n" and len: "64 \<le> length fr"
  defines "w \<equiv> wg tid hs (g # rev (take 64 fr) @ drop 64 fr)"
  shows "if v \<in> keys xs then insert_node tid head a (wg tid hs (g # fr) s) = Some (False, w s)
    else \<exists>ns. insert_node tid head a (wg tid hs (g # fr) s) =
        Some (True, w (s\<lparr>c_nodes := ns, c_sets := (c_sets s)(head \<mapsto> st\<lparr>ss_nHeight := max h (ss_nHeight st)\<rparr>)\<rparr>)) \<and>
      linked_to (c_nodes s) a h (\<lambda>l. prev_at head xs v l) (\<lambda>l. first_or_null (lev l (above v xs))) h ns"
proof -
  let ?hs = "hs[g := a]" and ?gs = "take 64 fr" and ?fr = "drop 64 fr"
  have item: "item_ok (c_nodes s) (a, v, h)" using new by (simp add: fresh_node_def)
  note f = item_ok_facts [OF item refl]
  have fit': "guards_fit hs fr n" and g: "g < length hs" "hs ! g = 0" "g \<notin> set fr"
    using fit by (auto simp: guards_fit_def)
  have fith: "guards_fit ?hs fr n"
    using fit' g by (auto simp: guards_fit_def nth_list_update)
  obtain pos where pos: "new_position tid (wg tid ?hs fr s) = Some (pos, wg tid ?hs ?fr s)" "pos_ok pos ?gs"
    using new_position_wg [OF tid len] by blast
  obtain hs' pos' where r: "hs_upd (set ?gs) ?hs hs'" "pos_ok pos' ?gs"
    "find_position tid head v True pos (wg tid ?hs ?fr s) = Some (hit v xs, pos', wg tid hs' ?fr s)"
    "\<not> hit v xs \<Longrightarrow> \<forall>j < 32. neighbours head xs v j pos'"
    using find_position_spec [OF ok tid pos(2), where v = v and hs = ?hs and stop = True and fr = ?fr] by auto
  have val: "node_value a (wg tid hs1 fr1 s) = Some v" for hs1 fr1
    using f(3) by (simp add: node_value_def)
  have ht: "node_height a (wg tid hs1 fr1 s) = Some h" for hs1 fr1
    using f(4) by (simp add: node_height_def)
  have restore: "drop_guard tid g (drop_position tid pos' (wg tid hs' ?fr s1)) = w s1" if "tid_ok tid s1" for s1
    using drop_position_wg [OF that r(2,1) guards_fit_take(1) [OF fith]] that g
      list_update_id [of hs g] by (simp add: w_def)
  have start: "insert_node tid head a (wg tid hs (g # fr) s) =
      Option.bind (set_insert_loop tid head v a pos (wg tid ?hs ?fr s))
        (\<lambda>(r, pos, s). Some (r, drop_guard tid g (drop_position tid pos s)))"
    using tid pos(1) val by (simp add: insert_node_def)
  show ?thesis
  proof (cases "v \<in> keys xs")
    case True
    then have "hit v xs" using hit_iff [OF list_ok_sorted [OF ok]] by simp
    then have "set_insert_loop tid head v a pos (wg tid ?hs ?fr s) = Some (False, pos', wg tid hs' ?fr s)"
      using r(3) by (subst set_insert_loop.simps) simp
    then show ?thesis using True start restore [OF tid] by simp
  next
    case False
    then have miss: "\<not> hit v xs" using hit_iff [OF list_ok_sorted [OF ok]] by simp
    obtain ns where ns: "insert_at_position tid head v a pos' (wg tid hs' ?fr s) =
        Some (True, pos', wg tid hs' ?fr (s\<lparr>c_nodes := ns\<rparr>))"
      "linked_to (c_nodes s) a h (\<lambda>l. prev_at head xs v l) (\<lambda>l. first_or_null (lev l (above v xs))) h ns"
      using insert_at_position_spec [of "wg tid hs' ?fr s", OF _ _ new(2) r(4) [OF miss]] ok new(1) by auto
    let ?s1 = "s\<lparr>c_nodes := ns, c_sets := (c_sets s)(head \<mapsto> st\<lparr>ss_nHeight := max h (ss_nHeight st)\<rparr>)\<rparr>"
    have "st\<lparr>ss_nHeight := ss_nHeight st\<rparr> = st" by simp
    then have "(c_sets s)(head \<mapsto> st\<lparr>ss_nHeight := ss_nHeight st\<rparr>) = c_sets s"
      using st by (simp add: fun_upd_idem)
    then have inc: "increase_height head h (wg tid hs' ?fr (s\<lparr>c_nodes := ns\<rparr>)) = Some (wg tid hs' ?fr ?s1)"
      using st by (auto simp: increase_height_def max_def)
    have "set_insert_loop tid head v a pos (wg tid ?hs ?fr s) = Some (True, pos', wg tid hs' ?fr ?s1)"
      using r(3) miss ht ns(1) inc by (subst set_insert_loop.simps) simp
    then have "insert_node tid head a (wg tid hs (g # fr) s) = Some (True, w ?s1)"
      using start restore [of ?s1] tid by simp
    with False ns(2) show ?thesis by auto
  qed
qed

subsection \<open>Erasing\<close>

lemma smr_ok_rewg:
  assumes "smr_ok (c_smr (wg tid hs fr s))" and "tid_ok tid s" and "guards_fit hs' fr' (hazard_ptr_count (c_smr s))"
  shows "smr_ok (c_smr (wg tid hs' fr' s))"
  using smr_ok_wg [of "wg tid hs fr s" tid hs' fr'] assms by simp

text \<open>Removing the node at a position with the guards \<open>hs\<close> set: what is freed is guarded by no thread.\<close>

lemma remove_at_run:
  fixes v :: int64
  assumes ok: "list_ok (c_nodes s) head xs" and sok: "smr_ok (c_smr s)" and tid: "tid_ok tid s"
    and fit: "guards_fit hs fr (hazard_ptr_count (c_smr s))"
    and ret: "blocks head xs \<inter> retired_set (c_smr s) = {}" "retired_set (c_smr s) \<subseteq> dom (c_nodes s)"
    and A: "above v xs = (d, v, h) # ys" and pos: "\<forall>j < h. pPrev pos ! j = prev_at head xs v j"
  shows "\<exists>ns freed kept. try_remove_at tid head d pos (wg tid hs fr s) =
      Some (True, pos, wg tid hs fr ((ret_state tid kept s)\<lparr>c_nodes := ns |` (- set freed)\<rparr>)) \<and>
    list_ok ns head (below v xs @ ys) \<and> dom ns = dom (c_nodes s) \<and>
    (\<forall>b. b \<notin> blocks head xs \<longrightarrow> ns b = c_nodes s b) \<and> smr_ok (c_smr (wg tid hs fr (ret_state tid kept s))) \<and>
    set freed \<union> set kept = insert d (set (tr_retired (thread_of tid s))) \<and> set freed \<inter> set kept = {} \<and>
    set freed \<inter> set (hazard_ptrs (c_smr (wg tid hs fr s))) = {} \<and> val_of ns d = val_of (c_nodes s) d"
proof -
  have mem: "(d, v, h) \<in> set xs" using above_subset [of v xs] A by auto
  then have item: "item_ok (c_nodes s) (d, v, h)" using ok by (simp add: list_ok_def)
  note f = item_ok_facts [OF item refl]
  obtain ns where ns: "try_remove_at tid head d pos (wg tid hs fr s) =
      map_option (\<lambda>s. (True, pos, s)) (gc_retire tid d ((wg tid hs fr s)\<lparr>c_nodes := ns\<rparr>))"
    "list_ok ns head (below v xs @ ys)" "dom ns = dom (c_nodes s)"
    "\<forall>b. b \<notin> blocks head xs \<longrightarrow> ns b = c_nodes s b" "\<forall>b. val_of ns b = val_of (c_nodes s) b"
    using try_remove_at_spec [of "wg tid hs fr s", OF _ A pos, of tid] ok by auto
  let ?s = "s\<lparr>c_nodes := ns\<rparr>"
  have smr: "smr_ok (c_smr (wg tid hs fr ?s))"
    using smr_ok_wg [of ?s tid hs fr] sok tid fit by simp
  have dret: "d \<notin> retired_set (c_smr ?s)" "retired_set (c_smr ?s) \<subseteq> dom (c_nodes ?s)"
    using ret mem ns(3) by force+
  have ddom: "d \<in> dom (c_nodes ?s)" using f(4) ns(3) by (auto simp: node_height_def)
  have hz: "hazard_ptrs (c_smr (wg tid hs fr ?s)) = hazard_ptrs (c_smr (wg tid hs fr s))"
    by (simp add: wg_def set_thread_def thread_of_def)
  have smr_eq: "c_smr (wg tid hs fr (ret_state tid kept ?s)) = c_smr (wg tid hs fr (ret_state tid kept s))" for kept
    by (simp add: wg_def set_thread_def ret_state_def thread_of_def)
  obtain freed kept where fk: "gc_retire tid d (wg tid hs fr ?s) =
      Some (wg tid hs fr ((ret_state tid kept ?s)\<lparr>c_nodes := c_nodes ?s |` (- set freed)\<rparr>))"
    "smr_ok (c_smr (wg tid hs fr (ret_state tid kept ?s)))"
    "set freed \<union> set kept = insert d (set (tr_retired (thread_of tid ?s)))" "set freed \<inter> set kept = {}"
    "set freed \<inter> set (hazard_ptrs (c_smr (wg tid hs fr ?s))) = {}"
    using gc_retire_wg [OF smr _ f(2,1) ddom dret] tid by auto
  have "wg tid hs fr ((ret_state tid kept ?s)\<lparr>c_nodes := c_nodes ?s |` (- set freed)\<rparr>) =
      wg tid hs fr ((ret_state tid kept s)\<lparr>c_nodes := ns |` (- set freed)\<rparr>)"
    by (simp add: ret_state_def)
  then have "try_remove_at tid head d pos (wg tid hs fr s) =
      Some (True, pos, wg tid hs fr ((ret_state tid kept s)\<lparr>c_nodes := ns |` (- set freed)\<rparr>))"
    using ns(1) fk(1) by simp
  moreover have "smr_ok (c_smr (wg tid hs fr (ret_state tid kept s)))" using fk(2) unfolding smr_eq .
  moreover have "set freed \<union> set kept = insert d (set (tr_retired (thread_of tid s)))" using fk(3) by simp
  moreover have "set freed \<inter> set (hazard_ptrs (c_smr (wg tid hs fr s))) = {}" using fk(5) unfolding hz .
  ultimately show ?thesis using ns(2-5) fk(4) by blast
qed

lemma set_erase_run:
  fixes v :: int64
  assumes ok: "list_ok (c_nodes s) head xs" and sok: "smr_ok (c_smr s)"
    and tid: "tid_ok tid s" and fit: "guards_fit hs fr (hazard_ptr_count (c_smr s))" and len: "65 \<le> length fr"
    and ret: "blocks head xs \<inter> retired_set (c_smr s) = {}" "retired_set (c_smr s) \<subseteq> dom (c_nodes s)"
  defines "w \<equiv> wg tid hs (rev (take 64 fr) @ drop 64 fr)" and "d \<equiv> it_addr (hd (above v xs))"
  shows "if v \<notin> keys xs then set_erase tid head v (wg tid hs fr s) = Some (False, w s)
    else \<exists>ns freed kept. set_erase tid head v (wg tid hs fr s) =
        Some (True, w ((ret_state tid kept s)\<lparr>c_nodes := ns |` (- set freed)\<rparr>)) \<and>
      list_ok ns head (below v xs @ tl (above v xs)) \<and> dom ns = dom (c_nodes s) \<and>
      (\<forall>b. b \<notin> blocks head xs \<longrightarrow> ns b = c_nodes s b) \<and> smr_ok (c_smr (w (ret_state tid kept s))) \<and>
      set freed \<union> set kept = insert d (set (tr_retired (thread_of tid s))) \<and> set freed \<inter> set kept = {}"
proof -
  let ?gs = "take 64 fr" and ?fr = "drop 64 fr"
  obtain g fr2 where fr2: "?fr = g # fr2" using len by (cases ?fr) auto
  have dist: "distinct (?gs @ g # fr2)" using fit fr2 append_take_drop_id [of 64 fr] by (simp add: guards_fit_def)
  have fitd: "guards_fit hs (g # fr2) (hazard_ptr_count (c_smr s))"
    using guards_fit_take(2) [OF fit, of 64] fr2 by simp
  obtain pos where pos: "new_position tid (wg tid hs fr s) = Some (pos, wg tid hs (g # fr2) s)" "pos_ok pos ?gs"
    using new_position_wg [OF tid, of fr hs] len fr2 by auto
  obtain hs' pos' where r: "hs_upd (set ?gs) hs hs'" "pos_ok pos' ?gs"
    "find_position tid head v False pos (wg tid hs (g # fr2) s) = Some (hit v xs, pos', wg tid hs' (g # fr2) s)"
    "hit v xs \<Longrightarrow> pCur pos' = d" "\<forall>j < 32. neighbours head xs v j pos'"
    using find_position_spec [OF ok tid pos(2), where v = v and hs = hs and stop = False and fr = "g # fr2"]
    by (auto simp: d_def)
  have restore: "drop_position tid pos' (wg tid hs' (g # fr2) s1) = w s1" if "tid_ok tid s1" for s1
    using drop_position_wg [OF that r(2,1) guards_fit_take(1) [OF fit]] fr2 by (simp add: w_def)
  show ?thesis
  proof (cases "v \<in> keys xs")
    case False
    then have "\<not> hit v xs" using hit_iff [OF list_ok_sorted [OF ok]] by simp
    then have "set_erase tid head v (wg tid hs fr s) = Some (False, w s)"
      using pos(1) r(3) restore [OF tid] by (simp add: set_erase_def)
    with False show ?thesis by simp
  next
    case True
    then have hit: "hit v xs" using hit_iff [OF list_ok_sorted [OF ok]] by simp
    obtain h ys where A: "above v xs = (d, v, h) # ys"
      using hit by (cases "above v xs") (auto simp: hit_def d_def)
    then have mem: "(d, v, h) \<in> set xs" using above_subset [of v xs] by auto
    then have item: "item_ok (c_nodes s) (d, v, h)" using ok by (simp add: list_ok_def)
    note f = item_ok_facts [OF item refl]
    let ?hs = "hs'[g := d]"
    have fith: "guards_fit ?hs fr2 (hazard_ptr_count (c_smr s))"
      using fitd r(1) dist by (auto simp: guards_fit_def hs_upd_def nth_list_update)
    have nb: "\<forall>j < h. pPrev pos' ! j = prev_at head xs v j" using r(5) f(6) by (auto simp: neighbours_def)
    obtain ns freed kept where rm: "try_remove_at tid head d pos' (wg tid ?hs fr2 s) =
        Some (True, pos', wg tid ?hs fr2 ((ret_state tid kept s)\<lparr>c_nodes := ns |` (- set freed)\<rparr>))"
      "list_ok ns head (below v xs @ ys)" "dom ns = dom (c_nodes s)" "\<forall>b. b \<notin> blocks head xs \<longrightarrow> ns b = c_nodes s b"
      "smr_ok (c_smr (wg tid ?hs fr2 (ret_state tid kept s)))"
      "set freed \<union> set kept = insert d (set (tr_retired (thread_of tid s)))" "set freed \<inter> set kept = {}"
      using remove_at_run [OF ok sok tid fith ret A nb] by blast
    let ?s2 = "(ret_state tid kept s)\<lparr>c_nodes := ns |` (- set freed)\<rparr>"
    have g: "hs' ! g = 0" "g < length hs'" using fitd r(1) dist by (auto simp: guards_fit_def hs_upd_def)
    have "?hs[g := 0] = hs'" using g list_update_id [of hs' g] by simp
    then have "drop_position tid pos' (drop_guard tid g (wg tid ?hs fr2 ?s2)) = w ?s2"
      using restore [of ?s2] tid by simp
    then have "set_erase tid head v (wg tid hs fr s) = Some (True, w ?s2)"
      using pos(1) r(3) hit r(4) [OF hit] tid rm(1) by (simp add: set_erase_def Let_def)
    moreover have "smr_ok (c_smr (w (ret_state tid kept s)))"
    proof -
      have "guards_fit hs (rev ?gs @ ?fr) (hazard_ptr_count (c_smr s))"
        using fit append_take_drop_id [of 64 fr] unfolding guards_fit_def
        by (metis distinct_append distinct_rev set_append set_rev)
      then show ?thesis unfolding w_def using smr_ok_rewg [OF rm(5)] tid by simp
    qed
    moreover have "list_ok ns head (below v xs @ tl (above v xs))" using rm(2) A by simp
    moreover have "\<not> v \<notin> keys xs" using True by simp
    ultimately show ?thesis
      using rm(3,4,6,7)
      by (simp only: if_False) (rule exI [of _ ns], rule exI [of _ freed], rule exI [of _ kept], intro conjI refl)
  qed
qed

subsection \<open>The invariant after an operation\<close>

lemma retired_set_thread: "tid_ok tid s \<Longrightarrow> set (tr_retired (thread_of tid s)) \<subseteq> retired_set (c_smr s)"
  by (auto simp: retired_set_def thread_of_def tid_ok_def)

lemma swap_sets:
  assumes "A' = K \<union> R" and "A = T \<union> R" and "T \<inter> R = {}" and "d \<notin> A"
    and "B \<union> K = insert d T" and "B \<inter> K = {}"
  shows "A' = insert d A - B"
proof -
  have "d \<notin> T" "d \<notin> R" using assms(2,4) by simp_all
  then show ?thesis unfolding assms(1,2) using assms(3,5,6) by (auto simp: set_eq_iff)
qed

lemma retired_set_ret:
  assumes ok: "collector_ok (c_smr s)" and tid: "tid_ok tid s" and d: "d \<notin> retired_set (c_smr s)"
    and fk: "set freed \<union> set kept = insert d (set (tr_retired (thread_of tid s)))" "set freed \<inter> set kept = {}"
  shows "retired_set (set_retired tid kept (c_smr s)) = insert d (retired_set (c_smr s)) - set freed"
proof -
  let ?R = "\<lambda>i. set (tr_retired (smr_threads (c_smr s) ! i))"
  have t: "tid < length (smr_threads (c_smr s))" using tid by (simp add: tid_ok_def)
  have "retired_set (set_retired tid kept (c_smr s)) =
      set kept \<union> (\<Union>i \<in> {..<length (smr_threads (c_smr s))} - {tid}. ?R i)"
    using t by (auto simp: retired_set_def set_retired_nth split: if_splits)
  moreover have "retired_set (c_smr s) = ?R tid \<union> (\<Union>i \<in> {..<length (smr_threads (c_smr s))} - {tid}. ?R i)"
    using t by (auto simp: retired_set_def)
  moreover have "?R tid \<inter> (\<Union>i \<in> {..<length (smr_threads (c_smr s))} - {tid}. ?R i) = {}"
    using ok t by (fastforce simp: collector_ok_def)
  moreover have "set freed \<union> set kept = insert d (?R tid)" using fk(1) by (simp add: thread_of_def)
  ultimately show ?thesis using d fk(2) by (intro swap_sets)
qed

lemma collector_ok_ret:
  assumes ok: "collector_ok (c_smr s)" and tid: "tid_ok tid s" and d: "d \<notin> retired_set (c_smr s)"
    and kept: "set kept \<subseteq> insert d (set (tr_retired (thread_of tid s)))"
    and fr: "mset fr = mset (tr_free (thread_of tid s))"
    and smr: "smr_ok (c_smr (wg tid (tr_hazards (thread_of tid s)) fr (ret_state tid kept s)))"
  shows "collector_ok (c_smr (wg tid (tr_hazards (thread_of tid s)) fr (ret_state tid kept s)))"
proof -
  let ?m = "c_smr s" and ?w = "c_smr (wg tid (tr_hazards (thread_of tid s)) fr (ret_state tid kept s))"
  have t: "tid < length (smr_threads ?m)" using tid by (simp add: tid_ok_def)
  have "\<forall>r \<in> set (smr_threads ?w). length (tr_free r) = hazard_ptr_count ?m"
  proof -
    let ?r = "(thread_of tid s)\<lparr>tr_retired := kept, tr_hazards := tr_hazards (thread_of tid s), tr_free := fr\<rparr>"
    have "length fr = hazard_ptr_count ?m"
      using collector_ok_fit(3) [OF ok tid] mset_eq_length [OF fr] by simp
    moreover have "smr_threads ?w = (smr_threads ?m)[tid := ?r]"
      using t by (simp add: wg_def set_thread_def ret_state_def set_retired_def thread_of_def)
    ultimately show ?thesis
      using ok set_update_subset_insert [of "smr_threads ?m" tid ?r] by (auto simp: collector_ok_def)
  qed
  moreover have "set (tr_retired (smr_threads ?w ! i)) \<inter> set (tr_retired (smr_threads ?w ! j)) = {}"
    if ij: "i < length (smr_threads ?m)" "j < length (smr_threads ?m)" "i \<noteq> j" for i j
  proof -
    let ?R = "\<lambda>i. set (tr_retired (smr_threads ?m ! i))"
    have nd: "d \<notin> ?R i" if "i < length (smr_threads ?m)" for i
      using d that by (auto simp: retired_set_def)
    have dj: "?R i \<inter> ?R j = {}" if "i < length (smr_threads ?m)" "j < length (smr_threads ?m)" "i \<noteq> j" for i j
      using ok that by (simp add: collector_ok_def)
    have k: "set kept \<subseteq> insert d (?R tid)" using kept by (simp add: thread_of_def)
    have K: "set (tr_retired (smr_threads ?w ! i)) = (if i = tid then set kept else ?R i)"
      if "i < length (smr_threads ?m)" for i
      using t that by (simp add: set_retired_nth)
    consider "i = tid" "j \<noteq> tid" | "i \<noteq> tid" "j = tid" | "i \<noteq> tid" "j \<noteq> tid" using ij(3) by blast
    then show ?thesis
    proof cases
      case 1
      then have "set kept \<inter> ?R j = {}" using k nd [OF ij(2)] dj [OF t ij(2)] by blast
      then show ?thesis using 1 K ij by simp
    next
      case 2
      then have "?R i \<inter> set kept = {}" using k nd [OF ij(1)] dj [OF t ij(1)] by blast
      then show ?thesis using 2 K ij by simp
    next
      case 3
      then show ?thesis using dj [OF ij] K ij by simp
    qed
  qed
  ultimately show ?thesis
    using smr ok t by (simp add: collector_ok_def)
qed

lemma cds_invD:
  assumes "cds_inv s F"
  shows "collector_ok (c_smr s)"
    "dom (c_nodes s) = (\<Union>head \<in> dom F. blocks head (the (F head))) \<union> retired_set (c_smr s)"
    "dom (c_sets s) = dom F"
    "F head = Some xs \<Longrightarrow> list_ok (c_nodes s) head xs"
    "F head = Some xs \<Longrightarrow> blocks head xs \<inter> retired_set (c_smr s) = {}"
    "F head = Some xs \<Longrightarrow> \<exists>st. c_sets s head = Some st \<and> height_ok st xs"
    "F h = Some xs \<Longrightarrow> F h' = Some xs' \<Longrightarrow> h \<noteq> h' \<Longrightarrow> blocks h xs \<inter> blocks h' xs' = {}"
    "F head = Some xs \<Longrightarrow> blocks head xs \<subseteq> dom (c_nodes s)"
proof -
  note inv = assms [unfolded cds_inv_def]
  note i2 = conjunct2 [OF inv] and i3 = conjunct2 [OF conjunct2 [OF inv]]
  note i4 = conjunct2 [OF i3]
  show "collector_ok (c_smr s)" by (rule conjunct1 [OF inv])
  show dm: "dom (c_nodes s) = (\<Union>head \<in> dom F. blocks head (the (F head))) \<union> retired_set (c_smr s)"
    by (rule conjunct1 [OF i2])
  show ds: "dom (c_sets s) = dom F" by (rule conjunct1 [OF i3])
  note sets = conjunct1 [OF i4, rule_format] and disjoint = conjunct2 [OF i4, rule_format]
  show "F head = Some xs \<Longrightarrow> list_ok (c_nodes s) head xs" by (simp add: sets)
  show "F head = Some xs \<Longrightarrow> blocks head xs \<inter> retired_set (c_smr s) = {}" by (rule sets [THEN conjunct2, THEN conjunct1])
  show "F h = Some xs \<Longrightarrow> F h' = Some xs' \<Longrightarrow> h \<noteq> h' \<Longrightarrow> blocks h xs \<inter> blocks h' xs' = {}"
    by (intro disjoint conjI)
  {
    assume F: "F head = Some xs"
    then have "head \<in> dom (c_sets s)" using ds by auto
    then obtain st where "c_sets s head = Some st" by auto
    moreover have "height_ok (the (c_sets s head)) xs" using sets [OF F] by blast
    ultimately show "\<exists>st. c_sets s head = Some st \<and> height_ok st xs" by simp
    show "blocks head xs \<subseteq> dom (c_nodes s)"
      using F unfolding dm by (intro subset_trans [OF _ Un_upper1] subset_trans [OF _ UN_upper [of head]]) auto
  }
qed

text \<open>A state in which only the set at \<open>head\<close> has changed.\<close>

definition others :: "(addr \<rightharpoonup> item list) \<Rightarrow> addr \<Rightarrow> addr set" where
  "others F head = (\<Union>h \<in> dom F - {head}. blocks h (the (F h)))"

lemma others_mem: "F h = Some ys \<Longrightarrow> h \<noteq> head \<Longrightarrow> blocks h ys \<subseteq> others F head"
  unfolding others_def by (intro subset_trans [OF _ UN_upper [of h]]) auto

lemma others_disjoint:
  assumes "cds_inv s F"
  shows "others F head \<inter> retired_set (c_smr s) = {}" "others F head \<subseteq> dom (c_nodes s)"
    "F head = Some xs \<Longrightarrow> others F head \<inter> blocks head xs = {}"
    "F head = Some xs \<Longrightarrow> dom (c_nodes s) = blocks head xs \<union> others F head \<union> retired_set (c_smr s)"
    "F head = None \<Longrightarrow> dom (c_nodes s) = others F head \<union> retired_set (c_smr s)"
proof -
  note inv = cds_invD [OF assms]
  show "others F head \<inter> retired_set (c_smr s) = {}"
  proof -
    have "blocks h (the (F h)) \<inter> retired_set (c_smr s) = {}" if "h \<in> dom F" for h
      using that by (intro inv(5)) auto
    then show ?thesis unfolding others_def by blast
  qed
  show "others F head \<subseteq> dom (c_nodes s)"
    unfolding others_def inv(2) by blast
  show "others F head \<inter> blocks head xs = {}" if F: "F head = Some xs"
  proof -
    have "blocks h (the (F h)) \<inter> blocks head xs = {}" if "h \<in> dom F - {head}" for h
      using that F by (intro inv(7) [of h _ head]) auto
    then show ?thesis unfolding others_def by blast
  qed
  show "dom (c_nodes s) = blocks head xs \<union> others F head \<union> retired_set (c_smr s)" if F: "F head = Some xs"
  proof -
    have "head \<in> dom F" using F by auto
    then have "(\<Union>h \<in> dom F. blocks h (the (F h))) = blocks head (the (F head)) \<union> others F head"
      unfolding others_def by blast
    then show ?thesis using F inv(2) by simp
  qed
  show "dom (c_nodes s) = others F head \<union> retired_set (c_smr s)" if "F head = None"
  proof -
    have "dom F - {head} = dom F" using that by auto
    then show ?thesis unfolding others_def inv(2) by simp
  qed
qed

lemma cds_inv_update:
  assumes inv: "cds_inv s F" and coll: "collector_ok (c_smr s')"
    and sets: "c_sets s' = (c_sets s)(head \<mapsto> st)" "height_ok st xs'"
    and ok: "list_ok (c_nodes s') head xs'" "blocks head xs' \<inter> retired_set (c_smr s') = {}"
    and dom: "dom (c_nodes s') = blocks head xs' \<union> others F head \<union> retired_set (c_smr s')"
    and other: "\<And>b. b \<in> others F head \<Longrightarrow> c_nodes s' b = c_nodes s b \<and> b \<notin> blocks head xs' \<and> b \<notin> retired_set (c_smr s')"
  shows "cds_inv s' (F(head \<mapsto> xs'))"
proof -
  note i = cds_invD [OF inv]
  have D: "(\<Union>h \<in> dom (F(head \<mapsto> xs')). blocks h (the ((F(head \<mapsto> xs')) h))) = blocks head xs' \<union> others F head"
  proof -
    have d: "dom (F(head \<mapsto> xs')) = insert head (dom F - {head})" by auto
    have "(\<Union>h \<in> dom F - {head}. blocks h (the ((F(head \<mapsto> xs')) h))) = others F head"
      unfolding others_def by (rule SUP_cong) auto
    then show ?thesis unfolding d UN_insert by simp
  qed
  have S: "list_ok (c_nodes s') h ys \<and> blocks h ys \<inter> retired_set (c_smr s') = {} \<and>
      height_ok (the (c_sets s' h)) ys" if "(F(head \<mapsto> xs')) h = Some ys" for h ys
  proof (cases "h = head")
    case True
    then show ?thesis using that ok sets by simp
  next
    case False
    then have F: "F h = Some ys" using that by simp
    note sub = others_mem [of F, OF F False]
    have "list_ok (c_nodes s') h ys"
      by (rule list_ok_cong [OF _ i(4) [OF F]]) (use other sub in blast)
    moreover have "blocks h ys \<inter> retired_set (c_smr s') = {}" using other sub by blast
    moreover have "height_ok (the (c_sets s' h)) ys" using i(6) [OF F] sets(1) False by auto
    ultimately show ?thesis by blast
  qed
  have X: "blocks h ys \<inter> blocks h' ys' = {}"
    if F: "(F(head \<mapsto> xs')) h = Some ys" "(F(head \<mapsto> xs')) h' = Some ys'" and ne: "h \<noteq> h'" for h h' ys ys'
  proof -
    consider "h = head" "h' \<noteq> head" | "h \<noteq> head" "h' = head" | "h \<noteq> head" "h' \<noteq> head" using ne by blast
    then show ?thesis
    proof cases
      case 1
      then have "ys = xs'" "blocks h' ys' \<subseteq> others F head" using F others_mem [of F h' ys' head] by auto
      with 1(1) show ?thesis using other by blast
    next
      case 2
      then have "ys' = xs'" "blocks h ys \<subseteq> others F head" using F others_mem [of F h ys head] by auto
      with 2(2) show ?thesis using other by blast
    next
      case 3
      then show ?thesis using F ne by (intro i(7)) simp_all
    qed
  qed
  have "dom (c_sets s') = dom (F(head \<mapsto> xs'))" using sets(1) i(3) by simp
  moreover have "dom (c_nodes s') =
      (\<Union>h \<in> dom (F(head \<mapsto> xs')). blocks h (the ((F(head \<mapsto> xs')) h))) \<union> retired_set (c_smr s')"
    using dom D by simp
  ultimately show ?thesis
    unfolding cds_inv_def by (intro conjI coll allI impI; (elim conjE)?) (assumption | erule S [THEN conjunct1] |
      erule S [THEN conjunct2, THEN conjunct1] | erule S [THEN conjunct2, THEN conjunct2] | (rule X; assumption))+
qed

subsection \<open>The operations\<close>

text \<open>What an operation of the thread \<open>tid\<close> keeps: the records and their owners. A thread that has a record of
  its own is attached.\<close>

definition same_threads :: "cds_state \<Rightarrow> cds_state \<Rightarrow> bool" where
  "same_threads s s' \<longleftrightarrow> map tr_owner (smr_threads (c_smr s')) = map tr_owner (smr_threads (c_smr s)) \<and>
     hazard_ptr_count (c_smr s') = hazard_ptr_count (c_smr s)"

lemma same_threads_length: "same_threads s s' \<Longrightarrow> length (smr_threads (c_smr s')) = length (smr_threads (c_smr s))"
  unfolding same_threads_def by (metis length_map)

definition attached :: "nat \<Rightarrow> cds_state \<Rightarrow> bool" where
  "attached tid s \<longleftrightarrow> tid_ok tid s \<and> tr_owner (thread_of tid s) \<noteq> 0"

lemma same_threads_tid: "same_threads s s' \<Longrightarrow> tid_ok tid s' = tid_ok tid s"
  by (simp add: same_threads_length tid_ok_def)

lemma same_threads_attached:
  assumes "same_threads s s'"
  shows "attached tid s' = attached tid s"
proof -
  have "tid < length (smr_threads (c_smr s)) \<Longrightarrow> tr_owner (smr_threads (c_smr s') ! tid) = tr_owner (smr_threads (c_smr s) ! tid)"
    using assms same_threads_length [OF assms] unfolding same_threads_def by (metis nth_map)
  then show ?thesis
    using same_threads_tid [OF assms, of tid] by (auto simp: attached_def tid_ok_def thread_of_def)
qed

lemma owners_simps [simp]:
  "map tr_owner (smr_threads (c_smr (wg tid hs fr s))) = map tr_owner (smr_threads (c_smr s))"
  "map tr_owner (smr_threads (set_retired tid kept m)) = map tr_owner (smr_threads m)"
  by (rule nth_equalityI; (cases "tid < length (smr_threads (c_smr s))")?;
    simp add: wg_def set_thread_def thread_of_def nth_list_update)+

lemma same_threads_simps [simp]:
  "same_threads s (wg tid hs fr s') = same_threads s s'"
  "same_threads s (ret_state tid kept s') = same_threads s s'"
  "same_threads s (c_nodes_update f s') = same_threads s s'" "same_threads s (c_sets_update g s') = same_threads s s'"
  "same_threads s s"
  by (simp_all add: same_threads_def)

lemma contains_spec:
  assumes inv: "cds_inv s F" and F: "F head = Some xs" and tid: "tid_ok tid s"
  shows "\<exists>s'. set_contains tid head v s = Some (v \<in> keys xs, s') \<and> cds_inv s' F \<and> same_threads s s' \<and>
    c_nodes s' = c_nodes s"
proof -
  note i = cds_invD [OF inv]
  let ?hs = "tr_hazards (thread_of tid s)" and ?fr = "tr_free (thread_of tid s)"
  let ?fr' = "rev (take 2 ?fr) @ drop 2 ?fr"
  obtain st where st: "c_sets s head = Some st" "height_ok st xs" using i(6) [OF F] by blast
  note fit = collector_ok_fit [OF i(1) tid]
  have "2 \<le> length ?fr" using fit(2) by linarith
  from set_contains_run [OF i(4) [OF F] st tid fit(1) this, of v]
  have "set_contains tid head v s = Some (v \<in> keys xs, wg tid ?hs ?fr' s)" by (simp add: wg_id)
  moreover have "cds_inv (wg tid ?hs ?fr' s) F" by (rule cds_inv_wg [OF inv tid mset_take_drop])
  ultimately show ?thesis by simp
qed

lemma linked_to_dom:
  assumes "linked_to ns0 a h P S k ns"
  shows "dom ns = dom ns0"
proof -
  have "attr ns = attr ns0" using assms by (simp add: linked_to_def)
  then have "attr ns b = None \<longleftrightarrow> attr ns0 b = None" for b by simp
  then show ?thesis by (auto simp: attr_def dom_def)
qed

lemma cds_state_swap: "(s :: cds_state)\<lparr>c_sets := x, c_nodes := y\<rparr> = s\<lparr>c_nodes := y, c_sets := x\<rparr>"
  by simp

text \<open>A new seed for the levels, and guards given back in another order, keep the invariant.\<close>

lemma seed_inv:
  assumes inv: "cds_inv s F" and F: "F head = Some xs" and tid: "tid_ok tid s"
    and st: "c_sets s head = Some st" "height_ok st xs" and fr: "mset fr = mset (tr_free (thread_of tid s))"
  shows "cds_inv (wg tid (tr_hazards (thread_of tid s)) fr (s\<lparr>c_sets := (c_sets s)(head \<mapsto> st\<lparr>ss_nSeed := seed\<rparr>)\<rparr>))
    (F(head \<mapsto> xs))"
proof (rule cds_inv_update [OF inv])
  note i = cds_invD [OF inv] and o = others_disjoint [OF inv, of head]
  let ?s2 = "s\<lparr>c_sets := (c_sets s)(head \<mapsto> st\<lparr>ss_nSeed := seed\<rparr>)\<rparr>"
  let ?w = "wg tid (tr_hazards (thread_of tid s)) fr ?s2"
  show "collector_ok (c_smr ?w)" using collector_ok_wg [of ?s2 tid fr] i(1) tid fr by simp
  show "height_ok (st\<lparr>ss_nSeed := seed\<rparr>) xs" using st(2) by (simp add: height_ok_def)
  show "blocks head xs \<inter> retired_set (c_smr ?w) = {}" using i(5) [OF F] by simp
  show "dom (c_nodes ?w) = blocks head xs \<union> others F head \<union> retired_set (c_smr ?w)" using o(4) [OF F] by simp
  show "c_nodes ?w b = c_nodes s b \<and> b \<notin> blocks head xs \<and> b \<notin> retired_set (c_smr ?w)" if "b \<in> others F head" for b
    using that o(1) o(3) [OF F] by auto
  show "list_ok (c_nodes ?w) head xs" using i(4) [OF F] by simp
qed simp

lemma insert_spec:
  assumes inv: "cds_inv s F" and F: "F head = Some xs" and tid: "tid_ok tid s"
    and a: "a \<noteq> 0" "aligned a" "c_nodes s a = None"
  shows "\<exists>s' xs'. set_insert tid head a v s = Some (v \<notin> keys xs, s') \<and> cds_inv s' (F(head \<mapsto> xs')) \<and>
    keys xs' = insert v (keys xs) \<and> same_threads s s' \<and> dom (c_nodes s') \<subseteq> insert a (dom (c_nodes s))"
proof -
  note i = cds_invD [OF inv] and o = others_disjoint [OF inv, of head]
  note ok = i(4) [OF F] and coll = i(1)
  obtain st where st: "c_sets s head = Some st" "height_ok st xs" using i(6) [OF F] by blast
  let ?hs = "tr_hazards (thread_of tid s)"
  obtain h seed where rl: "random_level (ss_nSeed st) = (h, seed)" by (cases "random_level (ss_nSeed st)")
  have h: "1 \<le> h" "h \<le> 32" using random_level_range [of "ss_nSeed st"] rl by simp_all
  note fit = collector_ok_fit [OF coll tid]
  obtain g fr where fr: "tr_free (thread_of tid s) = g # fr" "64 \<le> length fr"
    using fit(2) by (cases "tr_free (thread_of tid s)") auto
  let ?fr' = "g # rev (take 64 fr) @ drop 64 fr"
  have ms: "mset ?fr' = mset (tr_free (thread_of tid s))"
    using fr(1) mset_take_drop [of 64 fr] by simp
  have anew: "a \<notin> dom (c_nodes s)" using a(3) by auto
  then have ab: "a \<notin> blocks head xs" "a \<notin> others F head" "a \<notin> retired_set (c_smr s)"
    using o(4) [OF F] by auto
  let ?st1 = "st\<lparr>ss_nSeed := seed\<rparr>"
  let ?s1 = "s\<lparr>c_nodes := (c_nodes s)(a \<mapsto> node_ctor h v), c_sets := (c_sets s)(head \<mapsto> ?st1)\<rparr>"
  have ok1: "list_ok (c_nodes ?s1) head xs"
    by (rule list_ok_cong [OF _ ok]) (use ab(1) in auto)
  have new: "fresh_node (c_nodes ?s1) a v h" using fresh_node_New [OF h a(1,2)] by simp
  have tid1: "tid_ok tid ?s1" and st1: "c_sets ?s1 head = Some ?st1" using tid by simp_all
  note run = insert_node_run [OF ok1 st1 new ab(1) tid1 fit(1) [unfolded fr(1)] fr(2)]
  have start: "set_insert tid head a v s = Option.bind (insert_node tid head a (wg tid ?hs (g # fr) ?s1))
      (\<lambda>(r, s). if r then Some (True, s) else do { s \<leftarrow> dispose_node a s; Some (False, s) })"
  proof -
    have "wg tid ?hs (g # fr) ?s1 = ?s1" using wg_id [of tid ?s1] fr(1) by simp
    then show ?thesis using st(1) rl by (simp add: set_insert_def node_New_def Let_def cds_state_swap)
  qed
  show ?thesis
  proof (cases "v \<in> keys xs")
    case True
    let ?s2 = "s\<lparr>c_sets := (c_sets s)(head \<mapsto> ?st1)\<rparr>"
    have "(c_nodes ?s1)(a := None) = c_nodes s" using a(3) by (simp add: fun_upd_idem)
    then have "dispose_node a (wg tid ?hs ?fr' ?s1) = Some (wg tid ?hs ?fr' ?s2)"
      by (simp add: dispose_node_def)
    then have res: "set_insert tid head a v s = Some (False, wg tid ?hs ?fr' ?s2)"
      using start run True by simp
    have "cds_inv (wg tid ?hs ?fr' ?s2) (F(head \<mapsto> xs))" by (rule seed_inv [OF inv F tid st ms])
    then show ?thesis
      using res True by (intro exI [of _ "wg tid ?hs ?fr' ?s2"] exI [of _ xs]) (auto simp: insert_absorb)
  next
    case False
    let ?xs' = "below v xs @ (a, v, h) # above v xs"
    let ?st2 = "?st1\<lparr>ss_nHeight := max h (ss_nHeight st)\<rparr>"
    obtain ns where ns: "insert_node tid head a (wg tid ?hs (g # fr) ?s1) =
        Some (True, wg tid ?hs ?fr' (?s1\<lparr>c_nodes := ns, c_sets := (c_sets ?s1)(head \<mapsto> ?st2)\<rparr>))"
      "linked_to (c_nodes ?s1) a h (\<lambda>l. prev_at head xs v l) (\<lambda>l. first_or_null (lev l (above v xs))) h ns"
      using run False by auto
    let ?s2 = "s\<lparr>c_nodes := ns, c_sets := (c_sets s)(head \<mapsto> ?st2)\<rparr>"
    have res: "set_insert tid head a v s = Some (True, wg tid ?hs ?fr' ?s2)"
      using start ns(1) by simp
    have miss: "\<not> hit v xs" using False hit_iff [OF list_ok_sorted [OF ok]] by simp
    have ok2: "list_ok ns head ?xs'" by (rule list_ok_insert [OF ok1 new ab(1) miss ns(2)])
    have set': "it_addr ` set ?xs' = insert a (it_addr ` set xs)"
      using arg_cong [OF below_above [of xs v], of "\<lambda>xs. it_addr ` set xs"] by auto
    have dom2: "dom ns = insert a (dom (c_nodes s))" using linked_to_dom [OF ns(2)] by simp
    have "cds_inv (wg tid ?hs ?fr' ?s2) (F(head \<mapsto> ?xs'))"
    proof (rule cds_inv_update [OF inv])
      show "collector_ok (c_smr (wg tid ?hs ?fr' ?s2))"
        using collector_ok_wg [of ?s2 tid ?fr'] coll tid ms by simp
      have "set ?xs' = insert (a, v, h) (set xs)"
        using arg_cong [OF below_above [of xs v], of set] by auto
      then show "height_ok ?st2 ?xs'" using st(2) h by (auto simp: height_ok_def)
      show "blocks head ?xs' \<inter> retired_set (c_smr (wg tid ?hs ?fr' ?s2)) = {}"
        unfolding set' using i(5) [OF F] ab(3) by simp
      show "dom (c_nodes (wg tid ?hs ?fr' ?s2)) =
          blocks head ?xs' \<union> others F head \<union> retired_set (c_smr (wg tid ?hs ?fr' ?s2))"
        unfolding set' using o(4) [OF F] dom2 by auto
      show "c_nodes (wg tid ?hs ?fr' ?s2) b = c_nodes s b \<and> b \<notin> blocks head ?xs' \<and>
          b \<notin> retired_set (c_smr (wg tid ?hs ?fr' ?s2))" if b: "b \<in> others F head" for b
      proof -
        have "b \<notin> blocks head xs" "b \<noteq> a" "b \<notin> retired_set (c_smr s)"
          using b o(1) o(3) [OF F] ab(2) by auto
        moreover from this have "b \<notin> range (\<lambda>l. prev_at head xs v l)" using prev_at_mem by blast
        ultimately show ?thesis unfolding set' using ns(2) by (simp add: linked_to_def)
      qed
    qed (use ok2 in simp_all)
    moreover have "keys ?xs' = insert v (keys xs)"
      using arg_cong [OF below_above [of xs v], of keys] by (auto simp: keys_def)
    ultimately show ?thesis
      using res False dom2 by (intro exI [of _ "wg tid ?hs ?fr' ?s2"] exI [of _ ?xs']) simp
  qed
qed

lemma disjoint_after: "B \<inter> R = {} \<Longrightarrow> B' \<subseteq> B \<Longrightarrow> d \<notin> B' \<Longrightarrow> B' \<inter> (insert d R - X) = {}"
  by blast

lemma dom_after:
  "(\<And>b. b \<in> B' \<union> O' \<Longrightarrow> b \<notin> X) \<Longrightarrow> (insert d B' \<union> O' \<union> R) - X = B' \<union> O' \<union> (insert d R - X)"
  by blast

text \<open>The invariant after a node has been removed and retired; \<open>fr\<close> is the free list when all guards are back.\<close>

lemma removed_inv:
  fixes v :: int64
  assumes inv: "cds_inv s F" and F: "F head = Some xs" and tid: "tid_ok tid s"
    and A: "above v xs = (d, v, h) # ys"
    and fr: "mset fr = mset (tr_free (thread_of tid s))"
    and r: "list_ok ns head (below v xs @ ys)" "dom ns = dom (c_nodes s)"
      "\<forall>b. b \<notin> blocks head xs \<longrightarrow> ns b = c_nodes s b"
      "smr_ok (c_smr (wg tid (tr_hazards (thread_of tid s)) fr (ret_state tid kept s)))"
      "set freed \<union> set kept = insert d (set (tr_retired (thread_of tid s)))" "set freed \<inter> set kept = {}"
  shows "cds_inv (wg tid (tr_hazards (thread_of tid s)) fr ((ret_state tid kept s)\<lparr>c_nodes := ns |` (- set freed)\<rparr>))
      (F(head \<mapsto> below v xs @ ys)) \<and> keys (below v xs @ ys) = keys xs - {v}"
proof
  note i = cds_invD [OF inv] and o = others_disjoint [OF inv, of head]
  note ok = i(4) [OF F] and coll = i(1)
  obtain st where st: "c_sets s head = Some st" "height_ok st xs" using i(6) [OF F] by blast
  let ?xs' = "below v xs @ ys"
  let ?s2 = "(ret_state tid kept s)\<lparr>c_nodes := ns |` (- set freed)\<rparr>"
  let ?w = "\<lambda>s'. wg tid (tr_hazards (thread_of tid s)) fr s'"
  let ?R = "retired_set (set_retired tid kept (c_smr s))"
  have xs: "xs = below v xs @ (d, v, h) # ys" using below_above [of xs v] A by metis
  have dist: "distinct (head # map it_addr (below v xs @ (d, v, h) # ys))"
    using ok xs unfolding list_ok_def by metis
  have bl: "blocks head xs = insert d (blocks head ?xs')"
    using arg_cong [OF xs, of "\<lambda>xs. blocks head xs"] by auto
  have dn: "d \<notin> blocks head ?xs'" using dist by auto
  have dR: "d \<notin> retired_set (c_smr s)" using i(5) [OF F] bl by auto
  have R: "?R = insert d (retired_set (c_smr s)) - set freed"
    by (rule retired_set_ret [OF coll tid dR r(5,6)])
  have fsub: "set freed \<subseteq> insert d (retired_set (c_smr s))"
    using r(5) retired_set_thread [OF tid] by blast
  have sub: "blocks head ?xs' \<subseteq> blocks head xs" unfolding bl by (rule subset_insertI)
  have fxs: "b \<notin> set freed" if "b \<in> blocks head ?xs' \<union> others F head" for b
  proof -
    have "d \<in> blocks head xs" unfolding bl by (rule insertI1)
    then have "d \<notin> others F head" using o(3) [OF F] by (meson disjoint_iff)
    then have "b \<noteq> d" using that dn by (meson UnE)
    moreover have "b \<notin> retired_set (c_smr s)"
      using that sub i(5) [OF F] o(1) by (meson UnE disjoint_iff subsetD)
    ultimately show ?thesis using fsub by (meson insertE subsetD)
  qed
  have smr2: "c_smr (?w ?s2) = c_smr (?w (ret_state tid kept s))"
    by (simp add: wg_def set_thread_def ret_state_def thread_of_def)
  have ret2: "retired_set (c_smr (?w ?s2)) = ?R" by simp
  show "cds_inv (?w ?s2) (F(head \<mapsto> ?xs'))"
  proof (rule cds_inv_update [OF inv])
    show "collector_ok (c_smr (?w ?s2))"
      unfolding smr2 using r(5) by (intro collector_ok_ret [OF coll tid dR _ fr r(4)]) blast
    show "c_sets (?w ?s2) = (c_sets s)(head \<mapsto> st)"
      using st(1) by (simp add: map_upd_triv)
    have "set ?xs' \<subseteq> set xs" using arg_cong [OF xs, of set] by auto
    then show "height_ok st ?xs'" using st(2) by (auto simp: height_ok_def)
    show "list_ok (c_nodes (?w ?s2)) head ?xs'"
    proof (rule list_ok_cong [OF _ r(1)])
      fix b assume "b \<in> blocks head ?xs'"
      then have "b \<notin> set freed" using fxs by (meson UnI1)
      then show "c_nodes (?w ?s2) b = ns b" by simp
    qed
    show "blocks head ?xs' \<inter> retired_set (c_smr (?w ?s2)) = {}"
      unfolding ret2 R by (rule disjoint_after [OF i(5) [OF F] sub dn])
    show "dom (c_nodes (?w ?s2)) = blocks head ?xs' \<union> others F head \<union> retired_set (c_smr (?w ?s2))"
    proof -
      have "dom (c_nodes (?w ?s2)) = dom (c_nodes s) - set freed"
        using r(2) by simp blast
      also have "\<dots> = insert d (blocks head ?xs') \<union> others F head \<union> retired_set (c_smr s) - set freed"
        unfolding o(4) [OF F] bl ..
      also have "\<dots> = blocks head ?xs' \<union> others F head \<union> (insert d (retired_set (c_smr s)) - set freed)"
        by (rule dom_after [OF fxs])
      finally show ?thesis unfolding ret2 R .
    qed
    show "c_nodes (?w ?s2) b = c_nodes s b \<and> b \<notin> blocks head ?xs' \<and> b \<notin> retired_set (c_smr (?w ?s2))"
      if b: "b \<in> others F head" for b
    proof -
      have nb: "b \<notin> blocks head xs" "b \<notin> retired_set (c_smr s)" using b o(1) o(3) [OF F] by (meson disjoint_iff)+
      have "b \<notin> set freed" using fxs b by (meson UnI2)
      moreover have "b \<noteq> d" using nb(1) unfolding bl by (meson insertI1)
      moreover have "b \<notin> blocks head ?xs'" using nb(1) sub by (meson subsetD)
      moreover have "ns b = c_nodes s b" using r(3) nb(1) by simp
      ultimately show ?thesis using nb(2) unfolding ret2 R by (simp add: restrict_map_def)
    qed
  qed
  have "distinct (map it_key xs)"
    using list_ok_sorted [OF ok] by (auto simp: strict_sorted_iff distinct_map inj_on_def)
  then have "distinct (map it_key (below v xs @ (d, v, h) # ys))" using xs by metis
  then have "v \<notin> keys ?xs'" by (auto simp: keys_def)
  moreover have "keys xs = insert v (keys ?xs')"
    using arg_cong [OF xs, of keys] by (auto simp: keys_def)
  ultimately show "keys ?xs' = keys xs - {v}" by auto
qed

lemma erase_spec:
  fixes v :: int64
  assumes inv: "cds_inv s F" and F: "F head = Some xs" and tid: "tid_ok tid s"
  shows "\<exists>s' xs'. set_erase tid head v s = Some (v \<in> keys xs, s') \<and> cds_inv s' (F(head \<mapsto> xs')) \<and>
    keys xs' = keys xs - {v} \<and> same_threads s s' \<and> dom (c_nodes s') \<subseteq> dom (c_nodes s)"
proof -
  note i = cds_invD [OF inv] and o = others_disjoint [OF inv, of head]
  note ok = i(4) [OF F] and coll = i(1)
  let ?hs = "tr_hazards (thread_of tid s)" and ?fr = "tr_free (thread_of tid s)"
  let ?fr' = "rev (take 64 ?fr) @ drop 64 ?fr"
  note fit = collector_ok_fit [OF coll tid]
  have len: "65 \<le> length ?fr" using fit(2) by linarith
  have sok: "smr_ok (c_smr s)" using coll by (simp add: collector_ok_def)
  have rd: "retired_set (c_smr s) \<subseteq> dom (c_nodes s)" using o(4) [OF F] by blast
  note run = set_erase_run [OF ok sok tid fit(1) len i(5) [OF F] rd, of v, unfolded wg_id]
  show ?thesis
  proof (cases "v \<in> keys xs")
    case False
    then have "set_erase tid head v s = Some (False, wg tid ?hs ?fr' s)" using run by simp
    moreover have "cds_inv (wg tid ?hs ?fr' s) (F(head \<mapsto> xs))"
      using cds_inv_wg [OF inv tid mset_take_drop] F by (simp add: map_upd_triv)
    ultimately show ?thesis
      using False by (intro exI [of _ "wg tid ?hs ?fr' s"] exI [of _ xs]) simp
  next
    case True
    let ?d = "it_addr (hd (above v xs))" and ?xs' = "below v xs @ tl (above v xs)"
    obtain ns freed kept where r: "set_erase tid head v s =
        Some (True, wg tid ?hs ?fr' ((ret_state tid kept s)\<lparr>c_nodes := ns |` (- set freed)\<rparr>))"
      "list_ok ns head ?xs'" "dom ns = dom (c_nodes s)"
      "\<forall>b. b \<notin> blocks head xs \<longrightarrow> ns b = c_nodes s b"
      "smr_ok (c_smr (wg tid ?hs ?fr' (ret_state tid kept s)))"
      "set freed \<union> set kept = insert ?d (set (tr_retired (thread_of tid s)))" "set freed \<inter> set kept = {}"
      using run True by auto
    have "hit v xs" using True hit_iff [OF list_ok_sorted [OF ok]] by simp
    then obtain h where A: "above v xs = (?d, v, h) # tl (above v xs)"
      by (cases "above v xs") (auto simp: hit_def)
    note rem = removed_inv [OF inv F tid A mset_take_drop r(2-7)]
    have "dom (ns |` (- set freed)) \<subseteq> dom (c_nodes s)" using r(3) by auto
    then show ?thesis
      using r(1) True rem
      by (intro exI [of _ "wg tid ?hs ?fr' ((ret_state tid kept s)\<lparr>c_nodes := ns |` (- set freed)\<rparr>)"] exI [of _ ?xs']) simp
  qed
qed

subsection \<open>Construction and destruction\<close>

lemma ctor_spec:
  assumes inv: "cds_inv s F" and head: "head \<noteq> 0" "aligned head" "c_nodes s head = None"
  shows "\<exists>s'. set_ctor head seed s = Some s' \<and> cds_inv s' (F(head \<mapsto> [])) \<and> c_smr s' = c_smr s \<and>
    dom (c_nodes s') = insert head (dom (c_nodes s))"
proof -
  note i = cds_invD [OF inv]
  have F: "F head = None"
  proof (cases "F head")
    case (Some xs)
    then have "head \<in> dom (c_nodes s)" using i(8) [OF Some] by blast
    then show ?thesis using head(3) by auto
  qed
  note o = others_disjoint [OF inv, of head]
  let ?st = "\<lparr>ss_nSeed = seed, ss_nHeight = 5\<rparr>"
  let ?s' = "s\<lparr>c_nodes := (c_nodes s)(head \<mapsto> head_node 32), c_sets := (c_sets s)(head \<mapsto> ?st)\<rparr>"
  have nd: "head \<notin> dom (c_nodes s)" using head(3) by auto
  have "set_ctor head seed s = Some ?s'"
    using i(1) by (simp add: set_ctor_def collector_ok_def check_hazard_ptr_count_def c_nMinHeight_def)
  moreover have "cds_inv ?s' (F(head \<mapsto> []))"
  proof (rule cds_inv_update [OF inv, where st = ?st])
    show "list_ok (c_nodes ?s') head []"
      using head by (auto simp: list_ok_def head_ok_def attr_def head_node_def link_def sn_next_def)
    show "blocks head [] \<inter> retired_set (c_smr ?s') = {}" using nd o(5) [OF F] by auto
    show "dom (c_nodes ?s') = blocks head [] \<union> others F head \<union> retired_set (c_smr ?s')" using o(5) [OF F] by simp
    show "c_nodes ?s' b = c_nodes s b \<and> b \<notin> blocks head [] \<and> b \<notin> retired_set (c_smr ?s')"
      if "b \<in> others F head" for b
      using that nd o(1,2) by auto
  qed (use i(1) in \<open>simp_all add: height_ok_def\<close>)
  ultimately show ?thesis by simp
qed

text \<open>The destructor disposes the nodes of level 0 in their order.\<close>

lemma destroy_loop_spec:
  "tail_path (c_nodes s) 0 zs \<Longrightarrow> distinct zs \<Longrightarrow> \<forall>z \<in> set zs. z \<noteq> 0 \<and> aligned z \<Longrightarrow>
     destroy_loop (first_or_null zs) s = Some (s\<lparr>c_nodes := c_nodes s |` (- set zs)\<rparr>)"
proof (induction zs arbitrary: s)
  case Nil
  have "c_nodes s |` (- set []) = c_nodes s" by (rule ext) (simp add: restrict_map_def)
  then show ?case by (subst destroy_loop.simps) simp
next
  case (Cons z zs)
  let ?s = "s\<lparr>c_nodes := (c_nodes s)(z := None)\<rparr>"
  have p: "path (c_nodes s) 0 z zs 0" using Cons.prems(1) by (simp add: tail_path_def)
  have link: "link (c_nodes s) 0 z = Some (first_or_null zs)"
    using path_link [OF p, of "[]" z zs] by (simp add: first_or_null_hd)
  then have "dispose_node z s = Some ?s" by (auto simp: dispose_node_def link_def)
  moreover have "aligned (first_or_null zs)" using Cons.prems(3) by (cases zs) simp_all
  ultimately have "destroy_loop (first_or_null (z # zs)) s = destroy_loop (first_or_null zs) ?s"
    using Cons.prems(3) link by (subst destroy_loop.simps) (simp add: node_load_link)
  also have "\<dots> = Some (?s\<lparr>c_nodes := c_nodes ?s |` (- set zs)\<rparr>)"
  proof (rule Cons.IH)
    have "tail_path (c_nodes s) 0 zs" using p by (cases zs) (simp_all add: tail_path_def)
    then show "tail_path (c_nodes ?s) 0 zs"
      by (rule tail_path_cong [rotated]) (use Cons.prems(2) in \<open>auto simp: link_def\<close>)
  qed (use Cons.prems in simp_all)
  also have "c_nodes ?s |` (- set zs) = c_nodes s |` (- set (z # zs))"
    by (rule ext) (simp add: restrict_map_def)
  finally show ?case by simp
qed

lemma dtor_spec:
  assumes inv: "cds_inv s F" and F: "F head = Some xs"
  shows "\<exists>s'. set_dtor head s = Some s' \<and> cds_inv s' (F(head := None)) \<and> c_smr s' = c_smr s \<and>
    dom (c_nodes s') = dom (c_nodes s) - blocks head xs"
proof -
  note i = cds_invD [OF inv] and o = others_disjoint [OF inv, of head]
  note ok = i(4) [OF F]
  let ?zs = "map it_addr xs"
  have items: "\<forall>i \<in> set xs. item_ok (c_nodes s) i" using ok by (simp add: list_ok_def)
  have "\<forall>l < 32. path (c_nodes s) l head (lev l xs) 0" using ok by (simp add: list_ok_def)
  from this [rule_format, of 0] have p: "path (c_nodes s) 0 head ?zs 0"
    using lev_0(1) [OF items] by simp
  have link: "link (c_nodes s) 0 head = Some (first_or_null ?zs)"
    using path_link [OF p, of "[]" head ?zs] by (simp add: first_or_null_hd)
  have dist: "distinct (head # ?zs)" using ok by (simp add: list_ok_def)
  have z: "\<forall>z \<in> set ?zs. z \<noteq> 0 \<and> aligned z" using items by (auto simp: item_ok_def)
  then have al: "aligned (first_or_null ?zs)" by (cases xs) simp_all
  have "tail_path (c_nodes s) 0 ?zs" using p by (cases xs) (simp_all add: tail_path_def)
  then have "destroy_loop (first_or_null ?zs) s = Some (s\<lparr>c_nodes := c_nodes s |` (- set ?zs)\<rparr>)"
    using dist z by (intro destroy_loop_spec) simp_all
  moreover have "(c_nodes s |` (- set ?zs))(head := None) = c_nodes s |` (- blocks head xs)"
    by (rule ext) (simp add: restrict_map_def)
  ultimately have res: "set_dtor head s =
      Some (s\<lparr>c_nodes := c_nodes s |` (- blocks head xs), c_sets := (c_sets s)(head := None)\<rparr>)" (is "_ = Some ?s'")
    using link al by (simp add: set_dtor_def node_load_link)
  have dom': "dom (c_nodes ?s') = others F head \<union> retired_set (c_smr s)"
  proof -
    have "dom (c_nodes ?s') = dom (c_nodes s) - blocks head xs" by auto
    also have "\<dots> = (blocks head xs \<union> others F head \<union> retired_set (c_smr s)) - blocks head xs"
      unfolding o(4) [OF F] ..
    also have "\<dots> = others F head \<union> retired_set (c_smr s)" using o(3) [OF F] i(5) [OF F] by blast
    finally show ?thesis .
  qed
  have "cds_inv ?s' (F(head := None))"
    unfolding cds_inv_def
  proof (intro conjI allI impI)
    have "dom (F(head := None)) = dom F - {head}" by auto
    moreover have "(\<Union>h \<in> dom F - {head}. blocks h (the ((F(head := None)) h))) = others F head"
      unfolding others_def by (rule SUP_cong) auto
    ultimately show "dom (c_nodes ?s') =
        (\<Union>h \<in> dom (F(head := None)). blocks h (the ((F(head := None)) h))) \<union> retired_set (c_smr ?s')"
      using dom' by simp
    show "dom (c_sets ?s') = dom (F(head := None))" using i(3) by auto
  next
    fix h ys assume "(F(head := None)) h = Some ys"
    then have h: "F h = Some ys" "h \<noteq> head" by (auto split: if_splits)
    have sub: "blocks h ys \<subseteq> others F head" by (rule others_mem [of F, OF h])
    show "list_ok (c_nodes ?s') h ys"
    proof (rule list_ok_cong [OF _ i(4) [OF h(1)]])
      fix b assume "b \<in> blocks h ys"
      then have "b \<notin> blocks head xs" using sub o(3) [OF F] by (meson disjoint_iff subsetD)
      then show "c_nodes ?s' b = c_nodes s b" by (simp add: restrict_map_def)
    qed
    show "blocks h ys \<inter> retired_set (c_smr ?s') = {}" using i(5) [OF h(1)] by simp
    show "height_ok (the (c_sets ?s' h)) ys" using i(6) [OF h(1)] h(2) by auto
  next
    fix h h' ys ys' assume a: "(F(head := None)) h = Some ys \<and> (F(head := None)) h' = Some ys' \<and> h \<noteq> h'"
    then show "blocks h ys \<inter> blocks h' ys' = {}" by (intro i(7)) (auto split: if_splits)
  qed (use i(1) in simp)
  moreover have "dom (c_nodes ?s') = dom (c_nodes s) - blocks head xs" by auto
  ultimately show ?thesis using res by (intro exI [of _ ?s']) simp
qed

subsection \<open>Attaching a thread\<close>

lemma smr_ok_HP: "smr_ok (HP 67)"
  by (simp add: smr_ok_def HP_def smr_ctor_def calc_retired_size_def Let_def c_nMaxThreadCount_def)

lemma collector_ok_HP: "collector_ok (HP 67)"
  using smr_ok_HP
  by (simp add: collector_ok_def HP_def smr_ctor_def c_nHazardPtrCount_def Let_def)

lemma create_thread_data_ok:
  assumes "collector_ok m"
  shows "record_ok (hazard_ptr_count m) (max_retired_ptr_count m) (create_thread_data m)"
  using assms
  by (auto simp: collector_ok_def record_ok_def create_thread_data_def guards_ok_def smr_ok_def)

text \<open>A thread that attaches takes a free record or gets a new one.\<close>

lemma find_free_record_bound: "find_free_record rs n = Some i \<Longrightarrow> i < n"
  by (induction n) (auto split: if_splits)

lemma alloc_thread_data_ok:
  assumes ok: "collector_ok m" and room: "length (smr_threads m) < max_thread_count m"
    and r: "alloc_thread_data t m = (i, m')"
  shows "collector_ok m' \<and> i < length (smr_threads m') \<and> retired_set m' = retired_set m \<and>
    tr_owner (smr_threads m' ! i) = t"
proof (cases "find_free_record (smr_threads m) (length (smr_threads m))")
  case None
  let ?r = "(create_thread_data m)\<lparr>tr_owner := t\<rparr>"
  have m': "i = length (smr_threads m)" "m' = m\<lparr>smr_threads := smr_threads m @ [?r]\<rparr>"
    using r None by (simp_all add: alloc_thread_data_def)
  have "record_ok (hazard_ptr_count m) (max_retired_ptr_count m) ?r"
    using create_thread_data_ok [OF ok] by (simp add: record_ok_def guards_ok_def create_thread_data_def)
  moreover have "tr_retired ?r = []" "length (tr_free ?r) = hazard_ptr_count m"
    by (simp_all add: create_thread_data_def)
  ultimately show ?thesis
    using ok room
    by (auto simp: m' collector_ok_def smr_ok_def retired_set_def nth_append less_Suc_eq lessThan_Suc)
next
  case (Some j)
  let ?r = "(smr_threads m ! i)\<lparr>tr_owner := t, tr_bFree := False\<rparr>"
  have m': "i = j" "m' = m\<lparr>smr_threads := (smr_threads m)[i := ?r]\<rparr>"
    using r Some by (auto simp: alloc_thread_data_def)
  have i: "i < length (smr_threads m)" using find_free_record_bound [OF Some] m'(1) by simp
  then have mem: "smr_threads m ! i \<in> set (smr_threads m)" by simp
  have "record_ok (hazard_ptr_count m) (max_retired_ptr_count m) (smr_threads m ! i)"
    using ok mem by (simp add: collector_ok_def smr_ok_def)
  then have "record_ok (hazard_ptr_count m) (max_retired_ptr_count m) ?r"
    by (auto simp: record_ok_def guards_ok_def)
  moreover have "length (tr_free ?r) = hazard_ptr_count m"
    using ok mem by (simp add: collector_ok_def)
  ultimately have "smr_ok m'" "\<forall>r \<in> set (smr_threads m'). length (tr_free r) = hazard_ptr_count m"
    using ok set_update_subset_insert [of "smr_threads m" i ?r] by (auto simp: m' collector_ok_def smr_ok_def)
  moreover have "tr_retired (smr_threads m' ! k) = tr_retired (smr_threads m ! k)" for k
    using i by (cases "k = i") (simp_all add: m' nth_list_update)
  moreover have "length (smr_threads m') = length (smr_threads m)" "hazard_ptr_count m' = hazard_ptr_count m"
    by (simp_all add: m')
  ultimately show ?thesis using ok i by (simp add: collector_ok_def retired_set_def m')
qed

subsection \<open>A concrete state\<close>

text \<open>The collector of \<^verbatim>\<open>redpar.cpp\<close> with one attached thread, and a set without items at the address 4096.\<close>

definition start_state :: cds_state where
  "start_state = \<lparr>c_nodes = Map.empty, c_sets = Map.empty, c_smr = snd (alloc_thread_data 1 (HP 67))\<rparr>"

definition demo_set :: cds_state where
  "demo_set = the (set_ctor 4096 7 start_state)"

lemma start_state_inv: "cds_inv start_state Map.empty" "tid_ok 0 start_state"
proof -
  obtain i m where r: "alloc_thread_data 1 (HP 67) = (i, m)" by (cases "alloc_thread_data 1 (HP 67)")
  have "length (smr_threads (HP 67)) < max_thread_count (HP 67)"
    by (simp add: HP_def smr_ctor_def Let_def c_nMaxThreadCount_def)
  note ok = alloc_thread_data_ok [OF collector_ok_HP this r]
  have "retired_set (HP 67) = {}" by (simp add: retired_set_def HP_def smr_ctor_def Let_def)
  then show "cds_inv start_state Map.empty"
    using ok r by (simp add: cds_inv_def start_state_def)
  show "tid_ok 0 start_state" using ok r by (auto simp: tid_ok_def start_state_def)
qed

lemma demo_set_inv: "cds_inv demo_set [4096 \<mapsto> []]" "tid_ok 0 demo_set" "dom (c_nodes demo_set) = {4096}"
proof -
  have "aligned 4096" "(4096 :: addr) \<noteq> 0" "c_nodes start_state 4096 = None"
    by (simp_all add: aligned_even start_state_def)
  from ctor_spec [OF start_state_inv(1) this(2,1,3), of 7]
  obtain s' where s': "set_ctor 4096 7 start_state = Some s'" "cds_inv s' [4096 \<mapsto> []]"
    "c_smr s' = c_smr start_state" "dom (c_nodes s') = insert 4096 (dom (c_nodes start_state))" by blast
  then have "demo_set = s'" by (simp add: demo_set_def)
  with s' have *: "cds_inv demo_set [4096 \<mapsto> []]" "c_smr demo_set = c_smr start_state"
    "dom (c_nodes demo_set) = insert 4096 (dom (c_nodes start_state))"
    by simp_all
  show "cds_inv demo_set [4096 \<mapsto> []]" by (rule *(1))
  show "tid_ok 0 demo_set" using *(2) start_state_inv(2) by (simp add: tid_ok_def)
  show "dom (c_nodes demo_set) = {4096}" using *(3) by (simp add: start_state_def)
qed

lemma demo_attached: "attached 0 demo_set"
proof -
  have "c_smr demo_set = c_smr start_state"
    by (simp add: demo_set_def set_ctor_def start_state_def check_hazard_ptr_count_def HP_def smr_ctor_def Let_def
      alloc_thread_data_def c_nHazardPtrCount_def)
  then show ?thesis
    by (simp add: attached_def tid_ok_def thread_of_def start_state_def alloc_thread_data_def HP_def smr_ctor_def Let_def)
qed

lemma demo_insert:
  "\<exists>s xs. set_insert 0 4096 8192 42 demo_set = Some (True, s) \<and> cds_inv s [4096 \<mapsto> xs] \<and> keys xs = {42} \<and>
    tid_ok 0 s \<and> attached 0 s"
proof -
  have "8192 \<notin> dom (c_nodes demo_set)" by (simp add: demo_set_inv(3))
  then have "c_nodes demo_set 8192 = None" by (simp add: domIff)
  then obtain s xs where "set_insert 0 4096 8192 42 demo_set = Some (42 \<notin> keys [], s)" "cds_inv s ([4096 \<mapsto> []](4096 \<mapsto> xs))"
      "keys xs = insert 42 (keys [])" "same_threads demo_set s"
    using insert_spec [OF demo_set_inv(1) _ demo_set_inv(2), of 4096 "[]" 8192 42] by (auto simp: aligned_even)
  then show ?thesis using same_threads_tid same_threads_attached demo_attached demo_set_inv(2) by (intro exI [of _ s] exI [of _ xs]) (simp add: keys_def)
qed

subsection \<open>Properties\<close>

text \<open>C3: Inserting a value into a skip list: for every well-formed state, \<open>insert\<close> returns, reports
  whether the value was missing, adds it to the set and nothing else, links the new node at all the levels of
  its tower (the invariant holds again), leaves every other set alone, and frees the node when the value was there.\<close>

theorem set_insert_correct:
  assumes "cds_inv s F" and "F head = Some xs" and "tid_ok tid s"
    and "a \<noteq> 0" and "aligned a" and "c_nodes s a = None"
  shows "\<exists>s' xs'. set_insert tid head a v s = Some (v \<notin> keys xs, s') \<and> cds_inv s' (F(head \<mapsto> xs')) \<and>
    keys xs' = insert v (keys xs)"
  using insert_spec [OF assms, of v] by blast

theorem set_insert_correct_witness:
  "\<exists>s' xs'. set_insert 0 4096 8192 42 demo_set = Some (42 \<notin> keys [], s') \<and>
    cds_inv s' ([4096 \<mapsto> []](4096 \<mapsto> xs')) \<and> keys xs' = insert 42 (keys [])"
proof (rule set_insert_correct [OF demo_set_inv(1) _ demo_set_inv(2)])
  have "8192 \<notin> dom (c_nodes demo_set)" by (simp add: demo_set_inv(3))
  then show "c_nodes demo_set 8192 = None" by (simp add: domIff)
qed (simp_all add: aligned_even)



text \<open>C5: Searching: \<open>contains\<close> (its fast path) returns, answers whether the value is in the set, changes
  no node and gives all its guards back.\<close>

theorem set_contains_correct:
  assumes "cds_inv s F" and "F head = Some xs" and "tid_ok tid s"
  shows "\<exists>s'. set_contains tid head v s = Some (v \<in> keys xs, s') \<and> cds_inv s' F \<and> c_nodes s' = c_nodes s"
  using contains_spec [OF assms, of v] by blast

theorem set_contains_correct_witness:
  "\<exists>s xs s'. set_insert 0 4096 8192 42 demo_set = Some (True, s) \<and> keys xs = {42} \<and>
    set_contains 0 4096 42 s = Some (True, s') \<and> cds_inv s' [4096 \<mapsto> xs] \<and> c_nodes s' = c_nodes s"
proof -
  obtain s xs where s: "set_insert 0 4096 8192 42 demo_set = Some (True, s)" "cds_inv s [4096 \<mapsto> xs]" "keys xs = {42}" "tid_ok 0 s"
    using demo_insert by blast
  have "\<exists>s'. set_contains 0 4096 42 s = Some (42 \<in> keys xs, s') \<and> cds_inv s' [4096 \<mapsto> xs] \<and> c_nodes s' = c_nodes s"
    by (rule set_contains_correct [OF s(2) _ s(4)]) simp
  with s show ?thesis by (auto simp del: fun_upd_apply)
qed



end
