(* ===== verification/Conc_Spec.thy ===== *)
theory Conc_Spec
  imports Conc_Commands Skip_List_Set Call_Trace
begin

text \<open>
  What the skip-list commands promise, as functions on a database of sets, and the proof that the
  events of \<open>Conc_Commands\<close> implement them on a server that obeys \<open>redis_laws\<close> with a C++ allocator that
  returns fresh blocks. The database maps a key to its set of values, or to a mark for a key of
  another type.
\<close>

subsection \<open>The abstract database\<close>

datatype conc_entry = DB_Set "int64 set" | DB_Other

type_synonym conc_db = "string \<rightharpoonup> conc_entry"

datatype conc_class =
  Conc_Create_Event | Conc_Delete_Event | Conc_Insert_Event | Conc_Contains_Event | Conc_Remove_Event

definition spec_value :: "(int64 \<Rightarrow> int64 set \<Rightarrow> string \<times> int64 set) \<Rightarrow> (string \<rightharpoonup> int64) \<Rightarrow> string list \<Rightarrow>
    conc_db \<Rightarrow> string \<times> conc_db" where
  "spec_value f parse argv db =
     (if length argv \<noteq> 3 then (''ERR: wrong arity'', db)
      else case parse (argv ! 2) of
        None \<Rightarrow> (''ERR invalid value: must be a signed 64 bit integer'', db)
      | Some v \<Rightarrow> (case db (argv ! 1) of
          None \<Rightarrow> (''ERR: no list exists for that key'', db)
        | Some DB_Other \<Rightarrow> (REDISMODULE_ERRORMSG_WRONGTYPE, db)
        | Some (DB_Set A) \<Rightarrow> (let (r, B) = f v A in (r, db(argv ! 1 \<mapsto> DB_Set B)))))"

definition spec_conc :: "(string \<rightharpoonup> int64) \<Rightarrow> conc_class \<Rightarrow> string list \<Rightarrow> conc_db \<Rightarrow> string \<times> conc_db" where
  "spec_conc parse c argv db = (case c of
      Conc_Create_Event \<Rightarrow>
        if length argv \<noteq> 2 then (''ERR: wrong arity'', db)
        else if db (argv ! 1) \<noteq> None then (''ERR: key already exists'', db)
        else (''OK'', db(argv ! 1 \<mapsto> DB_Set {}))
    | Conc_Delete_Event \<Rightarrow>
        if length argv \<noteq> 2 then (''ERR: wrong arity'', db)
        else (case db (argv ! 1) of
            None \<Rightarrow> (''ERR: key does not exist'', db)
          | Some DB_Other \<Rightarrow> (REDISMODULE_ERRORMSG_WRONGTYPE, db)
          | Some (DB_Set _) \<Rightarrow> (''OK'', db(argv ! 1 := None)))
    | Conc_Insert_Event \<Rightarrow>
        spec_value (\<lambda>v A. (if v \<in> A then ''ERR: value exists'' else ''OK'', insert v A)) parse argv db
    | Conc_Contains_Event \<Rightarrow>
        spec_value (\<lambda>v A. (if v \<in> A then ''OK'' else ''ERR: value does not exist'', A)) parse argv db
    | Conc_Remove_Event \<Rightarrow>
        spec_value (\<lambda>v A. (if v \<in> A then ''OK'' else ''ERR: value does not exist'', A - {v})) parse argv db)"

subsection \<open>The coupling\<close>

text \<open>The keys of type \<open>mt\<close> hold exactly the objects of \<open>D\<close>, each of them one key.\<close>

definition holds :: "(string \<rightharpoonup> key_entry) \<Rightarrow> addr \<Rightarrow> addr set \<Rightarrow> bool" where
  "holds K mt D \<longleftrightarrow> (\<forall>name a. K name = Some (K_Module mt a) \<longrightarrow> a \<in> D) \<and>
     (\<forall>n1 n2 a. K n1 = Some (K_Module mt a) \<longrightarrow> K n2 = Some (K_Module mt a) \<longrightarrow> n1 = n2) \<and>
     (\<forall>a \<in> D. \<exists>name. K name = Some (K_Module mt a))"

lemma holds_add:
  assumes "holds K mt D" and "K name = None" and "a \<notin> D"
  shows "holds (K(name \<mapsto> K_Module mt a)) mt (insert a D)"
proof -
  have a: "K n \<noteq> Some (K_Module mt a)" for n
    using assms(1,3) unfolding holds_def by blast
  show ?thesis
    using assms a unfolding holds_def by (simp add: fun_upd_def) (metis option.distinct(1))
qed

lemma holds_delete:
  assumes "holds K mt D" and "K name = Some (K_Module mt a)"
  shows "holds (K(name := None)) mt (D - {a})"
proof -
  have D: "a \<in> D" and one: "n = name" if "K n = Some (K_Module mt a)" for n
    using assms that unfolding holds_def by blast+
  show ?thesis
    unfolding holds_def
  proof (intro conjI allI impI ballI)
    fix b assume b: "b \<in> D - {a}"
    then obtain n where n: "K n = Some (K_Module mt b)"
      using assms(1) unfolding holds_def by blast
    with b assms(2) have "n \<noteq> name" by auto
    with n show "\<exists>n. (K(name := None)) n = Some (K_Module mt b)" by auto
  qed (use assms(1) one in \<open>auto simp: holds_def split: if_splits\<close>)
qed

definition conc_db :: "'w redis_view \<Rightarrow> ('w, 'm) conc_state_scheme \<Rightarrow> (addr \<rightharpoonup> item list) \<Rightarrow> conc_db" where
  "conc_db V st F name = (case v_keys V (st_srv st) name of
      None \<Rightarrow> None
    | Some (K_Other _) \<Rightarrow> Some DB_Other
    | Some (K_Module mt a) \<Rightarrow>
        if mt = st_llca_conc st then map_option (\<lambda>xs. DB_Set (keys xs)) (F a) else Some DB_Other)"

definition conc_inv :: "'w redis_view \<Rightarrow> ('w, 'm) conc_state_scheme \<Rightarrow> (addr \<rightharpoonup> item list) \<Rightarrow> bool" where
  "conc_inv V st F \<longleftrightarrow> cds_inv (st_cds st) F \<and> st_llca_conc st \<noteq> 0 \<and>
     holds (v_keys V (st_srv st)) (st_llca_conc st) (dom F)"

text \<open>The state \<open>st\<close> with \<open>N\<close> attached threads holds the database \<open>db\<close>.\<close>

definition conc_rel :: "'w redis_view \<Rightarrow> nat \<Rightarrow> ('w, 'm) conc_state_scheme \<Rightarrow> conc_db \<Rightarrow> bool" where
  "conc_rel V N st db \<longleftrightarrow> N = length (smr_threads (c_smr (st_cds st))) \<and>
     (\<exists>F. conc_inv V st F \<and> conc_db V st F = db)"

lemma conc_relE:
  assumes "conc_rel V N st db"
  obtains F where "conc_inv V st F" "conc_db V st F = db" "cds_inv (st_cds st) F" "st_llca_conc st \<noteq> 0"
    "N = length (smr_threads (c_smr (st_cds st)))"
  using assms by (auto simp: conc_rel_def conc_inv_def)

lemma conc_same:
  assumes "v_keys V (st_srv st') = v_keys V (st_srv st)" and "st_llca_conc st' = st_llca_conc st"
    and "st_cds st' = st_cds st"
  shows "conc_inv V st' F = conc_inv V st F" and "conc_db V st' F = conc_db V st F"
proof -
  show "conc_inv V st' F = conc_inv V st F" by (simp only: conc_inv_def assms)
  show "conc_db V st' F = conc_db V st F" by (rule ext) (simp only: conc_db_def assms)
qed

lemma conc_rel_calls:
  "v_keys V w = v_keys V (st_srv st) \<Longrightarrow>
     conc_rel V N (st\<lparr>st_srv := w, st_trace := tr\<rparr>) db = conc_rel V N st db"
  by (simp add: conc_rel_def conc_same [where st = st and st' = "st\<lparr>st_srv := w, st_trace := tr\<rparr>"])

lemma conc_live_calls [simp]:
  "conc_live (st\<lparr>st_srv := w, st_trace := tr\<rparr>) = conc_live st"
  by (simp add: conc_live_def)

lemma conc_entry_cases:
  assumes "conc_inv V st F"
  obtains
    (Absent) "v_keys V (st_srv st) name = None" "conc_db V st F name = None"
  | (Other) t where "v_keys V (st_srv st) name = Some (K_Other t)" "conc_db V st F name = Some DB_Other"
  | (Foreign) mt a where "v_keys V (st_srv st) name = Some (K_Module mt a)" "mt \<noteq> st_llca_conc st"
      "conc_db V st F name = Some DB_Other"
  | (Set) a xs where "v_keys V (st_srv st) name = Some (K_Module (st_llca_conc st) a)"
      "F a = Some xs" "conc_db V st F name = Some (DB_Set (keys xs))"
proof (cases "v_keys V (st_srv st) name")
  case None
  then show ?thesis by (intro Absent) (simp_all add: conc_db_def)
next
  case (Some e)
  show ?thesis
  proof (cases e)
    case (K_Other t)
    with Some show ?thesis by (intro Other [of t]) (simp_all add: conc_db_def)
  next
    case (K_Module mt a)
    show ?thesis
    proof (cases "mt = st_llca_conc st")
      case True
      with Some K_Module assms obtain xs where "F a = Some xs"
        by (fastforce simp: conc_inv_def holds_def)
      with True Some K_Module show ?thesis by (intro Set [of a xs]) (simp_all add: conc_db_def)
    next
      case False
      with Some K_Module show ?thesis by (intro Foreign [of mt a]) (simp_all add: conc_db_def)
    qed
  qed
qed

text \<open>Changing a set, adding one and deleting one.\<close>

lemma conc_rel_update:
  assumes inv: "conc_inv V st F" and key: "v_keys V (st_srv st) name = Some (K_Module (st_llca_conc st) a)"
    and F: "F a = Some xs"
    and st': "v_keys V (st_srv st') = v_keys V (st_srv st)" "st_llca_conc st' = st_llca_conc st"
    and cds: "cds_inv (st_cds st') (F(a \<mapsto> ys))" "same_threads (st_cds st) (st_cds st')"
  shows "conc_rel V (length (smr_threads (c_smr (st_cds st)))) st'
    ((conc_db V st F)(name \<mapsto> DB_Set (keys ys)))"
proof -
  have "dom (F(a \<mapsto> ys)) = dom F" using F by auto
  then have "conc_inv V st' (F(a \<mapsto> ys))"
    using inv cds(1) st' by (simp add: conc_inv_def)
  moreover have "conc_db V st' (F(a \<mapsto> ys)) = (conc_db V st F)(name \<mapsto> DB_Set (keys ys))"
  proof
    fix x
    have "b \<noteq> a" if "v_keys V (st_srv st) x = Some (K_Module (st_llca_conc st) b)" "x \<noteq> name" for b
      using inv key that unfolding conc_inv_def holds_def by metis
    then show "conc_db V st' (F(a \<mapsto> ys)) x = ((conc_db V st F)(name \<mapsto> DB_Set (keys ys))) x"
      using key st' by (auto simp: conc_db_def split: option.splits key_entry.splits)
  qed
  ultimately show ?thesis
    using cds(2) by (auto simp: conc_rel_def same_threads_length)
qed

lemma conc_rel_add:
  assumes inv: "conc_inv V st F" and key: "v_keys V (st_srv st) name = None" and new: "F a = None"
    and st': "v_keys V (st_srv st') = (v_keys V (st_srv st))(name \<mapsto> K_Module (st_llca_conc st) a)"
      "st_llca_conc st' = st_llca_conc st"
    and cds: "cds_inv (st_cds st') (F(a \<mapsto> []))" "c_smr (st_cds st') = c_smr (st_cds st)"
  shows "conc_rel V (length (smr_threads (c_smr (st_cds st)))) st' ((conc_db V st F)(name \<mapsto> DB_Set {}))"
proof -
  have other: "b \<noteq> a" if "v_keys V (st_srv st) x = Some (K_Module (st_llca_conc st) b)" for x b
    using inv new that unfolding conc_inv_def holds_def by blast
  have "conc_inv V st' (F(a \<mapsto> []))"
    using inv cds(1) st' new holds_add [where K = "v_keys V (st_srv st)" and mt = "st_llca_conc st"
        and D = "dom F" and a = a, OF _ key]
    by (auto simp: conc_inv_def)
  moreover have "conc_db V st' (F(a \<mapsto> [])) = (conc_db V st F)(name \<mapsto> DB_Set {})"
  proof
    fix x
    show "conc_db V st' (F(a \<mapsto> [])) x = ((conc_db V st F)(name \<mapsto> DB_Set {})) x"
      using key st' other [of x]
      by (auto simp: conc_db_def keys_def split: option.splits key_entry.splits)
  qed
  ultimately show ?thesis
    using cds(2) by (auto simp: conc_rel_def)
qed

lemma conc_rel_delete:
  assumes inv: "conc_inv V st F" and key: "v_keys V (st_srv st) name = Some (K_Module (st_llca_conc st) a)"
    and st': "v_keys V (st_srv st') = (v_keys V (st_srv st))(name := None)"
      "st_llca_conc st' = st_llca_conc st"
    and cds: "cds_inv (st_cds st') (F(a := None))" "c_smr (st_cds st') = c_smr (st_cds st)"
  shows "conc_rel V (length (smr_threads (c_smr (st_cds st)))) st' ((conc_db V st F)(name := None))"
proof -
  have "conc_inv V st' (F(a := None))"
    using inv cds(1) st' holds_delete [where K = "v_keys V (st_srv st)" and mt = "st_llca_conc st"
        and D = "dom F" and a = a, OF _ key]
    by (auto simp: conc_inv_def)
  moreover have "conc_db V st' (F(a := None)) = (conc_db V st F)(name := None)"
  proof
    fix x
    have "b \<noteq> a" if "v_keys V (st_srv st) x = Some (K_Module (st_llca_conc st) b)" "x \<noteq> name" for b
      using inv key that unfolding conc_inv_def holds_def by metis
    then show "conc_db V st' (F(a := None)) x = ((conc_db V st F)(name := None)) x"
      using key st' by (auto simp: conc_db_def split: option.splits key_entry.splits)
  qed
  ultimately show ?thesis
    using cds(2) by (auto simp: conc_rel_def)
qed

subsection \<open>The laws of the allocators\<close>

text \<open>Both allocators return blocks that are at least two-byte aligned, and \<^verbatim>\<open>operator new\<close> a fresh one as
  long as there is memory.\<close>

definition law_aligned :: "'w redis_api \<Rightarrow> 'w redis_view \<Rightarrow> bool" where
  "law_aligned api V \<longleftrightarrow> (\<forall>bytes live n w. v_room V w live (Suc n) \<longrightarrow> aligned (fst (r_Alloc api bytes live w)))"

definition law_new :: "'w platform \<Rightarrow> 'w redis_view \<Rightarrow> bool" where
  "law_new pf V \<longleftrightarrow> (\<forall>w live n. v_room V w live (Suc n) \<longrightarrow>
     p_new pf live \<noteq> 0 \<and> p_new pf live \<notin> live \<and> aligned (p_new pf live) \<and>
     v_room V w (insert (p_new pf live) live) n)"

definition conc_laws :: "'w redis_api \<Rightarrow> 'w platform \<Rightarrow> 'w redis_view \<Rightarrow> bool" where
  "conc_laws api pf V \<longleftrightarrow> redis_laws api V \<and> law_aligned api V \<and> law_new pf V"

text \<open>What executing an event must do: return, reply once as the specification says, and end in a state
  that holds the database of the specification.\<close>

definition conc_outcome :: "'w redis_view \<Rightarrow> nat \<Rightarrow> nat \<Rightarrow> event \<Rightarrow> ('w, 'm) conc_state_scheme \<Rightarrow>
    string \<times> conc_db \<Rightarrow> ('w, 'm) conc_state_scheme option \<Rightarrow> bool" where
  "conc_outcome V N m e st r res \<longleftrightarrow> (\<exists>st' tr. res = Some st' \<and> st_trace st' = st_trace st @ tr \<and>
     replies tr = [(ev_ctx e, fst r)] \<and> conc_rel V N st' (snd r) \<and> v_room V (st_srv st') (conc_live st') m)"

lemma conc_outcomeI:
  "st_trace st' = st_trace st @ tr \<Longrightarrow> replies tr = [(ev_ctx e, fst r)] \<Longrightarrow> conc_rel V N st' (snd r) \<Longrightarrow>
     v_room V (st_srv st') (conc_live st') m \<Longrightarrow> conc_outcome V N m e st r (Some st')"
  by (auto simp: conc_outcome_def)

lemmas conc_simps = host_simps Let_def split_beta conc_rel_calls entry_type_def entry_module_type_def
  entry_value_def entry_at_def lock_unless_def unlock_unless_def check_arity_def string_to_longlong_def
  lookup_key_def

subsection \<open>The events implement the specification\<close>

lemma create_refines:
  fixes st :: "('w, 'm) conc_state_scheme"
  assumes laws: "conc_laws api pf V" and rel: "conc_rel V N st db"
    and argc: "ev_argc e = int (length (ev_argv e))"
    and room: "v_room V (st_srv st) (conc_live st) (Suc m)"
  shows "conc_outcome V N m e st (spec_conc (v_parse V) Conc_Create_Event (ev_argv e) db)
    (llca_conc_create_event_execute api pf e st)"
proof -
  have rlaws: "redis_laws api V" using laws by (simp add: conc_laws_def)
  have room0: "v_room V (st_srv st) (conc_live st) m"
    using room by (rule server_room [OF rlaws]) simp_all
  note rules = server_neutral [OF rlaws] server_open [OF rlaws] server_key [OF rlaws] server_parse [OF rlaws]
  note defs = llca_conc_create_event_execute_def spec_conc_def conc_simps rules conc_outcome_def
  obtain F where inv: "conc_inv V st F" and db: "conc_db V st F = db" and cds: "cds_inv (st_cds st) F"
    and mt: "st_llca_conc st \<noteq> 0" and N: "N = length (smr_threads (c_smr (st_cds st)))"
    using rel by (rule conc_relE)
  show ?thesis
  proof (cases "length (ev_argv e) = 2")
    case False
    then show ?thesis using argc rel room0 by (simp add: defs)
  next
    case True
    from inv show ?thesis
    proof (cases rule: conc_entry_cases [where name = "ev_argv e ! 1"])
      case Absent
      let ?ctx = "ev_ctx e" and ?mode = "or REDISMODULE_READ REDISMODULE_WRITE"
      let ?w0 = "if ev_thread_safe e then st_srv st else snd (r_ThreadSafeContextLock api ?ctx (st_srv st))"
      let ?open = "r_OpenKey api ?ctx (ev_argv e ! 1) ?mode ?w0"
      let ?w = "snd (r_KeyType api (fst ?open) (snd ?open))"
      let ?al = "r_Alloc api (p_sizeof_llca_conc_obj pf) (conc_live st) ?w"
      have room1: "v_room V ?w (conc_live st) (Suc m)"
        using room by (simp add: rules)
      note a = server_alloc [OF rlaws room1, of "p_sizeof_llca_conc_obj pf"]
      have al: "aligned (fst ?al)"
        using laws room1 by (auto simp: conc_laws_def law_aligned_def)
      have new: "c_nodes (st_cds st) (fst ?al) = None"
        using a(2) by (auto simp: conc_live_def)
      have F: "F (fst ?al) = None"
      proof (cases "F (fst ?al)")
        case (Some xs)
        then have "fst ?al \<in> dom (c_nodes (st_cds st))" using cds_invD(8) [OF cds Some] by blast
        then show ?thesis using new by auto
      qed
      from ctor_spec [OF cds a(1) al new, of "p_random_seed pf (snd ?al)"] obtain s' where
        s': "set_ctor (fst ?al) (p_random_seed pf (snd ?al)) (st_cds st) = Some s'"
        "cds_inv s' (F(fst ?al \<mapsto> []))" "c_smr s' = c_smr (st_cds st)"
        "dom (c_nodes s') = insert (fst ?al) (dom (c_nodes (st_cds st)))" by blast
      have "conc_rel V N st' (db(ev_argv e ! 1 \<mapsto> DB_Set {}))"
        if "v_keys V (st_srv st') = (v_keys V (st_srv st))(ev_argv e ! 1 \<mapsto> K_Module (st_llca_conc st) (fst ?al))"
          "st_llca_conc st' = st_llca_conc st" "st_cds st' = s'" for st' :: "('w, 'm) conc_state_scheme"
        using conc_rel_add [OF inv Absent(1) F that(1,2)] s' that(3) db N by simp
      moreover have "v_room V (snd ?al) (conc_live st') m"
        if "st_ll st' = st_ll st" "st_cds st' = s'" for st' :: "('w, 'm) conc_state_scheme"
        using a(3) by (rule server_room [OF rlaws]) (use that s'(4) in \<open>auto simp: conc_live_def\<close>)
      ultimately show ?thesis
        using Absent True argc db a s'(1) by (cases "ev_thread_safe e") (simp_all add: defs conc_construct_def)
    next
      case (Other t)
      then show ?thesis
        using True argc rel db room0 server_types [OF rlaws Other(1)] by (simp add: defs)
    next
      case (Foreign mt a)
      then show ?thesis using True argc rel db room0 by (simp add: defs)
    next
      case (Set a xs)
      then show ?thesis using True argc rel db room0 by (simp add: defs)
    qed
  qed
qed

lemma delete_refines:
  fixes st :: "('w, 'm) conc_state_scheme"
  assumes laws: "conc_laws api pf V" and rel: "conc_rel V N st db"
    and argc: "ev_argc e = int (length (ev_argv e))"
    and room: "v_room V (st_srv st) (conc_live st) (Suc m)"
  shows "conc_outcome V N m e st (spec_conc (v_parse V) Conc_Delete_Event (ev_argv e) db)
    (llca_conc_delete_event_execute api e st)"
proof -
  have rlaws: "redis_laws api V" using laws by (simp add: conc_laws_def)
  have room0: "v_room V (st_srv st) (conc_live st) m"
    using room by (rule server_room [OF rlaws]) simp_all
  note rules = server_neutral [OF rlaws] server_open [OF rlaws] server_key [OF rlaws] server_parse [OF rlaws]
  note defs = llca_conc_delete_event_execute_def spec_conc_def conc_simps rules conc_outcome_def
  obtain F where inv: "conc_inv V st F" and db: "conc_db V st F = db" and cds: "cds_inv (st_cds st) F"
    and mt: "st_llca_conc st \<noteq> 0" and N: "N = length (smr_threads (c_smr (st_cds st)))"
    using rel by (rule conc_relE)
  show ?thesis
  proof (cases "length (ev_argv e) = 2")
    case False
    then show ?thesis using argc rel room0 by (simp add: defs)
  next
    case True
    from inv show ?thesis
    proof (cases rule: conc_entry_cases [where name = "ev_argv e ! 1"])
      case Absent
      then show ?thesis using True argc rel db room0 by (simp add: defs)
    next
      case (Other t)
      then show ?thesis
        using True argc rel db room0 mt server_types [OF rlaws Other(1)] by (simp add: defs)
    next
      case (Foreign mt a)
      then show ?thesis using True argc rel db room0 by (simp add: defs)
    next
      case (Set a xs)
      from dtor_spec [OF cds Set(2)] obtain s' where s': "set_dtor a (st_cds st) = Some s'"
        "cds_inv s' (F(a := None))" "c_smr s' = c_smr (st_cds st)" "dom (c_nodes s') = dom (c_nodes (st_cds st)) - blocks a xs"
        by (elim exE conjE)
      have "conc_rel V N st' (db(ev_argv e ! 1 := None))"
        if "v_keys V (st_srv st') = (v_keys V (st_srv st))(ev_argv e ! 1 := None)"
          "st_llca_conc st' = st_llca_conc st" "st_cds st' = s'" for st' :: "('w, 'm) conc_state_scheme"
        using conc_rel_delete [OF inv Set(1) that(1,2)] s' that(3) db N by simp
      moreover have "v_room V (st_srv st) (conc_live st') m"
        if "st_ll st' = st_ll st" "st_cds st' = s'" for st' :: "('w, 'm) conc_state_scheme"
        using room0 by (rule server_room [OF rlaws]) (use that s'(4) in \<open>auto simp: conc_live_def\<close>)
      ultimately show ?thesis
        using Set True argc db s'(1) by (cases "ev_thread_safe e") (simp_all add: defs conc_destruct_def)
    qed
  qed
qed

text \<open>The three events that take a value differ in the operation and its replies.\<close>

definition value_event :: "'w redis_api \<Rightarrow>
    (addr \<Rightarrow> int64 \<Rightarrow> ('w, 'm) conc_state_scheme \<Rightarrow> (string \<times> ('w, 'm) conc_state_scheme) option) \<Rightarrow> event \<Rightarrow>
    ('w, 'm) conc_state_scheme \<Rightarrow> ('w, 'm) conc_state_scheme option" where
  "value_event api f e st =
     (let ctx = ev_ctx e; (ok, st) = check_arity api ctx (ev_argc e) 3 st in
      if \<not> ok then Some st
      else do {
        arg2 \<leftarrow> at (ev_argv e) 2;
        let (val, st) = string_to_longlong api ctx arg2 st;
        case val of
          None \<Rightarrow> Some st
        | Some value \<Rightarrow> do {
            arg1 \<leftarrow> at (ev_argv e) 1;
            let (obj, st) = lookup_key api ctx arg1 (ev_thread_safe e) st;
            if obj = 0 then Some st
            else do {
              (r, st) \<leftarrow> f obj value st;
              Some (snd (RedisModule_ReplyWithSimpleString api ctx r st))
            }
          }
      })"

definition op_insert :: "'w platform \<Rightarrow> nat \<Rightarrow> addr \<Rightarrow> int64 \<Rightarrow>
    ('w, 'm) conc_state_scheme \<Rightarrow> (string \<times> ('w, 'm) conc_state_scheme) option" where
  "op_insert pf tid a v st =
     map_option (\<lambda>(r, st). (if r then ''OK'' else ''ERR: value exists'', st)) (conc_insert pf tid a v st)"

definition op_contains :: "nat \<Rightarrow> addr \<Rightarrow> int64 \<Rightarrow>
    ('w, 'm) conc_state_scheme \<Rightarrow> (string \<times> ('w, 'm) conc_state_scheme) option" where
  "op_contains tid a v st =
     map_option (\<lambda>(r, st). (if r then ''OK'' else ''ERR: value does not exist'', st)) (conc_contains tid a v st)"

definition op_remove :: "nat \<Rightarrow> addr \<Rightarrow> int64 \<Rightarrow>
    ('w, 'm) conc_state_scheme \<Rightarrow> (string \<times> ('w, 'm) conc_state_scheme) option" where
  "op_remove tid a v st =
     map_option (\<lambda>(r, st). (if r then ''OK'' else ''ERR: value does not exist'', st)) (conc_remove tid a v st)"

lemma map_option_bind: "Option.bind (map_option g x) f = Option.bind x (\<lambda>y. f (g y))"
  by (cases x) simp_all

lemma value_events:
  "llca_conc_insert_event_execute api pf tid = value_event api (op_insert pf tid)"
  "llca_conc_contains_event_execute api tid = value_event api (op_contains tid)"
  "llca_conc_remove_event_execute api tid = value_event api (op_remove tid)"
  unfolding llca_conc_insert_event_execute_def llca_conc_contains_event_execute_def
    llca_conc_remove_event_execute_def value_event_def op_insert_def op_contains_def op_remove_def
    map_option_bind split_beta fst_conv snd_conv fun_eq_iff
  by (intro allI refl)+

text \<open>The operation \<open>f\<close> on the object of a key does what \<open>g\<close> does to its set.\<close>

definition op_refines :: "'w redis_view \<Rightarrow> nat \<Rightarrow> nat \<Rightarrow>
    (addr \<Rightarrow> int64 \<Rightarrow> ('w, 'm) conc_state_scheme \<Rightarrow> (string \<times> ('w, 'm) conc_state_scheme) option) \<Rightarrow>
    (int64 \<Rightarrow> int64 set \<Rightarrow> string \<times> int64 set) \<Rightarrow> bool" where
  "op_refines V N m f g \<longleftrightarrow> (\<forall>st F name a xs v.
     conc_inv V st F \<longrightarrow> N = length (smr_threads (c_smr (st_cds st))) \<longrightarrow>
     v_keys V (st_srv st) name = Some (K_Module (st_llca_conc st) a) \<longrightarrow> F a = Some xs \<longrightarrow>
     v_room V (st_srv st) (conc_live st) (Suc m) \<longrightarrow>
     (\<exists>st'. f a v st = Some (fst (g v (keys xs)), st') \<and> st_srv st' = st_srv st \<and> st_trace st' = st_trace st \<and>
        conc_rel V N st' ((conc_db V st F)(name \<mapsto> DB_Set (snd (g v (keys xs))))) \<and>
        v_room V (st_srv st) (conc_live st') m))"

lemma conc_head_nonnull:
  assumes "cds_inv s F" and "F a = Some xs"
  shows "a \<noteq> 0"
  using cds_invD(4) [OF assms] by (simp add: list_ok_def head_ok_def)

lemma value_refines:
  fixes st :: "('w, 'm) conc_state_scheme"
  assumes laws: "conc_laws api pf V" and rel: "conc_rel V N st db"
    and argc: "ev_argc e = int (length (ev_argv e))"
    and room: "v_room V (st_srv st) (conc_live st) (Suc m)"
    and f: "op_refines V N m f g"
  shows "conc_outcome V N m e st (spec_value g (v_parse V) (ev_argv e) db) (value_event api f e st)"
proof -
  have rlaws: "redis_laws api V" using laws by (simp add: conc_laws_def)
  have room0: "v_room V (st_srv st) (conc_live st) m"
    using room by (rule server_room [OF rlaws]) simp_all
  note rules = server_neutral [OF rlaws] server_open [OF rlaws] server_key [OF rlaws] server_parse [OF rlaws]
  note defs = value_event_def spec_value_def conc_simps rules conc_outcome_def
  obtain F where inv: "conc_inv V st F" and db: "conc_db V st F = db" and cds: "cds_inv (st_cds st) F"
    and mt: "st_llca_conc st \<noteq> 0" and N: "N = length (smr_threads (c_smr (st_cds st)))"
    using rel by (rule conc_relE)
  show ?thesis
  proof (cases "length (ev_argv e) = 3")
    case False
    then show ?thesis using argc rel room0 by (simp add: defs)
  next
    case len: True
    show ?thesis
    proof (cases "v_parse V (ev_argv e ! 2)")
      case None
      then show ?thesis using len argc rel room0 by (simp add: defs)
    next
      case parse: (Some v)
      from inv show ?thesis
      proof (cases rule: conc_entry_cases [where name = "ev_argv e ! 1"])
        case Absent
        then show ?thesis using len parse argc rel db room0 by (simp add: defs)
      next
        case (Other t)
        then show ?thesis
          using len parse argc rel db room0 mt server_types [OF rlaws Other(1)] by (simp add: defs)
      next
        case (Foreign mt a)
        then show ?thesis using len parse argc rel db room0 by (simp add: defs)
      next
        case (Set a xs)
        let ?ctx = "ev_ctx e" and ?mode = "or REDISMODULE_READ REDISMODULE_WRITE"
        define st1 where "st1 = snd (lookup_key api ?ctx (ev_argv e ! 1) (ev_thread_safe e)
          (snd (string_to_longlong api ?ctx (ev_argv e ! 2) st)))"
        have look: "string_to_longlong api ?ctx (ev_argv e ! 2) st =
            (Some v, snd (string_to_longlong api ?ctx (ev_argv e ! 2) st))"
          "lookup_key api ?ctx (ev_argv e ! 1) (ev_thread_safe e)
            (snd (string_to_longlong api ?ctx (ev_argv e ! 2) st)) = (a, st1)"
          "v_keys V (st_srv st1) = v_keys V (st_srv st)" "st_llca_conc st1 = st_llca_conc st"
          "st_cds st1 = st_cds st" "st_ll st1 = st_ll st"
          "\<exists>tr. st_trace st1 = st_trace st @ tr \<and> replies tr = []"
          "v_room V (st_srv st1) (conc_live st) (Suc m)"
          using Set(1) parse room by (simp_all add: defs st1_def)
        have same: "conc_inv V st1 F" "conc_db V st1 F = db" "conc_live st1 = conc_live st"
          using inv db look(5,6) conc_same [OF look(3-5)] by (simp_all add: conc_live_def)
        have "N = length (smr_threads (c_smr (st_cds st1)))" using N look(5) by simp
        moreover have "v_keys V (st_srv st1) (ev_argv e ! 1) = Some (K_Module (st_llca_conc st1) a)"
          using Set(1) look(3,4) by simp
        ultimately obtain st2 where st2: "f a v st1 = Some (fst (g v (keys xs)), st2)"
          "st_srv st2 = st_srv st1" "st_trace st2 = st_trace st1"
          "conc_rel V N st2 (db(ev_argv e ! 1 \<mapsto> DB_Set (snd (g v (keys xs)))))"
          "v_room V (st_srv st1) (conc_live st2) m"
          using f [unfolded op_refines_def] same Set(2) look(8) by metis
        obtain tr where tr: "st_trace st1 = st_trace st @ tr" "replies tr = []" using look(7) by blast
        have "a \<noteq> 0" using conc_head_nonnull [OF cds Set(2)] .
        moreover obtain st0 where "string_to_longlong api ?ctx (ev_argv e ! 2) st = (Some v, st0)"
          "lookup_key api ?ctx (ev_argv e ! 1) (ev_thread_safe e) st0 = (a, st1)"
          using look(1,2) by blast
        ultimately have run: "value_event api f e st =
            Some (snd (RedisModule_ReplyWithSimpleString api ?ctx (fst (g v (keys xs))) st2))"
          using len argc st2(1) by (simp add: value_event_def check_arity_def Let_def split_beta)
        show ?thesis
          unfolding run spec_value_def using len parse Set(3) db tr st2
          by (simp add: conc_outcome_def host_simps split_beta conc_rel_calls server_neutral [OF rlaws])
      qed
    qed
  qed
qed

lemma op_refines_all:
  assumes laws: "conc_laws api pf V" and tid: "tid < N"
  shows "op_refines V N m (op_insert pf tid :: addr \<Rightarrow> int64 \<Rightarrow> ('w, 'm) conc_state_scheme \<Rightarrow> _)
      (\<lambda>v A. (if v \<in> A then ''ERR: value exists'' else ''OK'', insert v A))"
    and "op_refines V N m (op_contains tid :: addr \<Rightarrow> int64 \<Rightarrow> ('w, 'm) conc_state_scheme \<Rightarrow> _)
      (\<lambda>v A. (if v \<in> A then ''OK'' else ''ERR: value does not exist'', A))"
    and "op_refines V N m (op_remove tid :: addr \<Rightarrow> int64 \<Rightarrow> ('w, 'm) conc_state_scheme \<Rightarrow> _)
      (\<lambda>v A. (if v \<in> A then ''OK'' else ''ERR: value does not exist'', A - {v}))"
proof -
  have rlaws: "redis_laws api V" using laws by (simp add: conc_laws_def)
  {
    fix st :: "('w, 'm) conc_state_scheme" and F name a xs and v :: int64
    assume inv: "conc_inv V st F" and N: "N = length (smr_threads (c_smr (st_cds st)))"
      and key: "v_keys V (st_srv st) name = Some (K_Module (st_llca_conc st) a)" and F: "F a = Some xs"
      and room: "v_room V (st_srv st) (conc_live st) (Suc m)"
    have cds: "cds_inv (st_cds st) F" using inv by (simp add: conc_inv_def)
    have tok: "tid_ok tid (st_cds st)" using tid N by (simp add: tid_ok_def)
    have room0: "v_room V (st_srv st) (conc_live st) m"
      using room by (rule server_room [OF rlaws]) simp_all
    have rel: "conc_rel V N (st\<lparr>st_cds := s'\<rparr>) ((conc_db V st F)(name \<mapsto> DB_Set (keys ys)))"
      if "cds_inv s' (F(a \<mapsto> ys))" "same_threads (st_cds st) s'" for s' ys
      using conc_rel_update [OF inv key F, of "st\<lparr>st_cds := s'\<rparr>"] that N by simp
    let ?b = "p_new pf (conc_live st)"
    have b: "?b \<noteq> 0" "?b \<notin> conc_live st" "aligned ?b" "v_room V (st_srv st) (insert ?b (conc_live st)) m"
      using laws room by (auto simp: conc_laws_def law_new_def)
    have new: "c_nodes (st_cds st) ?b = None" using b(2) by (auto simp: conc_live_def)
    from insert_spec [OF cds F tok b(1,3) new, of v] obtain s' ys where
      s': "set_insert tid a ?b v (st_cds st) = Some (v \<notin> keys xs, s')" "cds_inv s' (F(a \<mapsto> ys))"
      "keys ys = insert v (keys xs)" "same_threads (st_cds st) s'"
      "dom (c_nodes s') \<subseteq> insert ?b (dom (c_nodes (st_cds st)))" by (elim exE conjE)
    have "v_room V (st_srv st) (conc_live (st\<lparr>st_cds := s'\<rparr>)) m"
      using b(4) by (rule server_room [OF rlaws]) (use s'(5) in \<open>auto simp: conc_live_def\<close>)
    then have 1: "\<exists>st'. op_insert pf tid a v st =
        Some (fst (if v \<in> keys xs then ''ERR: value exists'' else ''OK'', insert v (keys xs)), st') \<and>
        st_srv st' = st_srv st \<and> st_trace st' = st_trace st \<and>
        conc_rel V N st' ((conc_db V st F)(name \<mapsto> DB_Set
          (snd (if v \<in> keys xs then ''ERR: value exists'' else ''OK'', insert v (keys xs))))) \<and>
        v_room V (st_srv st) (conc_live st') m"
      using s'(1,3) rel [OF s'(2,4)]
      by (intro exI [of _ "st\<lparr>st_cds := s'\<rparr>"]) (simp add: op_insert_def conc_insert_def)
    from contains_spec [OF cds F tok, of v] obtain s2 where
      s2: "set_contains tid a v (st_cds st) = Some (v \<in> keys xs, s2)" "cds_inv s2 F"
      "same_threads (st_cds st) s2" "c_nodes s2 = c_nodes (st_cds st)" by (elim exE conjE)
    have FF: "F(a \<mapsto> xs) = F" using F by (rule fun_upd_idem)
    have "conc_live (st\<lparr>st_cds := s2\<rparr>) = conc_live st" using s2(4) by (simp add: conc_live_def)
    then have 2: "\<exists>st'. op_contains tid a v st =
        Some (fst (if v \<in> keys xs then ''OK'' else ''ERR: value does not exist'', keys xs), st') \<and>
        st_srv st' = st_srv st \<and> st_trace st' = st_trace st \<and>
        conc_rel V N st' ((conc_db V st F)(name \<mapsto> DB_Set
          (snd (if v \<in> keys xs then ''OK'' else ''ERR: value does not exist'', keys xs)))) \<and>
        v_room V (st_srv st) (conc_live st') m"
      using s2(1) rel [of s2 xs] s2(2,3) FF room0
      by (intro exI [of _ "st\<lparr>st_cds := s2\<rparr>"]) (simp add: op_contains_def conc_contains_def)
    from erase_spec [OF cds F tok, of v] obtain s3 zs where
      s3: "set_erase tid a v (st_cds st) = Some (v \<in> keys xs, s3)" "cds_inv s3 (F(a \<mapsto> zs))"
      "keys zs = keys xs - {v}" "same_threads (st_cds st) s3" "dom (c_nodes s3) \<subseteq> dom (c_nodes (st_cds st))"
      by (elim exE conjE)
    have "v_room V (st_srv st) (conc_live (st\<lparr>st_cds := s3\<rparr>)) m"
      using room0 by (rule server_room [OF rlaws]) (use s3(5) in \<open>auto simp: conc_live_def\<close>)
    then have 3: "\<exists>st'. op_remove tid a v st =
        Some (fst (if v \<in> keys xs then ''OK'' else ''ERR: value does not exist'', keys xs - {v}), st') \<and>
        st_srv st' = st_srv st \<and> st_trace st' = st_trace st \<and>
        conc_rel V N st' ((conc_db V st F)(name \<mapsto> DB_Set
          (snd (if v \<in> keys xs then ''OK'' else ''ERR: value does not exist'', keys xs - {v})))) \<and>
        v_room V (st_srv st) (conc_live st') m"
      using s3(1,3) rel [OF s3(2,4)]
      by (intro exI [of _ "st\<lparr>st_cds := s3\<rparr>"]) (simp add: op_remove_def conc_remove_def)
    note 1 2 3
  }
  note ops = this
  show "op_refines V N m (op_insert pf tid :: addr \<Rightarrow> int64 \<Rightarrow> ('w, 'm) conc_state_scheme \<Rightarrow> _)
      (\<lambda>v A. (if v \<in> A then ''ERR: value exists'' else ''OK'', insert v A))"
    unfolding op_refines_def by (intro allI impI) (rule ops(1))
  show "op_refines V N m (op_contains tid :: addr \<Rightarrow> int64 \<Rightarrow> ('w, 'm) conc_state_scheme \<Rightarrow> _)
      (\<lambda>v A. (if v \<in> A then ''OK'' else ''ERR: value does not exist'', A))"
    unfolding op_refines_def by (intro allI impI) (rule ops(2))
  show "op_refines V N m (op_remove tid :: addr \<Rightarrow> int64 \<Rightarrow> ('w, 'm) conc_state_scheme \<Rightarrow> _)
      (\<lambda>v A. (if v \<in> A then ''OK'' else ''ERR: value does not exist'', A - {v}))"
    unfolding op_refines_def by (intro allI impI) (rule ops(3))
qed

text \<open>The virtual call \<open>e->execute()\<close> on the thread \<open>tid\<close>.\<close>

definition conc_execute :: "'w redis_api \<Rightarrow> 'w platform \<Rightarrow> nat \<Rightarrow> conc_class \<Rightarrow> event \<Rightarrow>
    ('w, 'm) conc_state_scheme \<Rightarrow> ('w, 'm) conc_state_scheme option" where
  "conc_execute api pf tid c e st = (case c of
      Conc_Create_Event \<Rightarrow> llca_conc_create_event_execute api pf e st
    | Conc_Delete_Event \<Rightarrow> llca_conc_delete_event_execute api e st
    | Conc_Insert_Event \<Rightarrow> llca_conc_insert_event_execute api pf tid e st
    | Conc_Contains_Event \<Rightarrow> llca_conc_contains_event_execute api tid e st
    | Conc_Remove_Event \<Rightarrow> llca_conc_remove_event_execute api tid e st)"

lemma conc_execute_refines:
  assumes "conc_laws api pf V" and "conc_rel V N st db" and "ev_argc e = int (length (ev_argv e))"
    and "v_room V (st_srv st) (conc_live st) (Suc m)" and tid: "tid < N"
  shows "conc_outcome V N m e st (spec_conc (v_parse V) c (ev_argv e) db) (conc_execute api pf tid c e st)"
  using create_refines [OF assms(1-4)] delete_refines [OF assms(1-4)]
    value_refines [OF assms(1-4) op_refines_all(1) [OF assms(1) tid]]
    value_refines [OF assms(1-4) op_refines_all(2) [OF assms(1) tid]]
    value_refines [OF assms(1-4) op_refines_all(3) [OF assms(1) tid]]
  by (cases c) (simp_all add: conc_execute_def spec_conc_def value_events)

end
