(* ===== verification/Conc_Events.thy ===== *)
theory Conc_Events
  imports Conc_Spec Redis_Sim
begin

text \<open>
  The events of \<^verbatim>\<open>src/src/skip_list.cpp\<close> as a whole: sequences of them, on either thread, refine the
  database of sets; what each asks of the server, the module lock included; and the commands that
  \<open>LLCA_Conc_OnLoad\<close> registers.
\<close>

subsection \<open>Sequences of events\<close>

text \<open>One step runs an event on a thread and answers with the replies it sent.\<close>

definition conc_step :: "'w redis_api \<Rightarrow> 'w platform \<Rightarrow> nat \<times> conc_class \<times> event \<Rightarrow> ('w, 'm) conc_state_scheme \<Rightarrow>
    ((addr \<times> string) list \<times> ('w, 'm) conc_state_scheme) option" where
  "conc_step api pf = (\<lambda>(tid, c, e) st. do {
     st' \<leftarrow> conc_execute api pf tid c e st;
     Some (replies (calls_between st st'), st')
   })"

definition spec_conc_step :: "(string \<rightharpoonup> int64) \<Rightarrow> nat \<times> conc_class \<times> event \<Rightarrow> conc_db \<Rightarrow>
    (addr \<times> string) list \<times> conc_db" where
  "spec_conc_step parse = (\<lambda>(tid, c, e) db.
     ([(ev_ctx e, fst (spec_conc parse c (ev_argv e) db))], snd (spec_conc parse c (ev_argv e) db)))"

definition conc_refined :: "'w redis_api \<Rightarrow> 'w platform \<Rightarrow> 'w redis_view \<Rightarrow> nat \<Rightarrow> nat \<Rightarrow>
    ('w, 'm) conc_state_scheme \<Rightarrow> conc_db \<Rightarrow> bool" where
  "conc_refined api pf V N n st db \<longleftrightarrow> conc_laws api pf V \<and> conc_rel V N st db \<and>
     v_room V (st_srv st) (conc_live st) n"

text \<open>The server hands a command its arguments with their number; the thread is one of the attached.\<close>

definition conc_valid :: "nat \<Rightarrow> nat \<times> conc_class \<times> event \<Rightarrow> bool" where
  "conc_valid N = (\<lambda>(tid, c, e). tid < N \<and> ev_argc e = int (length (ev_argv e)))"

interpretation conc_events: step_refinement "conc_refined api pf V N" "conc_step api pf"
  "spec_conc_step (v_parse V)" "conc_valid N" for api :: "'w redis_api" and pf V N
proof
  fix x :: "nat \<times> conc_class \<times> event" and n and st :: "('w, 'm) conc_state_scheme" and db
  assume ok: "conc_valid N x" and rel: "conc_refined api pf V N (Suc n) st db"
  obtain tid c e where x: "x = (tid, c, e)" by (cases x)
  from rel have l: "conc_laws api pf V" "conc_rel V N st db" "v_room V (st_srv st) (conc_live st) (Suc n)"
    by (simp_all add: conc_refined_def)
  have "conc_outcome V N n e st (spec_conc (v_parse V) c (ev_argv e) db) (conc_execute api pf tid c e st)"
    using ok by (intro conc_execute_refines [OF l(1,2) _ l(3)]) (simp_all add: x conc_valid_def)
  then show "\<exists>st'. conc_step api pf x st = Some (fst (spec_conc_step (v_parse V) x db), st') \<and>
      conc_refined api pf V N n st' (snd (spec_conc_step (v_parse V) x db))"
    using l(1) by (auto simp: conc_outcome_def x conc_step_def spec_conc_step_def conc_refined_def calls_between_eq)
qed

subsection \<open>The calls of the events, on any server\<close>

text \<open>What a create or delete event has asked of the server between two states: one reply, and the lock held
  at every call on the keyspace, unless the server itself holds it for the thread.\<close>

definition owner_calls :: "event \<Rightarrow> ('w, 'm) host_state_scheme \<Rightarrow> ('w, 'm) host_state_scheme \<Rightarrow> bool" where
  "owner_calls e st st' \<longleftrightarrow> (\<exists>tr r. st_trace st' = st_trace st @ tr \<and> replies tr = [(ev_ctx e, r)] \<and>
     lock_balanced tr \<and> guarded keyspace_call (ev_thread_safe e) tr \<and> (ev_thread_safe e \<longrightarrow> \<not> list_ex lock_call tr))"

lemma cds_only_trace:
  "conc_construct pf a st = Some st' \<Longrightarrow> st_trace st' = st_trace st"
  "conc_destruct a st = Some st' \<Longrightarrow> st_trace st' = st_trace st"
  "conc_insert pf tid a v st = Some (r, st') \<Longrightarrow> st_trace st' = st_trace st"
  "conc_contains tid a v st = Some (r, st') \<Longrightarrow> st_trace st' = st_trace st"
  "conc_remove tid a v st = Some (r, st') \<Longrightarrow> st_trace st' = st_trace st"
  by (auto simp: conc_construct_def conc_destruct_def conc_insert_def conc_contains_def conc_remove_def)

lemma create_calls:
  "llca_conc_create_event_execute api pf e st = Some st' \<Longrightarrow> owner_calls e st st'"
  unfolding llca_conc_create_event_execute_def Let_def owner_calls_def lock_balanced_def
  by (cases "ev_thread_safe e")
     (auto split: if_splits dest!: cds_only_trace(1)
       simp: host_simps split_beta check_arity_def lock_unless_def unlock_unless_def)

lemma delete_calls:
  "llca_conc_delete_event_execute api e st = Some st' \<Longrightarrow> owner_calls e st st'"
  unfolding llca_conc_delete_event_execute_def Let_def owner_calls_def lock_balanced_def
  by (cases "ev_thread_safe e")
     (auto split: if_splits dest!: cds_only_trace(2)
       simp: host_simps split_beta check_arity_def lock_unless_def unlock_unless_def)

text \<open>The events that take a value open their key, and never take the lock.\<close>

lemma value_calls:
  assumes f: "\<And>a v st r st'. f a v st = Some (r, st') \<Longrightarrow> st_trace st' = st_trace st"
    and run: "value_event api f e st = Some st'"
  shows "\<exists>tr r. st_trace st' = st_trace st @ tr \<and> replies tr \<in> {[], [(ev_ctx e, r)]} \<and> \<not> list_ex lock_call tr \<and>
    (ev_argc e = 3 \<and> fst (fst (r_StringToLongLong api (ev_argv e ! 2) (st_srv st))) = REDISMODULE_OK \<longrightarrow>
      list_ex open_call tr)"
  using run unfolding value_event_def Let_def check_arity_def string_to_longlong_def lookup_key_def
  by (auto split: if_splits option.splits dest!: f simp: host_simps split_beta at_def)

lemma op_trace:
  "op_insert pf tid a v st = Some (r, st') \<Longrightarrow> st_trace st' = st_trace st"
  "op_contains tid a v st = Some (r, st') \<Longrightarrow> st_trace st' = st_trace st"
  "op_remove tid a v st = Some (r, st') \<Longrightarrow> st_trace st' = st_trace st"
  by (auto simp: op_insert_def op_contains_def op_remove_def dest: cds_only_trace)

lemma value_execute_calls:
  assumes "conc_execute api pf tid c e st = Some st'"
    and "c = Conc_Insert_Event \<or> c = Conc_Contains_Event \<or> c = Conc_Remove_Event"
  shows "\<exists>tr r. st_trace st' = st_trace st @ tr \<and> replies tr \<in> {[], [(ev_ctx e, r)]} \<and> \<not> list_ex lock_call tr \<and>
    (ev_argc e = 3 \<and> fst (fst (r_StringToLongLong api (ev_argv e ! 2) (st_srv st))) = REDISMODULE_OK \<longrightarrow>
      list_ex open_call tr)"
  using assms(2)
proof (elim disjE)
  assume "c = Conc_Insert_Event"
  with assms(1) have "value_event api (op_insert pf tid) e st = Some st'"
    by (simp add: conc_execute_def value_events)
  from value_calls [OF op_trace(1) this] show ?thesis .
next
  assume "c = Conc_Contains_Event"
  with assms(1) have "value_event api (op_contains tid) e st = Some st'"
    by (simp add: conc_execute_def value_events)
  from value_calls [OF op_trace(2) this] show ?thesis .
next
  assume "c = Conc_Remove_Event"
  with assms(1) have "value_event api (op_remove tid) e st = Some st'"
    by (simp add: conc_execute_def value_events)
  from value_calls [OF op_trace(3) this] show ?thesis .
qed

subsection \<open>Registering the commands\<close>

lemma register_commands_calls:
  "register_commands api ctx cs st = (r, st') \<Longrightarrow>
     \<exists>rs. length rs \<le> length cs \<and>
       st_trace st' = st_trace st @ map (\<lambda>((name, f), r). C_CreateCommand ctx name f ''write'' 1 1 1 r) (zip cs rs) \<and>
       (r = REDISMODULE_OK \<and> length rs = length cs \<and> (\<forall>r \<in> set rs. r \<noteq> REDISMODULE_ERR) \<or>
        r = REDISMODULE_ERR \<and> rs \<noteq> [] \<and> last rs = REDISMODULE_ERR \<and> (\<forall>r \<in> set (butlast rs). r \<noteq> REDISMODULE_ERR))"
proof (induction cs arbitrary: st)
  case Nil
  then show ?case by simp
next
  case (Cons c cs)
  obtain name f where c: "c = (name, f)" by (cases c)
  let ?r = "fst (r_CreateCommand api ctx name f ''write'' 1 1 1 (st_srv st))"
  let ?st = "snd (RedisModule_CreateCommand api ctx name f ''write'' 1 1 1 st)"
  have tr: "st_trace ?st = st_trace st @ [C_CreateCommand ctx name f ''write'' 1 1 1 ?r]"
    by (simp add: host_simps)
  show ?case
  proof (cases "?r = REDISMODULE_ERR")
    case True
    with Cons.prems c tr show ?thesis
      by (intro exI [of _ "[?r]"]) (auto simp: Let_def split_beta host_simps)
  next
    case False
    with Cons.prems c have "register_commands api ctx cs ?st = (r, st')"
      by (simp add: Let_def split_beta host_simps)
    from Cons.IH [OF this] obtain rs where "length rs \<le> length cs"
      "st_trace st' = st_trace ?st @ map (\<lambda>((name, f), r). C_CreateCommand ctx name f ''write'' 1 1 1 r) (zip cs rs)"
      "r = REDISMODULE_OK \<and> length rs = length cs \<and> (\<forall>r \<in> set rs. r \<noteq> REDISMODULE_ERR) \<or>
       r = REDISMODULE_ERR \<and> rs \<noteq> [] \<and> last rs = REDISMODULE_ERR \<and> (\<forall>r \<in> set (butlast rs). r \<noteq> REDISMODULE_ERR)"
      by blast
    with False tr c show ?thesis by (intro exI [of _ "?r # rs"]) auto
  qed
qed

subsection \<open>A concrete start\<close>

text \<open>The state after \<^verbatim>\<open>RedisModule_OnLoad\<close> on the concrete server: two attached threads and no set yet.\<close>

definition conc_platform :: "sim_world platform" where
  "conc_platform = \<lparr>p_new = sim_new, p_random_seed = (\<lambda>_. 12345), p_sizeof_llca_conc_obj = 304\<rparr>"

definition conc_start :: "sim_world conc_state" where
  "conc_start =
     \<lparr>st_srv = \<lparr>sw_keys = [''s'' \<mapsto> K_Other 1], sw_handles = Map.empty, sw_handle = 1, sw_brk = 4096, sw_rdb = (\<lambda>_. [])\<rparr>,
      st_trace = [], st_ll = \<lparr>ll_nodes = Map.empty, ll_objs = Map.empty\<rparr>, st_llca = 77,
      st_cds = \<lparr>c_nodes = Map.empty, c_sets = Map.empty,
        c_smr = snd (alloc_thread_data 2 (snd (alloc_thread_data 1 (HP 67))))\<rparr>,
      st_llca_conc = 78\<rparr>"

definition conc_event :: "bool \<Rightarrow> string list \<Rightarrow> event" where
  "conc_event ts argv = \<lparr>ev_ctx = (if ts then 5 else 7), ev_argv = argv, ev_argc = int (length argv),
     ev_client = 0, ev_thread_safe = ts\<rparr>"

lemma conc_sim_laws: "conc_laws sim_api conc_platform sim_view"
proof -
  have "aligned (fst (r_Alloc sim_api bytes live w))" if "v_room sim_view w live (Suc n)" for bytes live n w
    using that by (simp add: sim_api_def sim_view_def aligned_even)
  moreover have "law_new conc_platform sim_view"
    using sim_law_new by (auto simp: law_new_def conc_platform_def aligned_even)
  ultimately show ?thesis using sim_laws by (simp add: conc_laws_def law_aligned_def)
qed

lemma two_threads: "collector_ok (c_smr (st_cds conc_start))" "retired_set (c_smr (st_cds conc_start)) = {}"
  "length (smr_threads (c_smr (st_cds conc_start))) = 2"
proof -
  obtain i m where r: "alloc_thread_data 1 (HP 67) = (i, m)" by (cases "alloc_thread_data 1 (HP 67)")
  obtain j k where r2: "alloc_thread_data 2 m = (j, k)" by (cases "alloc_thread_data 2 m")
  have "length (smr_threads (HP 67)) < max_thread_count (HP 67)"
    by (simp add: HP_def smr_ctor_def Let_def c_nMaxThreadCount_def)
  note ok = alloc_thread_data_ok [OF collector_ok_HP this r]
  have m: "length (smr_threads m) = 1" "max_thread_count m = 100" "retired_set (HP 67) = {}" "length (smr_threads k) = 2"
    using r r2
    by (auto simp: alloc_thread_data_def HP_def smr_ctor_def Let_def retired_set_def c_nMaxThreadCount_def)
  note ok2 = alloc_thread_data_ok [OF conjunct1 [OF ok] _ r2]
  show "collector_ok (c_smr (st_cds conc_start))" "retired_set (c_smr (st_cds conc_start)) = {}"
    "length (smr_threads (c_smr (st_cds conc_start))) = 2"
    using ok ok2 m r r2 by (auto simp: conc_start_def)
qed

lemma conc_start_rel: "conc_rel sim_view 2 conc_start [''s'' \<mapsto> DB_Other]"
proof -
  have keys: "v_keys sim_view (st_srv conc_start) = [''s'' \<mapsto> K_Other 1]"
    by (auto simp: sim_view_def sim_keys_def conc_start_def sim_norm_def redis_constants)
  have "cds_inv (st_cds conc_start) Map.empty"
    using two_threads(1,2) by (simp add: cds_inv_def) (simp add: conc_start_def)
  then have "conc_inv sim_view conc_start Map.empty"
    unfolding conc_inv_def keys by (auto simp: conc_start_def holds_def split: if_splits)
  moreover have "conc_db sim_view conc_start Map.empty = [''s'' \<mapsto> DB_Other]"
    by (rule ext) (auto simp: conc_db_def keys)
  ultimately show ?thesis
    using two_threads(3) unfolding conc_rel_def by metis
qed

lemma conc_start_room: "n \<le> 60 \<Longrightarrow> v_room sim_view (st_srv conc_start) (conc_live conc_start) n"
  by (rule sim_room) (simp_all add: conc_start_def conc_live_def llca_live_def)

subsection \<open>Properties\<close>

text \<open>C1: On a lawful server and allocator with memory for one block per event, a sequence of skip-list
  events, each run on any attached thread, returns, sends for each event exactly the reply of the
  specification, and changes the database of sets as the specification does: create makes an empty set
  unless the key exists, delete removes a set but no key of another type, and insert, contains and remove
  act on the set of the key or report the arity, integer, missing-key or wrong-type error.\<close>

theorem conc_events_refine:
  assumes "conc_laws api pf V" and "conc_rel V N st db" and "\<forall>x \<in> set es. conc_valid N x"
    and "v_room V (st_srv st) (conc_live st) (length es)"
  shows "\<exists>st'. exec_seq (conc_step api pf) es st = Some (fst (spec_seq (spec_conc_step (v_parse V)) es db), st') \<and>
    conc_rel V N st' (snd (spec_seq (spec_conc_step (v_parse V)) es db))"
proof -
  have "conc_refined api pf V N (0 + length es) st db"
    using assms by (simp add: conc_refined_def)
  from conc_events.run [OF assms(3) this] show ?thesis
    by (auto simp: conc_refined_def)
qed

definition conc_demo_events :: "(nat \<times> conc_class \<times> event) list" where
  "conc_demo_events =
     [(1, Conc_Create_Event, conc_event False [''c'', ''k'']),
      (1, Conc_Insert_Event, conc_event False [''i'', ''k'', ''7'']),
      (0, Conc_Insert_Event, conc_event True [''i'', ''k'', ''7'']),
      (0, Conc_Insert_Event, conc_event True [''i'', ''k'', ''-2'']),
      (1, Conc_Remove_Event, conc_event False [''r'', ''k'', ''7'']),
      (0, Conc_Contains_Event, conc_event True [''t'', ''k'', ''-2'']),
      (1, Conc_Delete_Event, conc_event False [''d'', ''s''])]"

theorem conc_events_refine_witness:
  "\<exists>st'. exec_seq (conc_step sim_api conc_platform) conc_demo_events conc_start
      = Some ([[(7, ''OK'')], [(7, ''OK'')], [(5, ''ERR: value exists'')], [(5, ''OK'')], [(7, ''OK'')],
          [(5, ''OK'')], [(7, REDISMODULE_ERRORMSG_WRONGTYPE)]], st') \<and>
    conc_rel sim_view 2 st' [''s'' \<mapsto> DB_Other, ''k'' \<mapsto> DB_Set {- 2}]"
proof -
  have "spec_seq (spec_conc_step (v_parse sim_view)) conc_demo_events [''s'' \<mapsto> DB_Other]
      = ([[(7, ''OK'')], [(7, ''OK'')], [(5, ''ERR: value exists'')], [(5, ''OK'')], [(7, ''OK'')],
          [(5, ''OK'')], [(7, REDISMODULE_ERRORMSG_WRONGTYPE)]], [''s'' \<mapsto> DB_Other, ''k'' \<mapsto> DB_Set {- 2}])"
    by (simp add: conc_demo_events_def spec_conc_step_def spec_conc_def spec_value_def conc_event_def
        sim_view_def sim_parse_def sim_digit_def insert_Diff_if)
  moreover have "\<forall>x \<in> set conc_demo_events. conc_valid 2 x"
    by (simp add: conc_demo_events_def conc_valid_def conc_event_def)
  moreover have "v_room sim_view (st_srv conc_start) (conc_live conc_start) (length conc_demo_events)"
    by (rule conc_start_room) (simp add: conc_demo_events_def)
  ultimately show ?thesis
    using conc_events_refine [OF conc_sim_laws conc_start_rel, of conc_demo_events] by auto
qed

text \<open>C29: Whatever the server answers, a create or delete event that returns has replied exactly once, has
  taken and released the module lock in turn, and made every call on the keyspace with the lock held; run
  by the server's own thread it makes no lock call.\<close>

theorem conc_owner_calls:
  assumes "conc_execute api pf tid c e st = Some st'" and "c = Conc_Create_Event \<or> c = Conc_Delete_Event"
  shows "\<exists>tr r. st_trace st' = st_trace st @ tr \<and> replies tr = [(ev_ctx e, r)] \<and> lock_balanced tr \<and>
    guarded keyspace_call (ev_thread_safe e) tr \<and> (ev_thread_safe e \<longrightarrow> \<not> list_ex lock_call tr)"
  using assms create_calls [of api pf e st st'] delete_calls [of api e st st']
  by (auto simp: conc_execute_def owner_calls_def)

theorem conc_owner_calls_witness:
  "\<exists>st'. conc_execute sim_api conc_platform 1 Conc_Create_Event (conc_event False [''c'', ''k'']) conc_start = Some st' \<and>
    (\<exists>tr r. st_trace st' = st_trace conc_start @ tr \<and> replies tr = [(7, r)] \<and> lock_balanced tr \<and>
      guarded keyspace_call False tr)"
proof -
  have "conc_outcome sim_view 2 0 (conc_event False [''c'', ''k'']) conc_start
      (spec_conc (v_parse sim_view) Conc_Create_Event (ev_argv (conc_event False [''c'', ''k''])) [''s'' \<mapsto> DB_Other])
      (conc_execute sim_api conc_platform 1 Conc_Create_Event (conc_event False [''c'', ''k'']) conc_start)"
    by (rule conc_execute_refines [OF conc_sim_laws conc_start_rel _ conc_start_room]) (simp_all add: conc_event_def)
  then obtain st' where "conc_execute sim_api conc_platform 1 Conc_Create_Event (conc_event False [''c'', ''k''])
      conc_start = Some st'"
    by (auto simp: conc_outcome_def)
  from conc_owner_calls [OF this] this show ?thesis by (auto simp: conc_event_def)
qed

text \<open>C30: An insert, contains or remove event never takes the module lock, also when a worker runs it: with
  the right number of arguments and an integer that parses it opens its key, and that call is made
  without the lock. It replies at most once.\<close>

theorem conc_lookup_unlocked:
  assumes "conc_execute api pf tid c e st = Some st'"
    and "c = Conc_Insert_Event \<or> c = Conc_Contains_Event \<or> c = Conc_Remove_Event"
  shows "\<exists>tr r. st_trace st' = st_trace st @ tr \<and> replies tr \<in> {[], [(ev_ctx e, r)]} \<and> \<not> list_ex lock_call tr \<and>
    (ev_argc e = 3 \<and> fst (fst (r_StringToLongLong api (ev_argv e ! 2) (st_srv st))) = REDISMODULE_OK \<longrightarrow>
      \<not> guarded open_call False tr)"
proof -
  have unlocked: "\<not> guarded open_call False tr" if "\<not> list_ex lock_call tr" "list_ex open_call tr" for tr
    using that by (induction open_call False tr rule: guarded.induct) auto
  from value_execute_calls [OF assms] show ?thesis using unlocked by blast
qed

theorem conc_lookup_unlocked_witness:
  "\<exists>st'. conc_execute sim_api conc_platform 1 Conc_Insert_Event (conc_event False [''i'', ''k'', ''7'']) conc_start = Some st' \<and>
    (\<exists>tr. st_trace st' = st_trace conc_start @ tr \<and> \<not> list_ex lock_call tr \<and> \<not> guarded open_call False tr)"
proof -
  let ?e = "conc_event False [''i'', ''k'', ''7'']"
  have "conc_outcome sim_view 2 0 ?e conc_start (spec_conc (v_parse sim_view) Conc_Insert_Event (ev_argv ?e) [''s'' \<mapsto> DB_Other])
      (conc_execute sim_api conc_platform 1 Conc_Insert_Event ?e conc_start)"
    by (rule conc_execute_refines [OF conc_sim_laws conc_start_rel _ conc_start_room]) (simp_all add: conc_event_def)
  then obtain st' where run: "conc_execute sim_api conc_platform 1 Conc_Insert_Event ?e conc_start = Some st'"
    by (auto simp: conc_outcome_def)
  have "fst (fst (r_StringToLongLong sim_api (ev_argv ?e ! 2) (st_srv conc_start))) = REDISMODULE_OK" "ev_argc ?e = 3"
    by (simp_all add: sim_api_def conc_event_def sim_parse_def sim_digit_def)
  with conc_lookup_unlocked [OF run] run show ?thesis by blast
qed

text \<open>\<open>LLCA_Conc_OnLoad\<close> answers OK exactly if the data type was created and all ten commands were
  registered, and then it has registered them in order, five to run on the workers and five on the server's
  thread; at the first failure it stops and answers with an error.\<close>

theorem conc_onload:
  assumes "LLCA_Conc_OnLoad api ctx st = (r, st')"
  shows "\<exists>mt rs. st_llca_conc st' = mt \<and> length rs \<le> 10 \<and>
    st_trace st' = st_trace st @ C_CreateDataType ctx ''llca_conc'' 0 llca_conc_type_methods mt #
      map (\<lambda>((name, f), r). C_CreateCommand ctx name f ''write'' 1 1 1 r) (zip conc_commands rs) \<and>
    (r = REDISMODULE_OK \<and> mt \<noteq> 0 \<and> length rs = 10 \<and> (\<forall>r \<in> set rs. r \<noteq> REDISMODULE_ERR) \<or>
     r = REDISMODULE_ERR \<and> (mt = 0 \<and> rs = [] \<or> mt \<noteq> 0 \<and> rs \<noteq> [] \<and> last rs = REDISMODULE_ERR))"
proof -
  let ?mt = "fst (r_CreateDataType api ctx ''llca_conc'' 0 llca_conc_type_methods (st_srv st))"
  let ?st = "(snd (RedisModule_CreateDataType api ctx ''llca_conc'' 0 llca_conc_type_methods st))\<lparr>st_llca_conc := ?mt\<rparr>"
  have keep: "st_llca_conc (snd (register_commands api ctx cs s)) = st_llca_conc s" for cs
    and s :: "('a, 'b) conc_state_scheme"
    by (induction cs arbitrary: s) (auto simp: Let_def split_beta host_simps)
  have tr: "st_trace ?st = st_trace st @ [C_CreateDataType ctx ''llca_conc'' 0 llca_conc_type_methods ?mt]"
    by (simp add: host_simps)
  show ?thesis
  proof (cases "?mt = 0")
    case True
    with assms tr show ?thesis
      by (intro exI [of _ ?mt] exI [of _ "[]"]) (auto simp: LLCA_Conc_OnLoad_def Let_def split_beta host_simps)
  next
    case False
    with assms have reg: "register_commands api ctx conc_commands ?st = (r, st')"
      by (simp add: LLCA_Conc_OnLoad_def Let_def split_beta host_simps)
    moreover have "st_llca_conc st' = ?mt" using keep [of conc_commands ?st] reg by simp
    moreover have "length conc_commands = 10" by (simp add: conc_commands_def)
    ultimately show ?thesis
      using register_commands_calls [OF reg] tr False by (intro exI [of _ ?mt]) auto
  qed
qed

theorem conc_onload_witness:
  "\<exists>rs. st_llca_conc (snd (LLCA_Conc_OnLoad sim_api 3 conc_start)) = 78 \<and> length rs = 10 \<and>
    st_trace (snd (LLCA_Conc_OnLoad sim_api 3 conc_start)) = st_trace conc_start @
      C_CreateDataType 3 ''llca_conc'' 0 llca_conc_type_methods 78 #
      map (\<lambda>((name, f), r). C_CreateCommand 3 name f ''write'' 1 1 1 r) (zip conc_commands rs)"
proof -
  have run: "fst (LLCA_Conc_OnLoad sim_api 3 conc_start) = REDISMODULE_OK"
    "st_llca_conc (snd (LLCA_Conc_OnLoad sim_api 3 conc_start)) = 78"
    by (simp_all add: LLCA_Conc_OnLoad_def host_simps sim_api_def Let_def split_beta conc_commands_def)
  then have "LLCA_Conc_OnLoad sim_api 3 conc_start = (REDISMODULE_OK, snd (LLCA_Conc_OnLoad sim_api 3 conc_start))"
    by (metis prod.collapse)
  from conc_onload [OF this] run(2) show ?thesis by auto
qed

end
