(* ===== verification/Redpar.thy ===== *)
theory Redpar
  imports Llca_Events Conc_Events
begin

text \<open>
  The module as a whole: \<^verbatim>\<open>src/src/redpar.cpp\<close> with the parts of libcds that start it
  (\<^verbatim>\<open>cds/init.h\<close>, \<^verbatim>\<open>src/init.cpp\<close>, \<^verbatim>\<open>src/thread_data.cpp\<close>, \<^verbatim>\<open>cds/threading/details/pthread_manager.h\<close> and the
  construction and attaching of \<^verbatim>\<open>src/hp.cpp\<close>), and the system of the server's thread, which runs the
  command functions, and the worker, which takes events off the queue.

  The state adds the queue, the function pointers of the API and the state of libcds per process: how
  often \<open>Initialize\<close> was called, whether the hazard-pointer singleton exists (\<open>rp_hp_used\<close>; the singleton is
  \<open>c_smr\<close>), and per thread the attach counter and the record that its \<open>tls_\<close> points to. Threads
  are named by their non-zero OS identifiers. The collectors \<^verbatim>\<open>DHP\<close> and \<^verbatim>\<open>RCU\<close> are never constructed, so their
  branches of \<open>ThreadData::init\<close> are not taken.
\<close>

subsection \<open>State\<close>

datatype event_class = Llca llca_class | Conc conc_class

record 'w redpar_state = "'w conc_state" +
  rp_queue :: "event_class event_queue"
  rp_fp :: "string \<Rightarrow> addr"
  rp_nInitCallCount :: size64
  rp_hp_used :: bool
  rp_nAttachCount :: "nat \<Rightarrow> size64"
  rp_tls :: "nat \<Rightarrow> nat option"
  rp_thread_pool :: "nat list"

subsection \<open>Starting libcds\<close>

definition init_first_call :: "('w, 'm) redpar_state_scheme \<Rightarrow> bool \<times> ('w, 'm) redpar_state_scheme" where
  "init_first_call st = (rp_nInitCallCount st = 0, st\<lparr>rp_nInitCallCount := rp_nInitCallCount st + 1\<rparr>)"

text \<open>The topology and the manager that the first call initialises keep no state that the skip list reads.\<close>

definition cds_Initialize :: "('w, 'm) redpar_state_scheme \<Rightarrow> ('w, 'm) redpar_state_scheme" where
  "cds_Initialize st = snd (init_first_call st)"

definition smr_construct :: "nat \<Rightarrow> nat \<Rightarrow> nat \<Rightarrow> scan_type \<Rightarrow> ('w, 'm) redpar_state_scheme \<Rightarrow>
    ('w, 'm) redpar_state_scheme" where
  "smr_construct nHazardPtrCount nMaxThreadCount nMaxRetiredPtrCount nScanType st =
     (if \<not> rp_hp_used st
      then st\<lparr>st_cds := (st_cds st)\<lparr>c_smr := smr_ctor nHazardPtrCount nMaxThreadCount nMaxRetiredPtrCount nScanType\<rparr>,
              rp_hp_used := True\<rparr>
      else st)"

definition smr_attach_thread :: "nat \<Rightarrow> ('w, 'm) redpar_state_scheme \<Rightarrow> ('w, 'm) redpar_state_scheme" where
  "smr_attach_thread t st =
     (case rp_tls st t of
        None \<Rightarrow>
          let (i, m) = alloc_thread_data t (c_smr (st_cds st))
          in st\<lparr>st_cds := (st_cds st)\<lparr>c_smr := m\<rparr>, rp_tls := (rp_tls st)(t \<mapsto> i)\<rparr>
      | Some _ \<Rightarrow> st)"

definition ThreadData_init :: "nat \<Rightarrow> ('w, 'm) redpar_state_scheme \<Rightarrow> ('w, 'm) redpar_state_scheme" where
  "ThreadData_init t st =
     (let n = rp_nAttachCount st t;
          st = st\<lparr>rp_nAttachCount := (rp_nAttachCount st)(t := n + 1)\<rparr>
      in if n = 0 \<and> rp_hp_used st then smr_attach_thread t st else st)"

definition attachThread :: "nat \<Rightarrow> ('w, 'm) redpar_state_scheme \<Rightarrow> ('w, 'm) redpar_state_scheme" where
  "attachThread t st = ThreadData_init t st"

subsection \<open>Loading the module\<close>

definition CA_THREAD_COUNT :: nat where "CA_THREAD_COUNT = 1"

text \<open>\<open>t\<close> is the thread that loads the module, \<open>ids\<close> the identifiers of the threads it starts.\<close>

definition RedisModule_OnLoad :: "'w redis_api \<Rightarrow> (string \<rightharpoonup> addr) \<Rightarrow> addr \<Rightarrow> nat \<Rightarrow> nat list \<Rightarrow>
    ('w, 'm) redpar_state_scheme \<Rightarrow> (int \<times> ('w, 'm) redpar_state_scheme) option" where
  "RedisModule_OnLoad api getapi ctx t ids st = do {
     (r, fp, st) \<leftarrow> Export_RedisModule_Init api getapi ctx ''CA_multithread'' 1 REDISMODULE_APIVER_1 (rp_fp st) st;
     let st = st\<lparr>rp_fp := fp\<rparr>;
     if r = REDISMODULE_ERR then Some (REDISMODULE_ERR, st)
     else
       let (r, st) = LLCA_OnLoad api ctx st in
       if r \<noteq> REDISMODULE_OK then Some (REDISMODULE_ERR, st)
       else
         let (r, st) = LLCA_Conc_OnLoad api ctx st in
         if r \<noteq> REDISMODULE_OK then Some (REDISMODULE_ERR, st)
         else
           let st = cds_Initialize st;
               st = smr_construct 67 0 0 inplace st;
               st = attachThread t st
           in Some (REDISMODULE_OK, st\<lparr>rp_thread_pool := rp_thread_pool st @ take CA_THREAD_COUNT ids\<rparr>)
   }"

subsection \<open>The worker\<close>

definition execute :: "'w redis_api \<Rightarrow> 'w platform \<Rightarrow> nat \<Rightarrow> event_class \<Rightarrow> event \<Rightarrow>
    ('w, 'm) conc_state_scheme \<Rightarrow> ('w, 'm) conc_state_scheme option" where
  "execute api pf tid E e st = (case E of
      Llca c \<Rightarrow> llca_execute api c e st
    | Conc c \<Rightarrow> conc_execute api pf tid c e st)"

text \<open>One turn of the loop of \<open>work\<close> in the thread \<open>t\<close>: the event that was taken is executed and then
  destroyed with the last pointer to it.\<close>

definition work_turn :: "'w redis_api \<Rightarrow> 'w platform \<Rightarrow> nat \<Rightarrow> ('w, 'm) redpar_state_scheme \<Rightarrow>
    ('w, 'm) redpar_state_scheme option" where
  "work_turn api pf t st =
     (let (e, q) = dequeue (rp_queue st); st = st\<lparr>rp_queue := q\<rparr> in
      case e of
        None \<Rightarrow> Some st
      | Some (E, e) \<Rightarrow> do {
          tid \<leftarrow> rp_tls st t;
          st \<leftarrow> execute api pf tid E e st;
          Some (event_dtor api e st)
        })"

text \<open>The first \<open>n\<close> turns; \<open>work\<close> attaches its thread and then never stops.\<close>

fun work_loop :: "'w redis_api \<Rightarrow> 'w platform \<Rightarrow> nat \<Rightarrow> nat \<Rightarrow> ('w, 'm) redpar_state_scheme \<Rightarrow>
    ('w, 'm) redpar_state_scheme option" where
  "work_loop api pf t 0 st = Some st"
| "work_loop api pf t (Suc n) st = do { st \<leftarrow> work_turn api pf t st; work_loop api pf t n st }"

definition work :: "'w redis_api \<Rightarrow> 'w platform \<Rightarrow> nat \<Rightarrow> nat \<Rightarrow> ('w, 'm) redpar_state_scheme \<Rightarrow>
    ('w, 'm) redpar_state_scheme option" where
  "work api pf t n st = work_loop api pf t n (attachThread t st)"

subsection \<open>The system\<close>

text \<open>A step of the server's thread \<open>t\<close>, which runs a command function, or of a worker. The server hands
  a command its arguments with their number.\<close>

inductive redpar_step :: "'w redis_api \<Rightarrow> 'w platform \<Rightarrow> nat \<Rightarrow> ('w, 'm) redpar_state_scheme \<Rightarrow>
    ('w, 'm) redpar_state_scheme \<Rightarrow> bool" for api pf t where
  Conc_Command: "conc_handler api E ctx argv (int (length argv)) (rp_queue st) st = (r, q, st') \<Longrightarrow>
     redpar_step api pf t st (st'\<lparr>rp_queue := q\<rparr>)"
| Seq_Command: "rp_tls st t = Some tid \<Longrightarrow>
     seq_handler api (execute api pf tid E) ctx argv (int (length argv)) st = Some (r, st') \<Longrightarrow>
     redpar_step api pf t st st'"
| Worker: "w \<in> set (rp_thread_pool st) \<Longrightarrow> work_turn api pf w st = Some st' \<Longrightarrow> redpar_step api pf t st st'"

inductive reachable :: "'w redis_api \<Rightarrow> 'w platform \<Rightarrow> nat \<Rightarrow> ('w, 'm) redpar_state_scheme \<Rightarrow>
    ('w, 'm) redpar_state_scheme \<Rightarrow> bool" for api pf t st0 where
  Start: "reachable api pf t st0 st0"
| Step: "reachable api pf t st0 st \<Longrightarrow> redpar_step api pf t st st' \<Longrightarrow> reachable api pf t st0 st'"

subsection \<open>What executing an event leaves alone\<close>

text \<open>The clients blocked and unblocked by calls, and the contexts taken and freed.\<close>

fun blocked_of :: "call \<Rightarrow> addr option" where
  "blocked_of (C_BlockClient _ _ bc) = Some bc"
| "blocked_of _ = None"

fun unblocked_of :: "call \<Rightarrow> addr option" where
  "unblocked_of (C_UnblockClient bc _ _) = Some bc"
| "unblocked_of _ = None"

definition blocked :: "call list \<Rightarrow> addr list" where "blocked = List.map_filter blocked_of"
definition unblocked :: "call list \<Rightarrow> addr list" where "unblocked = List.map_filter unblocked_of"

lemma clients_simps [simp]:
  "blocked [] = []" "blocked (tr @ tr') = blocked tr @ blocked tr'"
  "blocked (c # tr) = (case blocked_of c of None \<Rightarrow> blocked tr | Some bc \<Rightarrow> bc # blocked tr)"
  "unblocked [] = []" "unblocked (tr @ tr') = unblocked tr @ unblocked tr'"
  "unblocked (c # tr) = (case unblocked_of c of None \<Rightarrow> unblocked tr | Some bc \<Rightarrow> bc # unblocked tr)"
  by (simp_all add: blocked_def unblocked_def List.map_filter_def split: option.splits)

definition client_frame :: "('w, 'm) redpar_state_scheme \<Rightarrow> ('w, 'm) redpar_state_scheme \<Rightarrow> bool" where
  "client_frame st st' \<longleftrightarrow> conc_state.more st' = conc_state.more st \<and>
     blocked (st_trace st') = blocked (st_trace st) \<and> unblocked (st_trace st') = unblocked (st_trace st)"

lemma cds_effects:
  "conc_construct pf a st = Some st' \<Longrightarrow> \<exists>s. st' = st\<lparr>st_cds := s\<rparr>"
  "conc_destruct a st = Some st' \<Longrightarrow> \<exists>s. st' = st\<lparr>st_cds := s\<rparr>"
  "op_insert pf tid a v st = Some (r, st') \<Longrightarrow> \<exists>s. st' = st\<lparr>st_cds := s\<rparr>"
  "op_contains tid a v st = Some (r, st') \<Longrightarrow> \<exists>s. st' = st\<lparr>st_cds := s\<rparr>"
  "op_remove tid a v st = Some (r, st') \<Longrightarrow> \<exists>s. st' = st\<lparr>st_cds := s\<rparr>"
  by (auto simp: conc_construct_def conc_destruct_def op_insert_def op_contains_def op_remove_def
      conc_insert_def conc_contains_def conc_remove_def)

lemma frame_create:
  fixes st :: "('w, 'm) redpar_state_scheme"
  shows "llca_conc_create_event_execute api pf e st = Some st' \<Longrightarrow> client_frame st st'"
  unfolding llca_conc_create_event_execute_def Let_def client_frame_def
  by (auto split: if_splits dest!: cds_effects(1)
       simp: host_simps split_beta check_arity_def lock_unless_def unlock_unless_def)

lemma frame_delete:
  fixes st :: "('w, 'm) redpar_state_scheme"
  shows "llca_conc_delete_event_execute api e st = Some st' \<Longrightarrow> client_frame st st'"
  unfolding llca_conc_delete_event_execute_def Let_def client_frame_def
  by (auto split: if_splits dest!: cds_effects(2)
       simp: host_simps split_beta check_arity_def lock_unless_def unlock_unless_def)

lemma frame_value:
  fixes st :: "('w, 'm) redpar_state_scheme"
  assumes f: "\<And>a v st r st'. f a v (st :: ('w, 'm) redpar_state_scheme) = Some (r, st') \<Longrightarrow> \<exists>s. st' = st\<lparr>st_cds := s\<rparr>"
    and run: "value_event api f e st = Some st'"
  shows "client_frame st st'"
  using run unfolding value_event_def Let_def check_arity_def string_to_longlong_def lookup_key_def client_frame_def
  by (auto split: if_splits option.splits dest!: f simp: host_simps split_beta at_def)

lemma frame_llca:
  fixes st :: "('w, 'm) redpar_state_scheme"
  shows "llca_insert_RedisCommand api ctx argv argc st = Some (r, st') \<Longrightarrow> client_frame st st'"
    and "llca_contains_RedisCommand api ctx argv argc st = Some (r, st') \<Longrightarrow> client_frame st st'"
    and "llca_remove_RedisCommand api ctx argv argc st = Some (r, st') \<Longrightarrow> client_frame st st'"
  unfolding llca_contains_RedisCommand_def llca_insert_RedisCommand_def llca_remove_RedisCommand_def Let_def client_frame_def
  by (auto split: if_splits simp: at_def host_simps split_beta)

lemma execute_frame:
  fixes st :: "('w, 'm) redpar_state_scheme"
  assumes "execute api pf tid E e st = Some st'"
  shows "client_frame st st'"
proof (cases E)
  case (Llca c)
  with assms obtain r st1 where "llca_command api c (ev_ctx e) (ev_argv e) (ev_argc e) st = Some (r, st1)"
    "st' = snd (RedisModule_ReplyWithString api (ev_ctx e) r st1)"
    by (auto simp: execute_def llca_execute_command)
  moreover from this(1) have "client_frame st st1"
    by (cases c) (simp_all add: llca_command_def frame_llca)
  ultimately show ?thesis by (simp add: client_frame_def host_simps)
next
  case (Conc c)
  note v = frame_value [where f = "op_insert pf tid", OF cds_effects(3)]
    frame_value [where f = "op_contains tid", OF cds_effects(4)]
    frame_value [where f = "op_remove tid", OF cds_effects(5)]
  from assms Conc show ?thesis
    by (cases c) (simp_all add: execute_def conc_execute_def frame_create frame_delete value_events v)
qed

subsection \<open>Every blocked client is served once, in order\<close>

definition queue_inv :: "('w, 'm) redpar_state_scheme \<Rightarrow> bool" where
  "queue_inv st \<longleftrightarrow> (\<forall>(E, e) \<in> set (eq_events (rp_queue st)). \<not> ev_thread_safe e) \<and>
     blocked (st_trace st) = unblocked (st_trace st) @ map (ev_client \<circ> snd) (eq_events (rp_queue st))"

lemma frame_queue:
  assumes "client_frame st st'"
  shows "rp_queue st' = rp_queue st" "rp_tls st' = rp_tls st" "rp_thread_pool st' = rp_thread_pool st"
    "queue_inv st' = queue_inv st"
proof -
  have m: "conc_state.more st' = conc_state.more st" using assms by (simp add: client_frame_def)
  show q: "rp_queue st' = rp_queue st" using m by (cases st; cases st') simp
  show "rp_tls st' = rp_tls st" using m by (cases st; cases st') simp
  show "rp_thread_pool st' = rp_thread_pool st" using m by (cases st; cases st') simp
  show "queue_inv st' = queue_inv st" using assms q by (simp add: queue_inv_def client_frame_def)
qed

lemma work_turn_inv:
  fixes st :: "('w, 'm) redpar_state_scheme"
  assumes inv: "queue_inv st" and run: "work_turn api pf t st = Some st'"
  shows "queue_inv st'"
proof (cases rule: dequeue_cases [of "rp_queue st"])
  case Empty
  with run inv show ?thesis by (auto simp: work_turn_def)
next
  case (Event x xs q')
  obtain E e where x: "x = (E, e)" by (cases x)
  let ?st = "st\<lparr>rp_queue := q'\<rparr>"
  from run Event x obtain tid st1 where st1: "execute api pf tid E e ?st = Some st1" "st' = event_dtor api e st1"
    by (auto simp: work_turn_def)
  have "\<not> ev_thread_safe e" using inv Event(1) x by (simp add: queue_inv_def)
  moreover have "conc_state.more st1 = conc_state.more ?st" "blocked (st_trace st1) = blocked (st_trace st)"
    "unblocked (st_trace st1) = unblocked (st_trace st)"
    using execute_frame [OF st1(1)] by (simp_all add: client_frame_def)
  moreover have "rp_queue st1 = q'" using frame_queue(1) [OF execute_frame [OF st1(1)]] by simp
  ultimately show ?thesis
    using inv Event(1,3) x by (simp add: st1(2) event_dtor_def host_simps queue_inv_def)
qed

lemma redpar_step_inv:
  fixes st :: "('w, 'm) redpar_state_scheme"
  assumes "redpar_step api pf t st st'" and inv: "queue_inv st"
  shows "queue_inv st'"
  using assms(1)
proof (cases rule: redpar_step.cases)
  case (Conc_Command E ctx argv r q st1)
  then show ?thesis
    using inv by (auto simp: conc_handler_def event_ctor_def enqueue_def host_simps queue_inv_def split_beta Let_def)
next
  case (Seq_Command tid E ctx argv r)
  then obtain st1 where "execute api pf tid E \<lparr>ev_ctx = ctx, ev_argv = argv, ev_argc = int (length argv),
      ev_client = 0, ev_thread_safe = True\<rparr> st = Some st1" "st' = st1"
    by (auto simp: seq_handler_def event_ctor_def event_dtor_def)
  then show ?thesis using frame_queue(4) [OF execute_frame] inv by blast
next
  case (Worker w)
  then show ?thesis using work_turn_inv inv by blast
qed

lemma reachable_inv:
  fixes st0 :: "('w, 'm) redpar_state_scheme"
  assumes "reachable api pf t st0 st" and "queue_inv st0"
  shows "queue_inv st"
  using assms by (induction rule: reachable.induct) (auto intro: redpar_step_inv)

subsection \<open>The laws of the remaining calls\<close>

text \<open>Calls about clients, contexts, types and commands do not change what the keyspace holds.\<close>

definition law_clients :: "'w redis_api \<Rightarrow> 'w redis_view \<Rightarrow> bool" where
  "law_clients api V \<longleftrightarrow> (\<forall>ctx bc t p w.
     same_view V w (snd (r_BlockClient api ctx t w)) \<and> same_view V w (snd (r_UnblockClient api bc p w)) \<and>
     same_view V w (snd (r_GetThreadSafeContext api bc w)) \<and> same_view V w (snd (r_FreeThreadSafeContext api ctx w)))"

definition law_load :: "'w redis_api \<Rightarrow> 'w redis_view \<Rightarrow> bool" where
  "law_load api V \<longleftrightarrow> (\<forall>ctx name n tm f s a b c w.
     v_keys V (snd (r_CreateDataType api ctx name n tm w)) = v_keys V w \<and>
     v_keys V (snd (r_CreateCommand api ctx name f s a b c w)) = v_keys V w \<and>
     v_keys V (snd (r_SetModuleAttribs api ctx name a b w)) = v_keys V w)"

lemma sim_law_clients: "law_clients sim_api sim_view" "law_load sim_api sim_view"
  by (simp_all add: law_clients_def law_load_def same_view_def sim_api_def)

subsection \<open>The worker serves the queue\<close>

lemma event_dtor_rel:
  fixes st :: "('w, 'm) redpar_state_scheme"
  assumes "law_clients api V"
  shows "conc_rel V N (event_dtor api e st) db = conc_rel V N st db"
    and "v_room V (st_srv st) (conc_live st) m \<Longrightarrow>
      v_room V (st_srv (event_dtor api e st)) (conc_live (event_dtor api e st)) m"
    and "rp_queue (event_dtor api e st) = rp_queue st" "rp_tls (event_dtor api e st) = rp_tls st"
    and "\<not> ev_thread_safe e \<Longrightarrow> \<exists>tr. st_trace (event_dtor api e st) = st_trace st @ tr \<and> replies tr = [] \<and>
      unblocked tr = [ev_client e]"
proof -
  let ?w1 = "snd (r_FreeThreadSafeContext api (ev_ctx e) (st_srv st))"
  have v: "same_view V (st_srv st) ?w1" "same_view V ?w1 (snd (r_UnblockClient api (ev_client e) 0 ?w1))"
    using assms by (simp_all add: law_clients_def)
  have keys: "v_keys V (snd (r_UnblockClient api (ev_client e) 0 ?w1)) = v_keys V (st_srv st)"
    using v by (simp add: same_view_def)
  show "conc_rel V N (event_dtor api e st) db = conc_rel V N st db"
    by (simp add: event_dtor_def host_simps conc_rel_calls keys)
  show "v_room V (st_srv (event_dtor api e st)) (conc_live (event_dtor api e st)) m"
    if "v_room V (st_srv st) (conc_live st) m"
    using that v by (simp add: event_dtor_def host_simps same_view_def)
  show "rp_queue (event_dtor api e st) = rp_queue st" "rp_tls (event_dtor api e st) = rp_tls st"
    by (simp_all add: event_dtor_def host_simps)
  show "\<exists>tr. st_trace (event_dtor api e st) = st_trace st @ tr \<and> replies tr = [] \<and> unblocked tr = [ev_client e]"
    if "\<not> ev_thread_safe e"
    using that by (simp add: event_dtor_def host_simps)
qed

lemma conc_rel_queue [simp]:
  fixes st :: "('w, 'm) redpar_state_scheme"
  shows "conc_rel V N (st\<lparr>rp_queue := q\<rparr>) db = conc_rel V N st db" "conc_live (st\<lparr>rp_queue := q\<rparr>) = conc_live st"
  by (simp_all add: conc_rel_def conc_live_def conc_same [where st = st and st' = "st\<lparr>rp_queue := q\<rparr>"])

lemma work_turn_refines:
  fixes st :: "('w, 'm) redpar_state_scheme"
  assumes laws: "conc_laws api pf V" "law_clients api V" and rel: "conc_rel V N st db"
    and tid: "rp_tls st t = Some tid" "tid < N"
    and queue: "eq_events (rp_queue st) = (Conc c, e) # xs"
    and e: "ev_argc e = int (length (ev_argv e))" "\<not> ev_thread_safe e"
    and room: "v_room V (st_srv st) (conc_live st) (Suc m)"
  shows "\<exists>st' tr. work_turn api pf t st = Some st' \<and> eq_events (rp_queue st') = xs \<and> rp_tls st' = rp_tls st \<and>
    conc_rel V N st' (snd (spec_conc (v_parse V) c (ev_argv e) db)) \<and> st_trace st' = st_trace st @ tr \<and>
    replies tr = [(ev_ctx e, fst (spec_conc (v_parse V) c (ev_argv e) db))] \<and> unblocked tr = [ev_client e] \<and>
    v_room V (st_srv st') (conc_live st') m"
proof -
  let ?st = "st\<lparr>rp_queue := rp_queue st\<lparr>eq_events := xs\<rparr>\<rparr>"
  have "conc_outcome V N m e ?st (spec_conc (v_parse V) c (ev_argv e) db) (conc_execute api pf tid c e ?st)"
    by (rule conc_execute_refines [OF laws(1) _ e(1) _ tid(2)]) (use rel room in simp_all)
  then obtain st1 tr1 where st1: "conc_execute api pf tid c e ?st = Some st1" "st_trace st1 = st_trace st @ tr1"
    "replies tr1 = [(ev_ctx e, fst (spec_conc (v_parse V) c (ev_argv e) db))]"
    "conc_rel V N st1 (snd (spec_conc (v_parse V) c (ev_argv e) db))" "v_room V (st_srv st1) (conc_live st1) m"
    by (auto simp: conc_outcome_def)
  have run: "execute api pf tid (Conc c) e ?st = Some st1" using st1(1) by (simp add: execute_def)
  have "unblocked (st_trace st1) = unblocked (st_trace st)"
    using execute_frame [OF run] by (simp add: client_frame_def)
  then have "unblocked tr1 = []" using st1(2) by simp
  moreover have "work_turn api pf t st = Some (event_dtor api e st1)"
    using queue tid(1) run by (simp add: work_turn_def dequeue_def)
  moreover have "eq_events (rp_queue st1) = xs" "rp_tls st1 = rp_tls st"
    using frame_queue(1,2) [OF execute_frame [OF run]] by simp_all
  moreover note event_dtor_rel [OF laws(2), where e = e and st = st1] e(2)
  ultimately show ?thesis
    using st1 by fastforce
qed

lemma work_loop_refines:
  fixes st :: "('w, 'm) redpar_state_scheme"
  assumes laws: "conc_laws api pf V" "law_clients api V" and tid: "tid < N"
  shows "conc_rel V N st db \<Longrightarrow> rp_tls st t = Some tid \<Longrightarrow>
    eq_events (rp_queue st) = map (\<lambda>(c, e). (Conc c, e)) es \<Longrightarrow>
    \<forall>(c, e) \<in> set es. ev_argc e = int (length (ev_argv e)) \<and> \<not> ev_thread_safe e \<Longrightarrow>
    v_room V (st_srv st) (conc_live st) (length es) \<Longrightarrow>
    \<exists>st' tr. work_loop api pf t (length es) st = Some st' \<and> eq_events (rp_queue st') = [] \<and>
      conc_rel V N st' (snd (spec_seq (spec_conc_step (v_parse V)) (map (Pair tid) es) db)) \<and>
      st_trace st' = st_trace st @ tr \<and>
      replies tr = concat (fst (spec_seq (spec_conc_step (v_parse V)) (map (Pair tid) es) db)) \<and>
      unblocked tr = map (ev_client \<circ> snd) es"
proof (induction es arbitrary: st db)
  case Nil
  then show ?case by auto
next
  case (Cons x es)
  obtain c e where x: "x = (c, e)" by (cases x)
  from Cons.prems x have "eq_events (rp_queue st) = (Conc c, e) # map (\<lambda>(c, e). (Conc c, e)) es"
    "ev_argc e = int (length (ev_argv e))" "\<not> ev_thread_safe e" "v_room V (st_srv st) (conc_live st) (Suc (length es))"
    by simp_all
  from work_turn_refines [OF laws Cons.prems(1,2) tid this] obtain st1 tr1 where
    1: "work_turn api pf t st = Some st1" "eq_events (rp_queue st1) = map (\<lambda>(c, e). (Conc c, e)) es"
    "rp_tls st1 = rp_tls st" "conc_rel V N st1 (snd (spec_conc (v_parse V) c (ev_argv e) db))"
    "st_trace st1 = st_trace st @ tr1"
    "replies tr1 = [(ev_ctx e, fst (spec_conc (v_parse V) c (ev_argv e) db))]" "unblocked tr1 = [ev_client e]"
    "v_room V (st_srv st1) (conc_live st1) (length es)"
    by blast
  have step: "spec_conc_step (v_parse V) (tid, c, e) db =
      ([(ev_ctx e, fst (spec_conc (v_parse V) c (ev_argv e) db))], snd (spec_conc (v_parse V) c (ev_argv e) db))"
    by (simp add: spec_conc_step_def)
  have "rp_tls st1 t = Some tid" using 1(3) Cons.prems(2) by simp
  from Cons.IH [OF 1(4) this 1(2) _ 1(8)] Cons.prems(4) obtain st2 tr2 where
    2: "work_loop api pf t (length es) st1 = Some st2" "eq_events (rp_queue st2) = []"
    "conc_rel V N st2 (snd (spec_seq (spec_conc_step (v_parse V)) (map (Pair tid) es)
       (snd (spec_conc (v_parse V) c (ev_argv e) db))))"
    "st_trace st2 = st_trace st1 @ tr2"
    "replies tr2 = concat (fst (spec_seq (spec_conc_step (v_parse V)) (map (Pair tid) es)
       (snd (spec_conc (v_parse V) c (ev_argv e) db))))"
    "unblocked tr2 = map (ev_client \<circ> snd) es"
    by auto
  from 1(1,5-7) 2 show ?case
    by (intro exI [of _ st2] exI [of _ "tr1 @ tr2"])
       (simp add: x step Let_def split_beta)
qed

subsection \<open>Loading\<close>

lemma GET_API_fold:
  "fold (\<lambda>n fp. snd (REDISMODULE_GET_API getapi n fp)) ns fp n =
     (if n \<in> set ns then case getapi (''RedisModule_'' @ n) of None \<Rightarrow> fp n | Some p \<Rightarrow> p else fp n)"
  by (induction ns arbitrary: fp) (auto simp: REDISMODULE_GET_API_def split: option.splits)

lemma LLCA_OnLoad_frame:
  fixes st :: "('w, 'm) redpar_state_scheme"
  assumes "LLCA_OnLoad api ctx st = (r, st')" and "law_load api V"
  shows "conc_state.more st' = conc_state.more st" "st_cds st' = st_cds st"
    "v_keys V (st_srv st') = v_keys V (st_srv st)"
  using assms by (auto simp: LLCA_OnLoad_def host_simps Let_def split_beta law_load_def split: if_splits)

lemma register_frame:
  fixes st :: "('w, 'm) redpar_state_scheme"
  assumes "register_commands api ctx cs st = (r, st')" and "law_load api V"
  shows "conc_state.more st' = conc_state.more st \<and> st_cds st' = st_cds st \<and> st_llca_conc st' = st_llca_conc st \<and>
    v_keys V (st_srv st') = v_keys V (st_srv st)"
  using assms
proof (induction cs arbitrary: st)
  case (Cons c cs)
  obtain name f where c: "c = (name, f)" by (cases c)
  let ?st = "snd (RedisModule_CreateCommand api ctx name f ''write'' 1 1 1 st)"
  have "conc_state.more ?st = conc_state.more st \<and> st_cds ?st = st_cds st \<and> st_llca_conc ?st = st_llca_conc st \<and>
      v_keys V (st_srv ?st) = v_keys V (st_srv st)"
    using Cons.prems(2) by (simp add: host_simps law_load_def)
  moreover from Cons.prems(1) c have "st' = ?st \<or> register_commands api ctx cs ?st = (r, st')"
    by (auto simp: Let_def split_beta host_simps split: if_splits)
  ultimately show ?case using Cons.IH [of ?st] Cons.prems(2) by auto
qed simp

lemma LLCA_Conc_OnLoad_frame:
  fixes st :: "('w, 'm) redpar_state_scheme"
  assumes "LLCA_Conc_OnLoad api ctx st = (REDISMODULE_OK, st')" and "law_load api V"
  shows "conc_state.more st' = conc_state.more st" "st_cds st' = st_cds st" "st_llca_conc st' \<noteq> 0"
    "v_keys V (st_srv st') = v_keys V (st_srv st)"
proof -
  let ?mt = "fst (r_CreateDataType api ctx ''llca_conc'' 0 llca_conc_type_methods (st_srv st))"
  let ?st = "(snd (RedisModule_CreateDataType api ctx ''llca_conc'' 0 llca_conc_type_methods st))\<lparr>st_llca_conc := ?mt\<rparr>"
  from assms(1) have mt: "?mt \<noteq> 0" and "register_commands api ctx conc_commands ?st = (REDISMODULE_OK, st')"
    by (auto simp: LLCA_Conc_OnLoad_def Let_def split_beta host_simps split: if_splits)
  from register_frame [OF this(2) assms(2)] mt assms(2)
  show "conc_state.more st' = conc_state.more st" "st_cds st' = st_cds st" "st_llca_conc st' \<noteq> 0"
    "v_keys V (st_srv st') = v_keys V (st_srv st)"
    by (simp_all add: host_simps law_load_def)
qed

text \<open>What loading leaves of the state it started from, up to the start of libcds.\<close>

lemma OnLoad_frame:
  fixes st :: "('w, 'm) redpar_state_scheme"
  assumes run: "RedisModule_OnLoad api getapi ctx t ids st = Some (REDISMODULE_OK, st')" and load: "law_load api V"
  obtains st2 :: "('w, 'm) redpar_state_scheme" where "rp_queue st2 = rp_queue st" "rp_hp_used st2 = rp_hp_used st"
    "rp_nAttachCount st2 = rp_nAttachCount st" "rp_tls st2 = rp_tls st" "rp_thread_pool st2 = rp_thread_pool st"
    "st_cds st2 = st_cds st" "st_llca_conc st2 \<noteq> 0" "v_keys V (st_srv st2) = v_keys V (st_srv st)"
    "st' = (let st3 = attachThread t (smr_construct 67 0 0 inplace (cds_Initialize st2))
            in st3\<lparr>rp_thread_pool := rp_thread_pool st3 @ take CA_THREAD_COUNT ids\<rparr>)"
proof -
  obtain r0 fp st0 where 0: "Export_RedisModule_Init api getapi ctx ''CA_multithread'' 1 REDISMODULE_APIVER_1 (rp_fp st) st =
      Some (r0, fp, st0)"
    using run by (auto simp: RedisModule_OnLoad_def)
  then have st0: "conc_state.more st0 = conc_state.more st" "st_cds st0 = st_cds st"
    "v_keys V (st_srv st0) = v_keys V (st_srv st)" "r0 = REDISMODULE_OK"
    using load by (auto simp: Export_RedisModule_Init_def RedisModule_Init_def Let_def host_simps law_load_def
        split: if_splits)
  let ?s0 = "st0\<lparr>rp_fp := fp\<rparr>"
  obtain r1 st1 where 1: "LLCA_OnLoad api ctx ?s0 = (r1, st1)" by (cases "LLCA_OnLoad api ctx ?s0")
  obtain r2 st2 where 2: "LLCA_Conc_OnLoad api ctx st1 = (r2, st2)" by (cases "LLCA_Conc_OnLoad api ctx st1")
  from run 0 1 2 st0(4) have ok: "r1 = REDISMODULE_OK" "r2 = REDISMODULE_OK"
    and st': "st' = (let st3 = attachThread t (smr_construct 67 0 0 inplace (cds_Initialize st2))
            in st3\<lparr>rp_thread_pool := rp_thread_pool st3 @ take CA_THREAD_COUNT ids\<rparr>)"
    by (auto simp: RedisModule_OnLoad_def Let_def split: if_splits)
  note f1 = LLCA_OnLoad_frame [OF 1 load]
  from 2 ok(2) have "LLCA_Conc_OnLoad api ctx st1 = (REDISMODULE_OK, st2)" by simp
  note f2 = LLCA_Conc_OnLoad_frame [OF this load]
  have m: "conc_state.more st2 = conc_state.more ?s0" using f1(1) f2(1) by simp
  show ?thesis
  proof (rule that [OF _ _ _ _ _ _ f2(3) _ st'])
    show "rp_queue st2 = rp_queue st" "rp_hp_used st2 = rp_hp_used st" "rp_nAttachCount st2 = rp_nAttachCount st"
      "rp_tls st2 = rp_tls st" "rp_thread_pool st2 = rp_thread_pool st"
      using m st0(1) by (cases st; cases st0; cases st2; simp)+
    show "st_cds st2 = st_cds st" "v_keys V (st_srv st2) = v_keys V (st_srv st)"
      using f1(2,3) f2(2,4) st0(2,3) by simp_all
  qed
qed

text \<open>Two threads that attach to a new collector get its records 0 and 1.\<close>

lemma attach_two:
  assumes "t \<noteq> 0" and "alloc_thread_data t (HP 67) = (i, m)" and "alloc_thread_data w m = (j, k)"
  shows "i = 0" "j = 1" "length (smr_threads k) = 2" "collector_ok m" "collector_ok k" "retired_set k = {}"
proof -
  have room: "length (smr_threads (HP 67)) < max_thread_count (HP 67)"
    by (simp add: HP_def smr_ctor_def Let_def c_nMaxThreadCount_def)
  note ok = alloc_thread_data_ok [OF collector_ok_HP room assms(2)]
  show ij: "i = 0" "j = 1" "length (smr_threads k) = 2"
    using assms by (auto simp: alloc_thread_data_def HP_def smr_ctor_def Let_def)
  have "length (smr_threads m) < max_thread_count m" "retired_set (HP 67) = {}"
    using assms(2) by (auto simp: alloc_thread_data_def HP_def smr_ctor_def Let_def c_nMaxThreadCount_def retired_set_def)
  with alloc_thread_data_ok [OF conjunct1 [OF ok] _ assms(3)] ok
  show "collector_ok m" "collector_ok k" "retired_set k = {}" by simp_all
qed

end
