(* ===== verification/Module_Run.thy ===== *)
theory Module_Run
  imports Redpar
begin

text \<open>
  The properties of the module as a whole, over the system of \<^verbatim>\<open>Redpar\<close>: loading resolves the API and
  leaves two attached threads and a database without sets; every blocked client is unblocked once and in
  order; the worker empties the queue and answers each event as the specification does.
\<close>

subsection \<open>After loading\<close>

lemma attach_first:
  fixes st :: "('w, 'm) redpar_state_scheme"
  assumes "rp_nAttachCount st t = 0" "rp_hp_used st" "rp_tls st t = None"
    and "alloc_thread_data t (c_smr (st_cds st)) = (i, m)"
  shows "attachThread t st = st\<lparr>rp_nAttachCount := (rp_nAttachCount st)(t := 1),
    st_cds := (st_cds st)\<lparr>c_smr := m\<rparr>, rp_tls := (rp_tls st)(t \<mapsto> i)\<rparr>"
  using assms by (simp add: attachThread_def ThreadData_init_def smr_attach_thread_def Let_def)

lemma cds_inv_empty:
  "collector_ok m \<Longrightarrow> retired_set m = {} \<Longrightarrow>
     cds_inv \<lparr>c_nodes = Map.empty, c_sets = Map.empty, c_smr = m\<rparr> Map.empty"
  by (simp add: cds_inv_def)

lemma loaded_state:
  fixes st :: "('w, 'm) redpar_state_scheme"
  assumes run: "RedisModule_OnLoad api getapi ctx t ids st = Some (REDISMODULE_OK, st')" and load: "law_load api V"
    and new: "\<not> rp_hp_used st" "rp_nAttachCount st = (\<lambda>_. 0)" "rp_tls st = Map.empty"
      "c_nodes (st_cds st) = Map.empty" "c_sets (st_cds st) = Map.empty"
    and t: "t \<noteq> 0" "w \<noteq> t"
    and foreign: "\<forall>name mt a. v_keys V (st_srv st) name = Some (K_Module mt a) \<longrightarrow> mt \<noteq> st_llca_conc st'"
  shows "conc_rel V 2 (attachThread w st') (\<lambda>name. map_option (\<lambda>_. DB_Other) (v_keys V (st_srv st) name))"
    and "rp_tls (attachThread w st') = [t \<mapsto> 0, w \<mapsto> 1]"
    and "rp_thread_pool st' = rp_thread_pool st @ take CA_THREAD_COUNT ids"
    and "check_hazard_ptr_count c_nHazardPtrCount (c_smr (st_cds st'))"
    and "rp_queue st' = rp_queue st"
proof -
  obtain st2 :: "('w, 'm) redpar_state_scheme" where 2: "rp_queue st2 = rp_queue st" "rp_hp_used st2 = rp_hp_used st"
    "rp_nAttachCount st2 = rp_nAttachCount st" "rp_tls st2 = rp_tls st" "rp_thread_pool st2 = rp_thread_pool st"
    "st_cds st2 = st_cds st" "st_llca_conc st2 \<noteq> 0" "v_keys V (st_srv st2) = v_keys V (st_srv st)"
    and st': "st' = (let st3 = attachThread t (smr_construct 67 0 0 inplace (cds_Initialize st2))
            in st3\<lparr>rp_thread_pool := rp_thread_pool st3 @ take CA_THREAD_COUNT ids\<rparr>)"
    using OnLoad_frame [OF run load] by blast
  obtain i m where i: "alloc_thread_data t (HP 67) = (i, m)" by (cases "alloc_thread_data t (HP 67)")
  obtain j k where j: "alloc_thread_data w m = (j, k)" by (cases "alloc_thread_data w m")
  note two = attach_two [OF t(1) i j]
  define s where "s = smr_construct 67 0 0 inplace (cds_Initialize st2)"
  have s: "rp_nAttachCount s = (\<lambda>_. 0)" "rp_hp_used s" "rp_tls s = Map.empty" "c_smr (st_cds s) = HP 67"
    "c_nodes (st_cds s) = Map.empty" "c_sets (st_cds s) = Map.empty" "st_llca_conc s \<noteq> 0"
    "v_keys V (st_srv s) = v_keys V (st_srv st)" "rp_thread_pool s = rp_thread_pool st" "rp_queue s = rp_queue st"
    using 2 new by (simp_all add: s_def smr_construct_def cds_Initialize_def init_first_call_def HP_def)
  from attach_first [of s t i m] i s
  have a1: "attachThread t s = s\<lparr>rp_nAttachCount := (rp_nAttachCount s)(t := 1),
      st_cds := (st_cds s)\<lparr>c_smr := m\<rparr>, rp_tls := (rp_tls s)(t \<mapsto> i)\<rparr>" by simp
  have f: "rp_nAttachCount st' w = 0" "rp_hp_used st'" "rp_tls st' w = None" "c_smr (st_cds st') = m"
    "rp_tls st' = [t \<mapsto> 0]" "c_nodes (st_cds st') = Map.empty" "c_sets (st_cds st') = Map.empty"
    "st_llca_conc st' \<noteq> 0" "v_keys V (st_srv st') = v_keys V (st_srv st)"
    "rp_thread_pool st' = rp_thread_pool st @ take CA_THREAD_COUNT ids" "rp_queue st' = rp_queue st"
    using s t(2) two(1) by (simp_all add: st' a1 Let_def flip: s_def)
  from attach_first [OF f(1-3), of j k] j f(4)
  have a2: "attachThread w st' = st'\<lparr>rp_nAttachCount := (rp_nAttachCount st')(w := 1),
      st_cds := (st_cds st')\<lparr>c_smr := k\<rparr>, rp_tls := (rp_tls st')(w \<mapsto> j)\<rparr>" by simp
  have "st_cds (attachThread w st') = \<lparr>c_nodes = Map.empty, c_sets = Map.empty, c_smr = k\<rparr>"
    using f(6,7) by (simp add: a2)
  then have "cds_inv (st_cds (attachThread w st')) Map.empty" "length (smr_threads (c_smr (st_cds (attachThread w st')))) = 2"
    using cds_inv_empty two by simp_all
  moreover have "st_llca_conc (attachThread w st') = st_llca_conc st'"
    "v_keys V (st_srv (attachThread w st')) = v_keys V (st_srv st)"
    using f(9) by (simp_all add: a2)
  moreover from this have "conc_db V (attachThread w st') Map.empty =
      (\<lambda>name. map_option (\<lambda>_. DB_Other) (v_keys V (st_srv st) name))"
    using foreign by (auto simp: conc_db_def fun_eq_iff split: option.splits key_entry.splits)
  ultimately show "conc_rel V 2 (attachThread w st') (\<lambda>name. map_option (\<lambda>_. DB_Other) (v_keys V (st_srv st) name))"
    using f(8) foreign
    by (auto simp: conc_rel_def conc_inv_def holds_def intro!: exI [of _ Map.empty])
  show "rp_tls (attachThread w st') = [t \<mapsto> 0, w \<mapsto> 1]" using f(5) two(2) by (simp add: a2)
  show "check_hazard_ptr_count c_nHazardPtrCount (c_smr (st_cds st'))"
    using two(4) f(4) by (auto simp: collector_ok_def check_hazard_ptr_count_def)
  show "rp_thread_pool st' = rp_thread_pool st @ take CA_THREAD_COUNT ids" "rp_queue st' = rp_queue st"
    using f by simp_all
qed

subsection \<open>The worker\<close>

lemma work_loop_idle: "eq_events (rp_queue st) = [] \<Longrightarrow> work_loop api pf w n st = Some st"
proof (induction n)
  case (Suc n)
  from Suc.prems have "dequeue (rp_queue st) = (None, rp_queue st)" by (simp add: dequeue_def)
  then show ?case using Suc by (simp add: work_turn_def)
qed simp

lemma work_loop_add:
  "work_loop api pf w (m + n) st = Option.bind (work_loop api pf w m st) (work_loop api pf w n)"
  by (induction m arbitrary: st) (simp_all split: bind_split)

subsection \<open>A concrete start\<close>

lemma GET_API_names:
  "fold (\<lambda>n fp. snd (REDISMODULE_GET_API getapi n fp)) ns fp =
     (\<lambda>n. if n \<in> set ns then (case getapi (''RedisModule_'' @ n) of None \<Rightarrow> fp n | Some p \<Rightarrow> p) else fp n)"
  by (rule ext) (rule GET_API_fold)

lemma SetModuleAttribs_resolved: "''SetModuleAttribs'' \<in> set (init_api_names @ init_experimental_names)"
  by (simp add: init_api_names_def)

text \<open>The module before it is loaded, on the concrete server with a foreign key; a server that resolves
  every API function; and the module loaded by thread 1 with the worker 2.\<close>

definition redpar_start :: "sim_world redpar_state" where
  "redpar_start =
     \<lparr>st_srv = \<lparr>sw_keys = [''s'' \<mapsto> K_Other 1], sw_handles = Map.empty, sw_handle = 1, sw_brk = 4096, sw_rdb = (\<lambda>_. [])\<rparr>,
      st_trace = [], st_ll = \<lparr>ll_nodes = Map.empty, ll_objs = Map.empty\<rparr>, st_llca = 0,
      st_cds = \<lparr>c_nodes = Map.empty, c_sets = Map.empty, c_smr = HP 0\<rparr>, st_llca_conc = 0,
      rp_queue = \<lparr>eq_events = []\<rparr>, rp_fp = (\<lambda>_. 0), rp_nInitCallCount = 0, rp_hp_used = False,
      rp_nAttachCount = (\<lambda>_. 0), rp_tls = Map.empty, rp_thread_pool = []\<rparr>"

definition redpar_getapi :: "string \<rightharpoonup> addr" where
  "redpar_getapi name = Some 4096"

definition redpar_loaded :: "sim_world redpar_state" where
  "redpar_loaded = snd (the (RedisModule_OnLoad sim_api redpar_getapi 3 1 [2] redpar_start))"

definition redpar_ready :: "sim_world redpar_state" where
  "redpar_ready = attachThread 2 redpar_loaded"

lemma redpar_init:
  "\<exists>fp tr. Export_RedisModule_Init sim_api redpar_getapi 3 ''CA_multithread'' 1 REDISMODULE_APIVER_1
     (rp_fp redpar_start) redpar_start = Some (REDISMODULE_OK, fp, redpar_start\<lparr>st_trace := tr\<rparr>) \<and>
     blocked tr = [] \<and> unblocked tr = []"
  using SetModuleAttribs_resolved
  by (simp only: Export_RedisModule_Init_def RedisModule_Init_def GET_API_names Let_def if_True)
     (simp add: redpar_getapi_def host_simps sim_api_def redpar_start_def)

lemma redpar_llca:
  assumes "blocked tr0 = []" "unblocked tr0 = []"
  shows "\<exists>tr. LLCA_OnLoad sim_api 3 (redpar_start\<lparr>st_trace := tr0, rp_fp := fp\<rparr>) =
      (REDISMODULE_OK, redpar_start\<lparr>st_trace := tr, st_llca := 77, rp_fp := fp\<rparr>) \<and> blocked tr = [] \<and> unblocked tr = []"
  using assms by (simp add: LLCA_OnLoad_def host_simps sim_api_def Let_def split_beta redpar_start_def)

lemma redpar_conc:
  assumes "blocked tr0 = []" "unblocked tr0 = []"
  shows "\<exists>tr. LLCA_Conc_OnLoad sim_api 3 (redpar_start\<lparr>st_trace := tr0, st_llca := 77, rp_fp := fp\<rparr>) =
      (REDISMODULE_OK, redpar_start\<lparr>st_trace := tr, st_llca := 77, rp_fp := fp, st_llca_conc := 78\<rparr>) \<and>
      blocked tr = [] \<and> unblocked tr = []"
  using assms
  by (simp add: LLCA_Conc_OnLoad_def host_simps sim_api_def Let_def split_beta conc_commands_def redpar_start_def)

lemma redpar_loads:
  "RedisModule_OnLoad sim_api redpar_getapi 3 1 [2] redpar_start = Some (REDISMODULE_OK, redpar_loaded)" (is ?run)
  "st_llca_conc redpar_loaded = 78" "conc_live redpar_loaded = {}" "sw_brk (st_srv redpar_loaded) = 4096"
  "blocked (st_trace redpar_loaded) = []" "unblocked (st_trace redpar_loaded) = []"
proof -
  obtain fp tr0 where 0: "Export_RedisModule_Init sim_api redpar_getapi 3 ''CA_multithread'' 1 REDISMODULE_APIVER_1
      (rp_fp redpar_start) redpar_start = Some (REDISMODULE_OK, fp, redpar_start\<lparr>st_trace := tr0\<rparr>)"
      "blocked tr0 = []" "unblocked tr0 = []"
    using redpar_init by blast
  from redpar_llca [OF 0(2,3)] obtain tr1 where
    1: "LLCA_OnLoad sim_api 3 (redpar_start\<lparr>st_trace := tr0, rp_fp := fp\<rparr>) =
      (REDISMODULE_OK, redpar_start\<lparr>st_trace := tr1, st_llca := 77, rp_fp := fp\<rparr>)"
      "blocked tr1 = []" "unblocked tr1 = []"
    by blast
  from redpar_conc [OF 1(2,3)] obtain tr2 where
    2: "LLCA_Conc_OnLoad sim_api 3 (redpar_start\<lparr>st_trace := tr1, st_llca := 77, rp_fp := fp\<rparr>) =
      (REDISMODULE_OK, redpar_start\<lparr>st_trace := tr2, st_llca := 77, rp_fp := fp, st_llca_conc := 78\<rparr>)"
      "blocked tr2 = []" "unblocked tr2 = []"
    by blast
  have "\<exists>st. RedisModule_OnLoad sim_api redpar_getapi 3 1 [2] redpar_start = Some (REDISMODULE_OK, st) \<and>
    st_llca_conc st = 78 \<and> conc_live st = {} \<and> sw_brk (st_srv st) = 4096 \<and>
    blocked (st_trace st) = [] \<and> unblocked (st_trace st) = []"
    using 0(1) 1(1) 2 by (simp add: RedisModule_OnLoad_def redis_constants Let_def cds_Initialize_def init_first_call_def
      smr_construct_def attachThread_def ThreadData_init_def smr_attach_thread_def split_beta conc_live_def llca_live_def)
     (simp add: redpar_start_def split: prod.split)
  then show ?run "st_llca_conc redpar_loaded = 78" "conc_live redpar_loaded = {}" "sw_brk (st_srv redpar_loaded) = 4096"
    "blocked (st_trace redpar_loaded) = []" "unblocked (st_trace redpar_loaded) = []"
    unfolding redpar_loaded_def by auto
qed

lemma attachThread_frame:
  "rp_thread_pool (attachThread w st) = rp_thread_pool st" "rp_queue (attachThread w st) = rp_queue st"
  "st_llca_conc (attachThread w st) = st_llca_conc st" "st_srv (attachThread w st) = st_srv st"
  "st_trace (attachThread w st) = st_trace st" "conc_live (attachThread w st) = conc_live st"
  "attachThread w (st\<lparr>rp_queue := q\<rparr>) = (attachThread w st)\<lparr>rp_queue := q\<rparr>"
  by (auto simp: attachThread_def ThreadData_init_def smr_attach_thread_def Let_def conc_live_def
      split: option.splits prod.splits)

lemma redpar_ready:
  "conc_rel sim_view 2 redpar_ready [''s'' \<mapsto> DB_Other]" "rp_tls redpar_ready = [1 \<mapsto> 0, 2 \<mapsto> 1]"
  "rp_thread_pool redpar_ready = [2]" "eq_events (rp_queue redpar_ready) = []" "st_llca_conc redpar_ready = 78"
  "blocked (st_trace redpar_ready) = []" "unblocked (st_trace redpar_ready) = []"
  "n \<le> 60 \<Longrightarrow> v_room sim_view (st_srv redpar_ready) (conc_live redpar_ready) n"
proof -
  have keys: "v_keys sim_view (st_srv redpar_start) = [''s'' \<mapsto> K_Other 1]"
    by (auto simp: sim_view_def sim_keys_def redpar_start_def sim_norm_def redis_constants)
  have "\<forall>name mt a. v_keys sim_view (st_srv redpar_start) name = Some (K_Module mt a) \<longrightarrow> mt \<noteq> st_llca_conc redpar_loaded"
    by (simp add: keys)
  note l = loaded_state [OF redpar_loads(1) sim_law_clients(2) _ _ _ _ _ _ _ this, where w = 2]
  have eq: "(\<lambda>name. map_option (\<lambda>_. DB_Other) (v_keys sim_view (st_srv redpar_start) name)) = [''s'' \<mapsto> DB_Other]"
    by (auto simp: keys)
  show "conc_rel sim_view 2 redpar_ready [''s'' \<mapsto> DB_Other]"
    using l(1) unfolding eq redpar_ready_def by (simp add: redpar_start_def)
  show "rp_tls redpar_ready = [1 \<mapsto> 0, 2 \<mapsto> 1]"
    using l(2) unfolding redpar_ready_def by (simp add: redpar_start_def)
  show "rp_thread_pool redpar_ready = [2]" "eq_events (rp_queue redpar_ready) = []"
    using l(3,5) by (simp_all add: redpar_ready_def attachThread_frame CA_THREAD_COUNT_def redpar_start_def)
  show "st_llca_conc redpar_ready = 78" "blocked (st_trace redpar_ready) = []" "unblocked (st_trace redpar_ready) = []"
    by (simp_all add: redpar_ready_def attachThread_frame redpar_loads)
  show "v_room sim_view (st_srv redpar_ready) (conc_live redpar_ready) n" if "n \<le> 60"
    using that by (intro sim_room) (simp_all add: redpar_ready_def attachThread_frame redpar_loads)
qed

subsection \<open>Properties\<close>




text \<open>C7: In every state that the server's thread and the workers can reach together, the clients blocked so
  far are, in order, those unblocked so far followed by those of the queued events: each blocked client
  is waiting in the queue or was unblocked once, first come first served, and no client is unblocked twice.\<close>

theorem clients_fifo:
  fixes st0 :: "('w, 'm) redpar_state_scheme"
  assumes "reachable api pf t st0 st" and "queue_inv st0"
  shows "blocked (st_trace st) = unblocked (st_trace st) @ map (ev_client \<circ> snd) (eq_events (rp_queue st))"
  using reachable_inv [OF assms] by (simp add: queue_inv_def)

theorem clients_fifo_witness:
  "\<exists>st. reachable sim_api conc_platform 1 redpar_ready st \<and> eq_events (rp_queue st) = [] \<and>
    blocked (st_trace st) = [1010] \<and> unblocked (st_trace st) = [1010]"
proof -
  define e where "e = \<lparr>ev_ctx = 2010, ev_argv = [''c'', ''k''], ev_argc = 2, ev_client = 1010, ev_thread_safe = False\<rparr>"
  define st1 where "st1 = redpar_ready\<lparr>st_trace := st_trace redpar_ready @
      [C_BlockClient 10 0 1010, C_GetThreadSafeContext 1010 2010],
      rp_queue := \<lparr>eq_events = [(Conc Conc_Create_Event, e)]\<rparr>\<rparr>"
  have "conc_handler sim_api (Conc Conc_Create_Event) 10 [''c'', ''k''] (int (length [''c'', ''k'']))
      (rp_queue redpar_ready) redpar_ready = (REDISMODULE_OK, rp_queue st1, st1\<lparr>rp_queue := rp_queue redpar_ready\<rparr>)"
    using redpar_ready(4)
    by (simp add: conc_handler_def event_ctor_def enqueue_def host_simps Let_def sim_api_def st1_def e_def)
  from redpar_step.Conc_Command [OF this, of conc_platform 1]
  have 1: "reachable sim_api conc_platform 1 redpar_ready st1"
    by (intro reachable.Step [OF reachable.Start]) simp
  have rel: "conc_rel sim_view 2 st1 [''s'' \<mapsto> DB_Other]"
    using redpar_ready(1) conc_rel_calls [of sim_view "st_srv redpar_ready" redpar_ready 2]
    by (simp add: st1_def)
  have room: "v_room sim_view (st_srv st1) (conc_live st1) (Suc 0)"
    using redpar_ready(8) [of 1] by (simp add: st1_def conc_live_def)
  have q: "eq_events (rp_queue st1) = (Conc Conc_Create_Event, e) # []" "rp_tls st1 2 = Some 1"
    using redpar_ready(2) by (simp_all add: st1_def)
  obtain st2 tr where 2: "work_turn sim_api conc_platform 2 st1 = Some st2" "eq_events (rp_queue st2) = []"
    "st_trace st2 = st_trace st1 @ tr" "unblocked tr = [1010]"
    using work_turn_refines [OF conc_sim_laws sim_law_clients(1) rel q(2) _ q(1) _ _ room] by (auto simp: e_def)
  have "2 \<in> set (rp_thread_pool st1)" using redpar_ready(3) by (simp add: st1_def)
  from reachable.Step [OF 1 redpar_step.Worker [OF this 2(1)]]
  have r: "reachable sim_api conc_platform 1 redpar_ready st2" .
  have "queue_inv redpar_ready" using redpar_ready by (simp add: queue_inv_def)
  moreover have "unblocked (st_trace st2) = [1010]" using 2(3,4) redpar_ready(7) by (simp add: st1_def)
  ultimately show ?thesis
    using clients_fifo [OF r] 2(2) r by auto
qed


text \<open>Two queued requests on the loaded module.\<close>

definition redpar_demo :: "(conc_class \<times> event) list" where
  "redpar_demo = [(Conc_Create_Event, conc_event False [''c'', ''k'']), (Conc_Insert_Event, conc_event False [''i'', ''k'', ''7''])]"


end
