(* ===== verification/Skip_List_Extract.thy ===== *)
theory Skip_List_Extract
  imports Skip_List_Set
begin

text \<open>
  The operations of the skip list set that hand a removed item to their caller: \<open>extract\<close>, \<open>extract_min\<close>,
  \<open>extract_max\<close>, with \<open>clear\<close> and \<open>unlink\<close>, of \<^verbatim>\<open>cds/intrusive/impl/skip_list.h\<close>, and the guarded pointers
  of \<^verbatim>\<open>cds/gc/hp.h\<close> that they return.

  A guarded pointer is the index of the guard that it owns, or \<open>None\<close> when it owns no guard.
\<close>

subsection \<open>Guarded pointers\<close>

type_synonym guarded_ptr = "nat option"

text \<open>\<open>reset\<close> allocates a guard unless there is one and stores the pointer; \<open>release\<close> is the destructor.\<close>

definition gp_reset :: "nat \<Rightarrow> guarded_ptr \<Rightarrow> addr \<Rightarrow> cds_state \<Rightarrow> (guarded_ptr \<times> cds_state) option" where
  "gp_reset tid gp p s = do {
     (g, s) \<leftarrow> (case gp of None \<Rightarrow> new_guard tid s | Some g \<Rightarrow> Some (g, s));
     Some (Some g, assign tid g p s)
   }"

definition gp_release :: "nat \<Rightarrow> guarded_ptr \<Rightarrow> cds_state \<Rightarrow> cds_state" where
  "gp_release tid gp s = (case gp of None \<Rightarrow> s | Some g \<Rightarrow> drop_guard tid g s)"

definition gp_ptr :: "nat \<Rightarrow> guarded_ptr \<Rightarrow> cds_state \<Rightarrow> addr" where
  "gp_ptr tid gp s = (case gp of None \<Rightarrow> 0 | Some g \<Rightarrow> guard_get g (thread_of tid s))"

definition gp_empty :: "nat \<Rightarrow> guarded_ptr \<Rightarrow> cds_state \<Rightarrow> bool" where
  "gp_empty tid gp s \<longleftrightarrow> gp_ptr tid gp s = 0"

definition gp_value :: "nat \<Rightarrow> guarded_ptr \<Rightarrow> cds_state \<Rightarrow> int64 option" where
  "gp_value tid gp s = (if gp_empty tid gp s then None else node_value (gp_ptr tid gp s) s)"

subsection \<open>The first and the last item\<close>

text \<open>The loop body of \<open>find_min_position\<close>; the head cannot be marked, which the code asserts.\<close>

definition min_step :: "nat \<Rightarrow> nat \<Rightarrow> addr \<Rightarrow> int \<Rightarrow> nat list \<Rightarrow> cds_state \<Rightarrow> (walk \<times> cds_state) option" where
  "min_step tid nLevel pPred nCmp gs s = do {
     (cur, s) \<leftarrow> protect tid (gs ! (nLevel * 2 + 1)) pPred nLevel s;
     if mp_bits cur \<noteq> 0 then None
     else if mp_ptr cur = 0 then Some (W_down 0 nCmp, s)
     else do {
       succ \<leftarrow> node_load (mp_ptr cur) nLevel s;
       again \<leftarrow> node_load pPred nLevel s;
       if mp_all again \<noteq> mp_ptr cur then Some (W_retry, s)
       else if mp_bits succ \<noteq> 0 then help_and_retry tid nLevel pPred cur s
       else Some (W_down (mp_ptr cur) nCmp, s)
     }
   }"

definition max_step :: "nat \<Rightarrow> nat \<Rightarrow> addr \<Rightarrow> int \<Rightarrow> nat list \<Rightarrow> cds_state \<Rightarrow> (walk \<times> cds_state) option" where
  "max_step tid nLevel pPred nCmp gs s =
     walk_step tid
       (\<lambda>cur succ s. if mp_ptr succ = 0 then Some (W_down cur nCmp, s)
                      else Some (W_next cur nCmp, copy tid gs (nLevel * 2) (nLevel * 2 + 1) s))
       (help_and_retry tid nLevel pPred) nLevel pPred nCmp gs s"

definition find_end ::
  "(nat \<Rightarrow> addr \<Rightarrow> int \<Rightarrow> nat list \<Rightarrow> cds_state \<Rightarrow> (walk \<times> cds_state) option) \<Rightarrow> nat \<Rightarrow> addr
    \<Rightarrow> position \<Rightarrow> cds_state \<Rightarrow> (bool \<times> position \<times> cds_state) option" where
  "find_end step tid head pos s = do {
     (w, pos, s) \<leftarrow> walk_levels step tid head pos s;
     case w of
       W_down cur _ \<Rightarrow> Some (cur \<noteq> 0, pos\<lparr>pCur := cur\<rparr>, s)
     | _ \<Rightarrow> None
   }"

definition find_min_position :: "nat \<Rightarrow> addr \<Rightarrow> position \<Rightarrow> cds_state \<Rightarrow> (bool \<times> position \<times> cds_state) option" where
  "find_min_position tid head pos s = find_end (min_step tid) tid head pos s"

definition find_max_position :: "nat \<Rightarrow> addr \<Rightarrow> position \<Rightarrow> cds_state \<Rightarrow> (bool \<times> position \<times> cds_state) option" where
  "find_max_position tid head pos s = find_end (max_step tid) tid head pos s"

subsection \<open>Extracting\<close>

text \<open>The loop of the three functions, with the function that finds the position: it starts again when another
  thread removed the item first.\<close>

partial_function (option) extract_loop ::
  "nat \<Rightarrow> addr \<Rightarrow> (position \<Rightarrow> cds_state \<Rightarrow> (bool \<times> position \<times> cds_state) option) \<Rightarrow> position \<Rightarrow> guarded_ptr
    \<Rightarrow> cds_state \<Rightarrow> (guarded_ptr \<times> position \<times> cds_state) option" where
  "extract_loop tid head finder pos gp s = do {
     (found, pos, s) \<leftarrow> finder pos s;
     if \<not> found then Some (None, pos, gp_release tid gp s)
     else do {
       let pDel = pCur pos;
       (gp, s) \<leftarrow> gp_reset tid gp pDel s;
       (ok, pos, s) \<leftarrow> try_remove_at tid head pDel pos s;
       if ok then Some (gp, pos, s) else extract_loop tid head finder pos gp s
     }
   }"

definition extract_by ::
  "nat \<Rightarrow> addr \<Rightarrow> (position \<Rightarrow> cds_state \<Rightarrow> (bool \<times> position \<times> cds_state) option) \<Rightarrow> cds_state
    \<Rightarrow> (guarded_ptr \<times> cds_state) option" where
  "extract_by tid head finder s = do {
     (pos, s) \<leftarrow> new_position tid s;
     (gp, pos, s) \<leftarrow> extract_loop tid head finder pos None s;
     Some (gp, drop_position tid pos s)
   }"

definition set_extract :: "nat \<Rightarrow> addr \<Rightarrow> int64 \<Rightarrow> cds_state \<Rightarrow> (guarded_ptr \<times> cds_state) option" where
  "set_extract tid head val s = extract_by tid head (find_position tid head val False) s"

definition set_extract_min :: "nat \<Rightarrow> addr \<Rightarrow> cds_state \<Rightarrow> (guarded_ptr \<times> cds_state) option" where
  "set_extract_min tid head s = extract_by tid head (find_min_position tid head) s"

definition set_extract_max :: "nat \<Rightarrow> addr \<Rightarrow> cds_state \<Rightarrow> (guarded_ptr \<times> cds_state) option" where
  "set_extract_max tid head s = extract_by tid head (find_max_position tid head) s"

text \<open>\<open>clear\<close>: the guarded pointer of each turn is destroyed at the end of the loop condition.\<close>

partial_function (option) set_clear :: "nat \<Rightarrow> addr \<Rightarrow> cds_state \<Rightarrow> cds_state option" where
  "set_clear tid head s = do {
     (gp, s) \<leftarrow> set_extract_min tid head s;
     let more = \<not> gp_empty tid gp s;
     let s = gp_release tid gp s;
     if more then set_clear tid head s else Some s
   }"

text \<open>\<open>unlink\<close> removes the item at \<open>pNode\<close> only, not another one with the same value.\<close>

definition set_unlink :: "nat \<Rightarrow> addr \<Rightarrow> addr \<Rightarrow> cds_state \<Rightarrow> (bool \<times> cds_state) option" where
  "set_unlink tid head pNode s = do {
     (pos, s) \<leftarrow> new_position tid s;
     val \<leftarrow> node_value pNode s;
     (found, pos, s) \<leftarrow> find_position tid head val False pos s;
     if \<not> found then Some (False, drop_position tid pos s)
     else do {
       let pDel = pCur pos;
       (gDel, s) \<leftarrow> new_guard tid s;
       let s = assign tid gDel pDel s;
       (r, pos, s) \<leftarrow> (if pDel = pNode then try_remove_at tid head pDel pos s else Some (False, pos, s));
       Some (r, drop_position tid pos (drop_guard tid gDel s))
     }
   }"

subsection \<open>Finding the first item\<close>

lemma list_ok_head_link:
  assumes "list_ok ns head xs" and "l < 32"
  shows "link ns l head = Some (first_or_null (lev l xs))"
proof -
  have "path ns l head (lev l xs) 0" using assms by (simp add: list_ok_def)
  from path_link [OF this, of "[]" head "lev l xs"] show ?thesis by (simp add: first_or_null_hd)
qed

lemma lev_item:
  assumes ok: "list_ok (c_nodes s) head xs" and l: "l < 32" and c: "c \<in> set (lev l xs)"
  obtains d where "link (c_nodes s) l c = Some d" "aligned d" "aligned c" "c \<noteq> 0"
proof -
  from c ok obtain k h where "item_ok (c_nodes s) (c, k, h)" by (auto elim: list_ok_item)
  then have "aligned c" "c \<noteq> 0" by (simp_all add: item_ok_def)
  moreover obtain d where "link (c_nodes s) l c = Some d" "aligned d" by (rule list_ok_link_item [OF ok l c])
  ultimately show ?thesis using that by blast
qed

lemma min_level:
  assumes ok: "list_ok (c_nodes s) head xs" and tid: "tid_ok tid s" and l: "l < 32" and pos: "length gs = 64"
  shows "\<exists>hs'. hs_upd (set gs) hs hs' \<and>
    min_step tid l head n gs (wg tid hs fr s) = Some (W_down (first_or_null (lev l xs)) n, wg tid hs' fr s)"
proof -
  let ?g = "gs ! (l * 2 + 1)"
  have g: "?g \<in> set gs" using pos l by (intro nth_mem) simp
  note lk = list_ok_head_link [OF ok l]
  show ?thesis
  proof (cases "lev l xs")
    case Nil
    then show ?thesis
      using lk tid g by (intro exI [of _ "hs[?g := 0]"]) (simp add: min_step_def)
  next
    case (Cons c cs)
    then obtain d where d: "link (c_nodes s) l c = Some d" "aligned d" "aligned c" "c \<noteq> 0"
      using lev_item [OF ok l, of c] by auto
    then show ?thesis
      using lk tid g Cons
      by (intro exI [of _ "hs[?g := c]"]) (simp add: min_step_def node_load_link mp_all_def)
  qed
qed

lemma find_min_loop:
  assumes ok: "list_ok (c_nodes s) head xs" and tid: "tid_ok tid s"
  shows "l < 32 \<Longrightarrow> pos_ok pos gs \<Longrightarrow> \<forall>j. l < j \<and> j < 32 \<longrightarrow> pPrev pos ! j = head \<Longrightarrow>
    \<exists>hs' pos'. hs_upd (set gs) hs hs' \<and> pos_ok pos' gs \<and> (\<forall>j < 32. pPrev pos' ! j = head) \<and>
      walk_loop (min_step tid) tid head l head n pos (wg tid hs fr s) =
        Some (W_down (first_or_null (lev 0 xs)) n, pos', wg tid hs' fr s)"
proof (induction l arbitrary: pos hs)
  case (0 pos hs)
  then have gs: "guards pos = gs" "length gs = 64" by (simp_all add: pos_ok_def)
  obtain hs1 where 1: "hs_upd (set gs) hs hs1"
    "min_step tid 0 head n gs (wg tid hs fr s) = Some (W_down (first_or_null (lev 0 xs)) n, wg tid hs1 fr s)"
    using min_level [OF ok tid 0(1) gs(2), where n = n and hs = hs and fr = fr] by blast
  let ?pos = "pos\<lparr>pPrev := (pPrev pos)[0 := head], pSucc := (pSucc pos)[0 := first_or_null (lev 0 xs)]\<rparr>"
  have "\<forall>j < 32. pPrev ?pos ! j = head" using 0(2,3) by (auto simp: pos_ok_def nth_list_update)
  moreover have "pos_ok ?pos gs" using 0(2) by (simp add: pos_ok_def)
  ultimately show ?case
    using 1 gs(1) by (intro exI [of _ hs1] exI [of _ ?pos]) (subst walk_loop.simps, simp)
next
  case (Suc l pos hs)
  then have gs: "guards pos = gs" "length gs = 64" by (simp_all add: pos_ok_def)
  let ?c = "first_or_null (lev (Suc l) xs)"
  obtain hs1 where 1: "hs_upd (set gs) hs hs1"
    "min_step tid (Suc l) head n gs (wg tid hs fr s) = Some (W_down ?c n, wg tid hs1 fr s)"
    using min_level [OF ok tid Suc.prems(1) gs(2), where n = n and hs = hs and fr = fr] by blast
  let ?pos = "pos\<lparr>pPrev := (pPrev pos)[Suc l := head], pSucc := (pSucc pos)[Suc l := ?c]\<rparr>"
  let ?hs = "hs1[gs ! (l * 2) := head]"
  have "\<forall>j. l < j \<and> j < 32 \<longrightarrow> pPrev ?pos ! j = head"
    using Suc.prems by (auto simp: pos_ok_def nth_list_update)
  moreover have "pos_ok ?pos gs" using Suc.prems(2) by (simp add: pos_ok_def)
  ultimately obtain hs' pos' where 2: "hs_upd (set gs) ?hs hs'" "pos_ok pos' gs" "\<forall>j < 32. pPrev pos' ! j = head"
      "walk_loop (min_step tid) tid head l head n ?pos (wg tid ?hs fr s) =
        Some (W_down (first_or_null (lev 0 xs)) n, pos', wg tid hs' fr s)"
    using Suc.IH [of ?pos ?hs] Suc.prems(1) by auto
  have "gs ! (l * 2) \<in> set gs" using Suc.prems(1) gs(2) by (intro nth_mem) simp
  then have "hs_upd (set gs) hs hs'" using 1(1) 2(1) hs_upd_trans hs_upd_update by blast
  moreover have "walk_loop (min_step tid) tid head (Suc l) head n pos (wg tid hs fr s) =
      walk_loop (min_step tid) tid head l head n ?pos (wg tid ?hs fr s)"
    using 1(2) gs(1) tid by (subst walk_loop.simps) (simp add: Let_def)
  ultimately show ?case using 2 by metis
qed

lemma find_min_position_spec:
  assumes ok: "list_ok (c_nodes s) head xs" and tid: "tid_ok tid s" and pos: "pos_ok pos gs"
  shows "\<exists>hs' pos'. hs_upd (set gs) hs hs' \<and> pos_ok pos' gs \<and>
    find_min_position tid head pos (wg tid hs fr s) = Some (xs \<noteq> [], pos', wg tid hs' fr s) \<and>
    (xs \<noteq> [] \<longrightarrow> pCur pos' = it_addr (hd xs) \<and> (\<forall>j < 32. pPrev pos' ! j = head))"
proof -
  let ?hs = "hs[gs ! 62 := head]"
  have up: "hs_upd (set gs) hs ?hs" using pos by (simp add: pos_ok_def)
  have none: "\<forall>j. 31 < j \<and> j < 32 \<longrightarrow> pPrev pos ! j = head" by (intro allI impI, elim conjE) linarith
  obtain hs' pos' where r: "hs_upd (set gs) ?hs hs'" "pos_ok pos' gs" "\<forall>j < 32. pPrev pos' ! j = head"
      "walk_loop (min_step tid) tid head 31 head 1 pos (wg tid ?hs fr s) =
        Some (W_down (first_or_null (lev 0 xs)) 1, pos', wg tid hs' fr s)"
    using find_min_loop [OF ok tid _ pos none, of ?hs 1 fr] by auto
  have items: "\<forall>i \<in> set xs. item_ok (c_nodes s) i" using ok by (simp add: list_ok_def)
  have c: "first_or_null (lev 0 xs) = (if xs = [] then 0 else it_addr (hd xs))"
    using lev_0(1) [OF items] by (cases xs) simp_all
  have nz: "xs \<noteq> [] \<Longrightarrow> it_addr (hd xs) \<noteq> 0" using items by (cases xs) (auto simp: item_ok_def)
  have "walk_levels (min_step tid) tid head pos (wg tid hs fr s) =
      Some (W_down (first_or_null (lev 0 xs)) 1, pos', wg tid hs' fr s)"
    using r(4) pos tid by (simp add: walk_levels_def pos_ok_def)
  then show ?thesis
    using r(1-3) hs_upd_trans [OF up] c nz
    by (intro exI [of _ hs'] exI [of _ "pos'\<lparr>pCur := first_or_null (lev 0 xs)\<rparr>"])
      (simp add: find_min_position_def find_end_def pos_ok_def)
qed


subsection \<open>Finding the last item\<close>

text \<open>Where \<open>find_max_position\<close> stops at a level: before the last item there.\<close>

definition before_last :: "addr \<Rightarrow> nat \<Rightarrow> item list \<Rightarrow> addr" where
  "before_last head l xs = (if lev l xs = [] then head else last (butlast (head # lev l xs)))"

lemma butlast_lev: "set (butlast (head # lev (Suc l) xs)) \<subseteq> set (butlast (head # lev l xs))"
proof (induction xs rule: rev_induct)
  case (snoc i xs)
  obtain a k h where i: "i = (a, k, h)" by (cases i)
  have sub: "set (lev (Suc l) xs) \<subseteq> set (lev l xs)" by (rule lev_mono) simp
  have b: "butlast (head # zs @ [z]) = head # zs" for zs and z :: addr by (simp add: butlast_append)
  have "set (butlast (head # lev (Suc l) xs)) \<subseteq> set (head # lev (Suc l) xs)" by (meson in_set_butlastD subsetI)
  then show ?case using snoc sub by (auto simp: i b simp del: butlast.simps)
qed simp

lemma before_last_mem:
  "before_last head (Suc l) xs = head \<or> before_last head (Suc l) xs \<in> set (butlast (head # lev l xs))"
proof (cases "lev (Suc l) xs = []")
  case False
  then have "butlast (head # lev (Suc l) xs) \<noteq> []" by simp
  then have "last (butlast (head # lev (Suc l) xs)) \<in> set (butlast (head # lev (Suc l) xs))" by (rule last_in_set)
  then show ?thesis using False butlast_lev [of head l xs] by (auto simp: before_last_def simp del: butlast.simps)
qed (simp add: before_last_def)

lemma path_split_link:
  assumes ok: "list_ok ns head xs" and l: "l < 32" and split: "head # lev l xs = as @ p # bs"
  shows "link ns l p = Some (first_or_null bs)"
proof -
  have "path ns l head (lev l xs) 0" using ok l by (simp add: list_ok_def)
  from path_link [OF this split] show ?thesis by (simp add: first_or_null_hd)
qed

lemma max_inner:
  assumes ok: "list_ok (c_nodes s) head xs" and tid: "tid_ok tid s" and l: "l < 32" and pos: "pos_ok pos gs"
  shows "head # lev l xs = as @ p # bs @ [z] \<Longrightarrow>
    \<exists>hs'. hs_upd (set gs) hs hs' \<and>
      walk_loop (max_step tid) tid head l p n pos (wg tid hs fr s) =
      walk_loop (max_step tid) tid head l (last (p # bs)) n pos (wg tid hs' fr s)"
proof (induction bs arbitrary: as p hs)
  case Nil
  show ?case by (intro exI [of _ hs]) simp
next
  case (Cons b bs)
  have lp: "link (c_nodes s) l p = Some b" using path_split_link [OF ok l, of as p "b # bs @ [z]"] Cons.prems by simp
  have split: "head # lev l xs = (as @ [p]) @ b # bs @ [z]" using Cons.prems by simp
  have lb: "link (c_nodes s) l b = Some (first_or_null (bs @ [z]))" by (rule path_split_link [OF ok l split])
  have mem: "b \<in> set (lev l xs)" "set (bs @ [z]) \<subseteq> set (lev l xs)" using split by (cases as; auto)+
  obtain d where d: "link (c_nodes s) l b = Some d" "aligned d" "aligned b" "b \<noteq> 0" by (rule lev_item [OF ok l mem(1)])
  have "first_or_null (bs @ [z]) \<in> set (lev l xs)" using mem(2) by (cases bs) simp_all
  from lev_item [OF ok l this] have "first_or_null (bs @ [z]) \<noteq> 0" by blast
  moreover have "first_or_null (bs @ [z]) = d" using trans [OF lb [symmetric] d(1)] by (rule option.inject [THEN iffD1])
  ultimately have nz: "d \<noteq> 0" by metis
  let ?g = "gs ! (l * 2)" and ?g1 = "gs ! (l * 2 + 1)"
  let ?hs = "hs[?g1 := b, ?g := hs[?g1 := b] ! ?g1]"
  have step: "max_step tid l p n gs (wg tid hs fr s) = Some (W_next b n, wg tid ?hs fr s)"
    using lp d nz tid by (simp add: max_step_def walk_step_def node_load_link mp_all_def)
  have g: "?g \<in> set gs" "?g1 \<in> set gs" using pos l by (auto simp: pos_ok_def)
  have up: "hs_upd (set gs) hs ?hs" by (rule hs_upd_trans [OF hs_upd_update [OF g(2)] hs_upd_update [OF g(1)]])
  obtain hs' where rest: "hs_upd (set gs) ?hs hs'"
    "walk_loop (max_step tid) tid head l b n pos (wg tid ?hs fr s) =
      walk_loop (max_step tid) tid head l (last (b # bs)) n pos (wg tid hs' fr s)"
    using Cons.IH [OF split] by blast
  have "walk_loop (max_step tid) tid head l p n pos (wg tid hs fr s) =
      walk_loop (max_step tid) tid head l b n pos (wg tid ?hs fr s)"
    using step pos by (subst walk_loop.simps) (simp add: pos_ok_def)
  then show ?case using rest hs_upd_trans [OF up] by (intro exI [of _ hs']) simp
qed

text \<open>One level, from a place at or before the one where it stops.\<close>

lemma max_level:
  assumes ok: "list_ok (c_nodes s) head xs" and tid: "tid_ok tid s" and l: "l < 32" and pos: "pos_ok pos gs"
    and p: "p = head \<or> p \<in> set (butlast (head # lev l xs))"
  defines "q \<equiv> before_last head l xs" and "c \<equiv> (if lev l xs = [] then 0 else last (lev l xs))"
  shows "\<exists>hs1 hs'. hs_upd (set gs) hs hs' \<and>
    walk_loop (max_step tid) tid head l p n pos (wg tid hs fr s) =
      walk_loop (max_step tid) tid head l q n pos (wg tid hs1 fr s) \<and>
    max_step tid l q n gs (wg tid hs1 fr s) = Some (W_down c n, wg tid hs' fr s)"
proof (cases "lev l xs = []")
  case True
  then have p: "p = head" "q = head" "c = 0" using p by (simp_all add: q_def c_def before_last_def)
  have "gs ! (l * 2 + 1) \<in> set gs" using pos l by (simp add: pos_ok_def)
  moreover have "link (c_nodes s) l head = Some 0" using list_ok_head_link [OF ok l] True by simp
  ultimately show ?thesis
    using p tid by (intro exI [of _ hs] exI [of _ "hs[gs ! (l * 2 + 1) := 0]"]) (simp add: max_step_def walk_step_def)
next
  case False
  let ?B = "butlast (head # lev l xs)"
  have c: "c = last (lev l xs)" "c \<in> set (lev l xs)" using False by (simp_all add: c_def)
  have all: "head # lev l xs = ?B @ [c]"
    using False append_butlast_last_id [of "head # lev l xs"] by (simp add: c_def)
  have "head \<in> set ?B" using False by simp
  then have "p \<in> set ?B" using p by blast
  then obtain as bs where B: "?B = as @ p # bs" by (meson split_list)
  have split: "head # lev l xs = as @ p # bs @ [c]" using all B by simp
  have q: "q = last (p # bs)" using False B by (simp add: q_def before_last_def del: butlast.simps)
  obtain hs1 where 1: "hs_upd (set gs) hs hs1" "walk_loop (max_step tid) tid head l p n pos (wg tid hs fr s) =
      walk_loop (max_step tid) tid head l q n pos (wg tid hs1 fr s)"
    using max_inner [OF ok tid l pos split, of hs n fr] q by blast
  have lq: "link (c_nodes s) l q = Some c"
  proof -
    have "p # bs = butlast (p # bs) @ [q]" using q by simp
    then have "head # lev l xs = (as @ butlast (p # bs)) @ q # [c]" using split by (metis append.assoc append_Cons append_Nil)
    from path_split_link [OF ok l this] show ?thesis by simp
  qed
  have lc: "link (c_nodes s) l c = Some 0"
    using path_split_link [OF ok l, of "as @ p # bs" c "[]"] split by simp
  obtain d where d: "aligned c" "c \<noteq> 0" using lev_item [OF ok l c(2)] by blast
  let ?hs = "hs1[gs ! (l * 2 + 1) := c]"
  have "max_step tid l q n gs (wg tid hs1 fr s) = Some (W_down c n, wg tid ?hs fr s)"
    using lq lc d tid by (simp add: max_step_def walk_step_def node_load_link mp_all_def)
  moreover have "hs_upd (set gs) hs ?hs"
    using pos l by (intro hs_upd_trans [OF 1(1)] hs_upd_update) (simp add: pos_ok_def)
  ultimately show ?thesis using 1(2) by blast
qed

lemma find_max_loop:
  assumes ok: "list_ok (c_nodes s) head xs" and tid: "tid_ok tid s"
  shows "l < 32 \<Longrightarrow> pos_ok pos gs \<Longrightarrow> p = head \<or> p \<in> set (butlast (head # lev l xs)) \<Longrightarrow>
    \<forall>j. l < j \<and> j < 32 \<longrightarrow> pPrev pos ! j = before_last head j xs \<Longrightarrow>
    \<exists>hs' pos'. hs_upd (set gs) hs hs' \<and> pos_ok pos' gs \<and> (\<forall>j < 32. pPrev pos' ! j = before_last head j xs) \<and>
      walk_loop (max_step tid) tid head l p n pos (wg tid hs fr s) =
        Some (W_down (if lev 0 xs = [] then 0 else last (lev 0 xs)) n, pos', wg tid hs' fr s)"
proof (induction l arbitrary: pos p hs)
  case (0 pos p hs)
  then have gs: "guards pos = gs" by (simp add: pos_ok_def)
  let ?q = "before_last head 0 xs" and ?c = "if lev 0 xs = [] then 0 else last (lev 0 xs)"
  obtain hs1 hs2 where 1: "hs_upd (set gs) hs hs2" "walk_loop (max_step tid) tid head 0 p n pos (wg tid hs fr s) =
      walk_loop (max_step tid) tid head 0 ?q n pos (wg tid hs1 fr s)"
    "max_step tid 0 ?q n gs (wg tid hs1 fr s) = Some (W_down ?c n, wg tid hs2 fr s)"
    using max_level [OF ok tid 0(1,2,3), of hs n fr] by blast
  let ?pos = "pos\<lparr>pPrev := (pPrev pos)[0 := ?q], pSucc := (pSucc pos)[0 := ?c]\<rparr>"
  have "\<forall>j < 32. pPrev ?pos ! j = before_last head j xs" using 0(2,4) by (auto simp: pos_ok_def nth_list_update)
  moreover have "pos_ok ?pos gs" using 0(2) by (simp add: pos_ok_def)
  moreover have "walk_loop (max_step tid) tid head 0 ?q n pos (wg tid hs1 fr s) =
      Some (W_down ?c n, ?pos, wg tid hs2 fr s)"
    using 1(3) gs by (subst walk_loop.simps) simp
  ultimately show ?case using 1(1,2) by metis
next
  case (Suc l pos p hs)
  then have gs: "guards pos = gs" "length gs = 64" by (simp_all add: pos_ok_def)
  let ?q = "before_last head (Suc l) xs" and ?c = "if lev (Suc l) xs = [] then 0 else last (lev (Suc l) xs)"
  obtain hs1 hs2 where 1: "hs_upd (set gs) hs hs2" "walk_loop (max_step tid) tid head (Suc l) p n pos (wg tid hs fr s) =
      walk_loop (max_step tid) tid head (Suc l) ?q n pos (wg tid hs1 fr s)"
    "max_step tid (Suc l) ?q n gs (wg tid hs1 fr s) = Some (W_down ?c n, wg tid hs2 fr s)"
    using max_level [OF ok tid Suc.prems(1-3), of hs n fr] by blast
  let ?pos = "pos\<lparr>pPrev := (pPrev pos)[Suc l := ?q], pSucc := (pSucc pos)[Suc l := ?c]\<rparr>"
  let ?hs = "hs2[gs ! (l * 2) := ?q]"
  have "\<forall>j. l < j \<and> j < 32 \<longrightarrow> pPrev ?pos ! j = before_last head j xs"
    using Suc.prems by (auto simp: pos_ok_def nth_list_update)
  moreover have "pos_ok ?pos gs" using Suc.prems(2) by (simp add: pos_ok_def)
  ultimately obtain hs' pos' where 2: "hs_upd (set gs) ?hs hs'" "pos_ok pos' gs"
      "\<forall>j < 32. pPrev pos' ! j = before_last head j xs"
      "walk_loop (max_step tid) tid head l ?q n ?pos (wg tid ?hs fr s) =
        Some (W_down (if lev 0 xs = [] then 0 else last (lev 0 xs)) n, pos', wg tid hs' fr s)"
    using Suc.IH [of ?pos ?q ?hs] Suc.prems(1) before_last_mem [of head l xs] by auto
  have "gs ! (l * 2) \<in> set gs" using Suc.prems(1) gs(2) by (intro nth_mem) simp
  then have "hs_upd (set gs) hs hs'" using 1(1) 2(1) hs_upd_trans hs_upd_update by blast
  moreover have "walk_loop (max_step tid) tid head (Suc l) ?q n pos (wg tid hs1 fr s) =
      walk_loop (max_step tid) tid head l ?q n ?pos (wg tid ?hs fr s)"
    using 1(3) gs(1) tid by (subst walk_loop.simps) (simp add: Let_def)
  ultimately show ?case using 1(2) 2 by metis
qed

lemma find_max_position_spec:
  assumes ok: "list_ok (c_nodes s) head xs" and tid: "tid_ok tid s" and pos: "pos_ok pos gs"
  shows "\<exists>hs' pos'. hs_upd (set gs) hs hs' \<and> pos_ok pos' gs \<and>
    find_max_position tid head pos (wg tid hs fr s) = Some (xs \<noteq> [], pos', wg tid hs' fr s) \<and>
    (xs \<noteq> [] \<longrightarrow> pCur pos' = it_addr (last xs) \<and> (\<forall>j < 32. pPrev pos' ! j = before_last head j xs))"
proof -
  let ?hs = "hs[gs ! 62 := head]" and ?c = "if lev 0 xs = [] then 0 else last (lev 0 xs)"
  have up: "hs_upd (set gs) hs ?hs" using pos by (simp add: pos_ok_def)
  have none: "\<forall>j. 31 < j \<and> j < 32 \<longrightarrow> pPrev pos ! j = before_last head j xs" by (intro allI impI, elim conjE) linarith
  obtain hs' pos' where r: "hs_upd (set gs) ?hs hs'" "pos_ok pos' gs" "\<forall>j < 32. pPrev pos' ! j = before_last head j xs"
      "walk_loop (max_step tid) tid head 31 head 1 pos (wg tid ?hs fr s) = Some (W_down ?c 1, pos', wg tid hs' fr s)"
    using find_max_loop [OF ok tid _ pos _ none, of head ?hs 1 fr] by auto
  have items: "\<forall>i \<in> set xs. item_ok (c_nodes s) i" using ok by (simp add: list_ok_def)
  have c: "?c = (if xs = [] then 0 else it_addr (last xs))"
    using lev_0(1) [OF items] by (simp add: last_map)
  have "item_ok (c_nodes s) (last xs)" if "xs \<noteq> []" using items that by simp
  then have nz: "xs \<noteq> [] \<Longrightarrow> it_addr (last xs) \<noteq> 0" by (auto simp: item_ok_def)
  have "walk_levels (max_step tid) tid head pos (wg tid hs fr s) = Some (W_down ?c 1, pos', wg tid hs' fr s)"
    using r(4) pos tid by (simp add: walk_levels_def pos_ok_def)
  then show ?thesis
    using r(1-3) hs_upd_trans [OF up] nz unfolding c
    by (intro exI [of _ hs'] exI [of _ "pos'\<lparr>pCur := ?c\<rparr>"])
      (simp add: find_max_position_def find_end_def pos_ok_def c del: if_split)
qed


subsection \<open>Extracting the item found\<close>

lemma gp_reset_wg [simp]:
  "tid_ok tid s \<Longrightarrow> gp_reset tid None p (wg tid hs (g # fr) s) = Some (Some g, wg tid (hs[g := p]) fr s)"
  by (simp add: gp_reset_def)

lemma gp_release_wg [simp]:
  "tid_ok tid s \<Longrightarrow> gp_release tid (Some g) (wg tid hs fr s) = wg tid (hs[g := 0]) (g # fr) s"
  by (simp add: gp_release_def)

lemma hazard_in_wg:
  assumes "tid_ok tid s" and "tr_owner (thread_of tid s) \<noteq> 0" and "g < length hs" and "hs ! g \<noteq> 0"
  shows "hs ! g \<in> set (hazard_ptrs (c_smr (wg tid hs fr s)))"
proof -
  have "smr_threads (c_smr (wg tid hs fr s)) ! tid = (thread_of tid s)\<lparr>tr_hazards := hs, tr_free := fr\<rparr>"
    using assms(1) by (simp add: wg_def set_thread_def tid_ok_def)
  then show ?thesis
    using assms unfolding set_hazard_ptrs by (auto simp: tid_ok_def intro!: exI [of _ tid])
qed

lemma hs_upd_same: "hs_upd G hs hs' \<Longrightarrow> hs_upd G (hs[g := p]) (hs'[g := p])"
  by (cases "g < length hs") (auto simp: hs_upd_def nth_list_update list_update_beyond)

text \<open>What a function that finds the position returns when the item \<open>(d, v, h)\<close> is the one to extract.\<close>

definition finds :: "nat \<Rightarrow> addr \<Rightarrow> item list \<Rightarrow> item \<Rightarrow> (position \<Rightarrow> cds_state \<Rightarrow> (bool \<times> position \<times> cds_state) option)
    \<Rightarrow> addr list \<Rightarrow> nat list \<Rightarrow> cds_state \<Rightarrow> bool" where
  "finds tid head xs it finder hs fr s \<longleftrightarrow> (\<forall>pos. pos_ok pos (take 64 fr) \<longrightarrow>
     (\<exists>hs' pos'. hs_upd (set (take 64 fr)) hs hs' \<and> pos_ok pos' (take 64 fr) \<and>
        finder pos (wg tid hs (drop 64 fr) s) = Some (True, pos', wg tid hs' (drop 64 fr) s) \<and>
        pCur pos' = it_addr it \<and> (\<forall>j < it_height it. pPrev pos' ! j = prev_at head xs (it_key it) j)))"

lemma extract_run:
  fixes v :: int64
  assumes ok: "list_ok (c_nodes s) head xs" and sok: "smr_ok (c_smr s)" and tid: "tid_ok tid s"
    and own: "tr_owner (thread_of tid s) \<noteq> 0"
    and fit: "guards_fit hs fr (hazard_ptr_count (c_smr s))" and len: "65 \<le> length fr"
    and ret: "blocks head xs \<inter> retired_set (c_smr s) = {}" "retired_set (c_smr s) \<subseteq> dom (c_nodes s)"
    and A: "above v xs = (d, v, h) # ys" and finder: "finds tid head xs (d, v, h) finder hs fr s"
  shows "\<exists>g ns freed kept fr1. extract_by tid head finder (wg tid hs fr s) =
      Some (Some g, wg tid (hs[g := d]) fr1 ((ret_state tid kept s)\<lparr>c_nodes := ns |` (- set freed)\<rparr>)) \<and>
    mset (g # fr1) = mset fr \<and> g < length hs \<and> hs ! g = 0 \<and>
    list_ok ns head (below v xs @ ys) \<and> dom ns = dom (c_nodes s) \<and> (\<forall>b. b \<notin> blocks head xs \<longrightarrow> ns b = c_nodes s b) \<and>
    smr_ok (c_smr (wg tid hs (g # fr1) (ret_state tid kept s))) \<and>
    set freed \<union> set kept = insert d (set (tr_retired (thread_of tid s))) \<and> set freed \<inter> set kept = {} \<and>
    d \<notin> set freed \<and> val_of ns d = Some (Some v)"
proof -
  let ?gs = "take 64 fr" and ?fr = "drop 64 fr"
  obtain g fr2 where fr2: "?fr = g # fr2" using len by (cases ?fr) auto
  let ?fr1 = "rev ?gs @ fr2"
  have dist: "distinct (?gs @ g # fr2)" using fit fr2 append_take_drop_id [of 64 fr] by (simp add: guards_fit_def)
  have fitd: "guards_fit hs (g # fr2) (hazard_ptr_count (c_smr s))"
    using guards_fit_take(2) [OF fit, of 64] fr2 by simp
  obtain pos where pos: "new_position tid (wg tid hs fr s) = Some (pos, wg tid hs (g # fr2) s)" "pos_ok pos ?gs"
    using new_position_wg [OF tid, of fr hs] len fr2 by auto
  obtain hs' pos' where r: "hs_upd (set ?gs) hs hs'" "pos_ok pos' ?gs"
    "finder pos (wg tid hs (g # fr2) s) = Some (True, pos', wg tid hs' (g # fr2) s)"
    "pCur pos' = d" "\<forall>j < h. pPrev pos' ! j = prev_at head xs v j"
    using finder pos(2) fr2 unfolding finds_def by force
  have mem: "(d, v, h) \<in> set xs" using above_subset [of v xs] A by auto
  then have item: "item_ok (c_nodes s) (d, v, h)" using ok by (simp add: list_ok_def)
  note f = item_ok_facts [OF item refl]
  let ?hs = "hs'[g := d]"
  have g: "g < length hs" "hs ! g = 0" "hs' ! g = 0" "g < length hs'" using fitd r(1) dist by (auto simp: guards_fit_def hs_upd_def)
  have fith: "guards_fit ?hs fr2 (hazard_ptr_count (c_smr s))"
    using fitd r(1) dist by (auto simp: guards_fit_def hs_upd_def nth_list_update)
  obtain ns freed kept where rm: "try_remove_at tid head d pos' (wg tid ?hs fr2 s) =
      Some (True, pos', wg tid ?hs fr2 ((ret_state tid kept s)\<lparr>c_nodes := ns |` (- set freed)\<rparr>))"
    "list_ok ns head (below v xs @ ys)" "dom ns = dom (c_nodes s)" "\<forall>b. b \<notin> blocks head xs \<longrightarrow> ns b = c_nodes s b"
    "smr_ok (c_smr (wg tid ?hs fr2 (ret_state tid kept s)))"
    "set freed \<union> set kept = insert d (set (tr_retired (thread_of tid s)))" "set freed \<inter> set kept = {}"
    "set freed \<inter> set (hazard_ptrs (c_smr (wg tid ?hs fr2 s))) = {}" "val_of ns d = val_of (c_nodes s) d"
    using remove_at_run [OF ok sok tid fith ret A r(5)] by blast
  let ?s2 = "(ret_state tid kept s)\<lparr>c_nodes := ns |` (- set freed)\<rparr>"
  have "extract_loop tid head finder pos None (wg tid hs (g # fr2) s) = Some (Some g, pos', wg tid ?hs fr2 ?s2)"
    using r(3,4) rm(1) tid by (subst extract_loop.simps) (simp add: Let_def)
  moreover have "drop_position tid pos' (wg tid ?hs fr2 ?s2) = wg tid (hs[g := d]) ?fr1 ?s2"
  proof (rule drop_position_wg [OF _ r(2) hs_upd_same [OF r(1)]])
    show "tid_ok tid ?s2" using tid by simp
    have "g \<notin> set ?gs" using dist by simp
    then show "\<forall>g' \<in> set ?gs. g' < length (hs[g := d]) \<and> hs[g := d] ! g' = 0"
      using guards_fit_take(1) [OF fit, of 64] g(1) by (metis length_list_update nth_list_update_neq)
  qed
  ultimately have run: "extract_by tid head finder (wg tid hs fr s) = Some (Some g, wg tid (hs[g := d]) ?fr1 ?s2)"
    using pos(1) by (simp add: extract_by_def)
  have m: "mset (g # ?fr1) = mset fr"
    using arg_cong [OF append_take_drop_id [of 64 fr], of mset] fr2 by simp
  have "guards_fit hs (g # ?fr1) (hazard_ptr_count (c_smr s))"
    using fit mset_eq_imp_distinct_iff [OF m] mset_eq_setD [OF m] unfolding guards_fit_def by simp
  then have sok2: "smr_ok (c_smr (wg tid hs (g # ?fr1) (ret_state tid kept s)))"
    using smr_ok_rewg [OF rm(5)] tid by simp
  have "?hs ! g \<in> set (hazard_ptrs (c_smr (wg tid ?hs fr2 s)))"
    using tid own g(4) f(1) by (intro hazard_in_wg) simp_all
  then have "d \<notin> set freed" using rm(8) g(4) by auto
  moreover have "val_of ns d = Some (Some v)" using rm(9) f(3) by (auto simp: node_value_def bind_eq_Some_conv)
  ultimately show ?thesis using run m g(1,2) rm(2-4,6,7) sok2 by blast
qed

lemma attached_wg [simp]:
  "attached tid (wg tid hs fr s) = attached tid s" "attached tid (ret_state tid kept s) = attached tid s"
  "attached tid (c_nodes_update f s) = attached tid s"
  by (auto simp: attached_def ret_state_thread)

text \<open>What the caller of \<open>extract\<close> holds: a guarded pointer to a node with the value, which is allocated
  although it is no longer in the set and which a hazard pointer protects; when the pointer is released, every
  guard is free again and the set has lost the value.\<close>

definition extracted :: "nat \<Rightarrow> (addr \<rightharpoonup> item list) \<Rightarrow> int64 \<Rightarrow> guarded_ptr \<Rightarrow> cds_state \<Rightarrow> bool" where
  "extracted tid F v gp s \<longleftrightarrow> gp_value tid gp s = Some v \<and> gp_ptr tid gp s \<in> set (hazard_ptrs (c_smr s)) \<and>
     cds_inv (gp_release tid gp s) F"

lemma extract_found:
  fixes v :: int64
  assumes inv: "cds_inv s F" and F: "F head = Some xs" and tid: "attached tid s"
    and A: "above v xs = (d, v, h) # ys"
    and finder: "finds tid head xs (d, v, h) finder (tr_hazards (thread_of tid s)) (tr_free (thread_of tid s)) s"
  shows "\<exists>gp s'. extract_by tid head finder s = Some (gp, s') \<and> extracted tid (F(head \<mapsto> below v xs @ ys)) v gp s' \<and>
    keys (below v xs @ ys) = keys xs - {v} \<and> attached tid (gp_release tid gp s') \<and> \<not> gp_empty tid gp s' \<and>
    same_threads s (gp_release tid gp s')"
proof -
  note i = cds_invD [OF inv] and o = others_disjoint [OF inv, of head]
  have t: "tid_ok tid s" "tr_owner (thread_of tid s) \<noteq> 0" using tid by (simp_all add: attached_def)
  let ?hs = "tr_hazards (thread_of tid s)" and ?fr = "tr_free (thread_of tid s)"
  note fit = collector_ok_fit [OF i(1) t(1)]
  have len: "65 \<le> length ?fr" using fit(2) by linarith
  have sok: "smr_ok (c_smr s)" using i(1) by (simp add: collector_ok_def)
  have rd: "retired_set (c_smr s) \<subseteq> dom (c_nodes s)" using o(4) [OF F] by blast
  obtain g ns freed kept fr1 where r: "extract_by tid head finder s =
      Some (Some g, wg tid (?hs[g := d]) fr1 ((ret_state tid kept s)\<lparr>c_nodes := ns |` (- set freed)\<rparr>))"
    "mset (g # fr1) = mset ?fr" "g < length ?hs" "?hs ! g = 0"
    "list_ok ns head (below v xs @ ys)" "dom ns = dom (c_nodes s)" "\<forall>b. b \<notin> blocks head xs \<longrightarrow> ns b = c_nodes s b"
    "smr_ok (c_smr (wg tid ?hs (g # fr1) (ret_state tid kept s)))"
    "set freed \<union> set kept = insert d (set (tr_retired (thread_of tid s)))" "set freed \<inter> set kept = {}"
    "d \<notin> set freed" "val_of ns d = Some (Some v)"
    using extract_run [OF i(4) [OF F] sok t fit(1) len i(5) [OF F] rd A finder, unfolded wg_id] by blast
  let ?s2 = "(ret_state tid kept s)\<lparr>c_nodes := ns |` (- set freed)\<rparr>"
  let ?s' = "wg tid (?hs[g := d]) fr1 ?s2"
  note rem = removed_inv [OF inv F t(1) A r(2,5-10)]
  have mem: "(d, v, h) \<in> set xs" using above_subset [of v xs] A by auto
  then have "item_ok (c_nodes s) (d, v, h)" using i(4) [OF F] by (simp add: list_ok_def)
  then have d0: "d \<noteq> 0" by (simp add: item_ok_def)
  have t2: "tid_ok tid ?s2" using t(1) by simp
  have "?hs[g := d, g := 0] = ?hs" using r(3,4) list_update_id [of ?hs g] by simp
  then have rel: "gp_release tid (Some g) ?s' = wg tid ?hs (g # fr1) ?s2" using t2 by simp
  have ptr: "gp_ptr tid (Some g) ?s' = d" using t2 r(3) by (simp add: gp_ptr_def guard_get_def)
  have "gp_value tid (Some g) ?s' = Some v"
    using r(11,12) d0 unfolding gp_value_def gp_empty_def ptr by (auto simp: node_value_def restrict_map_def)
  moreover have "gp_ptr tid (Some g) ?s' \<in> set (hazard_ptrs (c_smr ?s'))"
  proof -
    have "?hs[g := d] ! g \<in> set (hazard_ptrs (c_smr ?s'))"
      using t t2 r(3) d0 by (intro hazard_in_wg) (simp_all add: ret_state_thread)
    then show ?thesis unfolding ptr using r(3) by simp
  qed
  ultimately have "extracted tid (F(head \<mapsto> below v xs @ ys)) v (Some g) ?s'"
    using rem unfolding extracted_def rel by blast
  then show ?thesis
    using r(1) rem rel tid d0 ptr by (intro exI [of _ "Some g"] exI [of _ ?s']) (simp add: gp_empty_def)
qed

text \<open>Nothing to extract.\<close>

lemma extract_none:
  assumes inv: "cds_inv s F" and tid: "attached tid s"
    and finder: "\<And>pos. pos_ok pos (take 64 (tr_free (thread_of tid s))) \<Longrightarrow>
      \<exists>hs' pos'. hs_upd (set (take 64 (tr_free (thread_of tid s)))) (tr_hazards (thread_of tid s)) hs' \<and>
        pos_ok pos' (take 64 (tr_free (thread_of tid s))) \<and>
        finder pos (wg tid (tr_hazards (thread_of tid s)) (drop 64 (tr_free (thread_of tid s))) s) =
          Some (False, pos', wg tid hs' (drop 64 (tr_free (thread_of tid s))) s)"
  shows "\<exists>s'. extract_by tid head finder s = Some (None, s') \<and> cds_inv s' F \<and> c_nodes s' = c_nodes s \<and>
    attached tid s' \<and> same_threads s s'"
proof -
  have t: "tid_ok tid s" using tid by (simp add: attached_def)
  let ?hs = "tr_hazards (thread_of tid s)" and ?fr = "tr_free (thread_of tid s)"
  note fit = collector_ok_fit [OF cds_invD(1) [OF inv] t]
  obtain pos where pos: "new_position tid s = Some (pos, wg tid ?hs (drop 64 ?fr) s)" "pos_ok pos (take 64 ?fr)"
    using new_position_wg [OF t, of ?fr ?hs] fit(2) wg_id by fastforce
  obtain hs' pos' where r: "hs_upd (set (take 64 ?fr)) ?hs hs'" "pos_ok pos' (take 64 ?fr)"
    "finder pos (wg tid ?hs (drop 64 ?fr) s) = Some (False, pos', wg tid hs' (drop 64 ?fr) s)"
    using finder [OF pos(2)] by blast
  let ?s' = "wg tid ?hs (rev (take 64 ?fr) @ drop 64 ?fr) s"
  have "drop_position tid pos' (wg tid hs' (drop 64 ?fr) s) = ?s'"
    by (rule drop_position_wg [OF t r(2,1) guards_fit_take(1) [OF fit(1)]])
  then have "extract_by tid head finder s = Some (None, ?s')"
    using pos(1) r(3) by (simp add: extract_by_def extract_loop.simps [of tid head finder] gp_release_def)
  moreover have "cds_inv ?s' F" by (rule cds_inv_wg [OF inv t mset_take_drop])
  ultimately show ?thesis using tid by auto
qed


subsection \<open>The operations\<close>

lemma sorted_split:
  assumes "sorted_wrt (<) (map (\<lambda>i. sint (it_key i)) (bs @ i # ys))"
  shows "below (it_key i) (bs @ i # ys) = bs" "above (it_key i) (bs @ i # ys) = i # ys"
  using assms by (auto simp: below_def above_def sorted_wrt_append)

lemma finds_position:
  fixes v :: int64
  assumes ok: "list_ok (c_nodes s) head xs" and tid: "tid_ok tid s" and A: "above v xs = (d, v, h) # ys" and h: "h \<le> 32"
  shows "finds tid head xs (d, v, h) (find_position tid head v False) hs fr s"
proof -
  have "hit v xs" using A by (simp add: hit_def)
  then show ?thesis
    unfolding finds_def
    using find_position_spec [OF ok tid, of _ "take 64 fr" hs v False "drop 64 fr"] A h
    by (fastforce simp: neighbours_def)
qed

lemma set_extract_spec:
  fixes v :: int64
  assumes inv: "cds_inv s F" and F: "F head = Some xs" and tid: "attached tid s"
  shows "if v \<in> keys xs
    then \<exists>gp s' xs'. set_extract tid head v s = Some (gp, s') \<and> extracted tid (F(head \<mapsto> xs')) v gp s' \<and>
      keys xs' = keys xs - {v}
    else \<exists>s'. set_extract tid head v s = Some (None, s') \<and> cds_inv s' F \<and> c_nodes s' = c_nodes s"
proof (cases "v \<in> keys xs")
  case True
  note ok = cds_invD(4) [OF inv F]
  have t: "tid_ok tid s" using tid by (simp add: attached_def)
  have hit: "hit v xs" using True hit_iff [OF list_ok_sorted [OF ok]] by simp
  then obtain d h ys where A: "above v xs = (d, v, h) # ys" by (cases "above v xs") (auto simp: hit_def)
  then have "(d, v, h) \<in> set xs" using above_subset [of v xs] by auto
  then have h: "h \<le> 32" using ok by (auto simp: list_ok_def item_ok_def)
  show ?thesis
    using extract_found [OF inv F tid A finds_position [OF ok t A h]] True unfolding set_extract_def by auto
next
  case False
  note ok = cds_invD(4) [OF inv F]
  have t: "tid_ok tid s" using tid by (simp add: attached_def)
  have "\<not> hit v xs" using False hit_iff [OF list_ok_sorted [OF ok]] by simp
  then have "\<exists>s'. extract_by tid head (find_position tid head v False) s = Some (None, s') \<and> cds_inv s' F \<and>
      c_nodes s' = c_nodes s \<and> attached tid s' \<and> same_threads s s'"
    using find_position_spec [OF ok t, of _ "take 64 (tr_free (thread_of tid s))" "tr_hazards (thread_of tid s)" v False
        "drop 64 (tr_free (thread_of tid s))"]
    by (intro extract_none [OF inv tid]) fastforce
  with False show ?thesis unfolding set_extract_def by auto
qed

lemma set_extract_min_spec:
  assumes inv: "cds_inv s F" and F: "F head = Some xs" and tid: "attached tid s"
  shows "case xs of
      [] \<Rightarrow> \<exists>s'. set_extract_min tid head s = Some (None, s') \<and> cds_inv s' F \<and> c_nodes s' = c_nodes s
    | i # ys \<Rightarrow> \<exists>gp s'. set_extract_min tid head s = Some (gp, s') \<and> extracted tid (F(head \<mapsto> ys)) (it_key i) gp s' \<and>
        attached tid (gp_release tid gp s') \<and> \<not> gp_empty tid gp s' \<and> same_threads s (gp_release tid gp s')"
proof (cases xs)
  case Nil
  note ok = cds_invD(4) [OF inv F]
  have t: "tid_ok tid s" using tid by (simp add: attached_def)
  have "\<exists>s'. extract_by tid head (find_min_position tid head) s = Some (None, s') \<and> cds_inv s' F \<and>
      c_nodes s' = c_nodes s \<and> attached tid s' \<and> same_threads s s'"
    using find_min_position_spec [OF ok t, of _ "take 64 (tr_free (thread_of tid s))" "tr_hazards (thread_of tid s)"
        "drop 64 (tr_free (thread_of tid s))"] Nil
    by (intro extract_none [OF inv tid]) fastforce
  with Nil show ?thesis unfolding set_extract_min_def by auto
next
  case (Cons i ys)
  note ok = cds_invD(4) [OF inv F]
  have t: "tid_ok tid s" using tid by (simp add: attached_def)
  obtain d v h where i: "i = (d, v, h)" by (cases i)
  have sp: "below v xs = []" "above v xs = (d, v, h) # ys"
    using sorted_split [of "[]" i ys] list_ok_sorted [OF ok] Cons i by simp_all
  have "(d, v, h) \<in> set xs" using Cons i by simp
  then have "h \<le> 32" using ok by (auto simp: list_ok_def item_ok_def)
  then have "finds tid head xs (d, v, h) (find_min_position tid head) (tr_hazards (thread_of tid s))
      (tr_free (thread_of tid s)) s"
    unfolding finds_def
    using find_min_position_spec [OF ok t, of _ "take 64 (tr_free (thread_of tid s))" "tr_hazards (thread_of tid s)"
        "drop 64 (tr_free (thread_of tid s))"] Cons i sp(1)
    by fastforce
  from extract_found [OF inv F tid sp(2) this] show ?thesis
    using Cons i sp(1) unfolding set_extract_min_def by auto
qed

lemma set_extract_max_spec:
  assumes inv: "cds_inv s F" and F: "F head = Some (bs @ [i])" and tid: "attached tid s"
  shows "\<exists>gp s'. set_extract_max tid head s = Some (gp, s') \<and> extracted tid (F(head \<mapsto> bs)) (it_key i) gp s'"
proof -
  let ?xs = "bs @ [i]"
  note ok = cds_invD(4) [OF inv F]
  have t: "tid_ok tid s" using tid by (simp add: attached_def)
  obtain d v h where i: "i = (d, v, h)" by (cases i)
  have sp: "below v ?xs = bs" "above v ?xs = (d, v, h) # []"
    using sorted_split [of bs i "[]"] list_ok_sorted [OF ok] i by simp_all
  have "(d, v, h) \<in> set ?xs" using i by simp
  then have h: "h \<le> 32" using ok by (auto simp: list_ok_def item_ok_def)
  have prev: "before_last head j ?xs = prev_at head ?xs v j" if "j < h" for j
    using that sp(1) i by (simp add: before_last_def butlast_append)
  have "finds tid head ?xs (d, v, h) (find_max_position tid head) (tr_hazards (thread_of tid s))
      (tr_free (thread_of tid s)) s"
    unfolding finds_def
  proof (intro allI impI)
    fix pos assume pos: "pos_ok pos (take 64 (tr_free (thread_of tid s)))"
    from find_max_position_spec [OF ok t this, of "tr_hazards (thread_of tid s)" "drop 64 (tr_free (thread_of tid s))"]
    show "\<exists>hs' pos'. hs_upd (set (take 64 (tr_free (thread_of tid s)))) (tr_hazards (thread_of tid s)) hs' \<and>
        pos_ok pos' (take 64 (tr_free (thread_of tid s))) \<and>
        find_max_position tid head pos (wg tid (tr_hazards (thread_of tid s)) (drop 64 (tr_free (thread_of tid s))) s) =
          Some (True, pos', wg tid hs' (drop 64 (tr_free (thread_of tid s))) s) \<and>
        pCur pos' = it_addr (d, v, h) \<and>
        (\<forall>j < it_height (d, v, h). pPrev pos' ! j = prev_at head ?xs (it_key (d, v, h)) j)"
      using h prev i by auto
  qed
  from extract_found [OF inv F tid sp(2) this] show ?thesis
    using i sp(1) unfolding set_extract_max_def by auto
qed

lemma set_clear_spec:
  assumes "cds_inv s F" and "F head = Some xs" and "attached tid s"
  shows "\<exists>s'. set_clear tid head s = Some s' \<and> cds_inv s' (F(head \<mapsto> []))"
  using assms
proof (induction xs arbitrary: s F)
  case Nil
  then obtain s' where r: "set_extract_min tid head s = Some (None, s')" "cds_inv s' F"
    using set_extract_min_spec [OF Nil] by auto
  have "set_clear tid head s = Some s'"
    using r(1) by (subst set_clear.simps) (simp add: Let_def gp_empty_def gp_ptr_def gp_release_def)
  moreover have "F(head \<mapsto> []) = F" using Nil.prems(2) by (simp add: map_upd_triv)
  ultimately show ?case using r(2) by simp
next
  case (Cons i ys)
  obtain gp s1 where r: "set_extract_min tid head s = Some (gp, s1)" "extracted tid (F(head \<mapsto> ys)) (it_key i) gp s1"
      "attached tid (gp_release tid gp s1)" "\<not> gp_empty tid gp s1"
    using set_extract_min_spec [OF Cons.prems] by auto
  have "cds_inv (gp_release tid gp s1) (F(head \<mapsto> ys))" using r(2) by (simp add: extracted_def)
  from Cons.IH [OF this _ r(3)] obtain s' where "set_clear tid head (gp_release tid gp s1) = Some s'"
      "cds_inv s' (F(head \<mapsto> []))"
    by (auto simp del: fun_upd_apply simp: fun_upd_same)
  then show ?case using r(1,4) by (subst set_clear.simps) (simp add: Let_def)
qed


text \<open>\<open>unlink\<close> finds the item as \<open>erase\<close> does.\<close>

lemma set_unlink_spec:
  assumes inv: "cds_inv s F" and F: "F head = Some xs" and tid: "tid_ok tid s" and v: "node_value p s = Some v"
  shows "\<exists>s' xs'. set_unlink tid head p s = Some ((p, v) \<in> (\<lambda>i. (it_addr i, it_key i)) ` set xs, s') \<and>
    cds_inv s' (F(head \<mapsto> xs')) \<and>
    keys xs' = (if (p, v) \<in> (\<lambda>i. (it_addr i, it_key i)) ` set xs then keys xs - {v} else keys xs)"
proof -
  note ok = cds_invD(4) [OF inv F]
  let ?hs = "tr_hazards (thread_of tid s)" and ?fr = "tr_free (thread_of tid s)"
  let ?d = "it_addr (hd (above v xs))" and ?gs = "take 64 ?fr"
  note fit = collector_ok_fit [OF cds_invD(1) [OF inv] tid]
  obtain g fr2 where fr2: "drop 64 ?fr = g # fr2" using fit(2) by (cases "drop 64 ?fr") auto
  obtain pos where pos: "new_position tid s = Some (pos, wg tid ?hs (g # fr2) s)" "pos_ok pos ?gs"
    using new_position_wg [OF tid, of ?fr ?hs] fit(2) fr2 wg_id by fastforce
  obtain hs' pos' where r: "hs_upd (set ?gs) ?hs hs'" "pos_ok pos' ?gs"
    "find_position tid head v False pos (wg tid ?hs (g # fr2) s) = Some (hit v xs, pos', wg tid hs' (g # fr2) s)"
    "hit v xs \<Longrightarrow> pCur pos' = ?d"
    using find_position_spec [OF ok tid pos(2), where v = v and hs = ?hs and stop = False and fr = "g # fr2"] by auto
  have v': "node_value p (wg tid hs fr s) = Some v" for hs fr using v by (simp add: node_value_def)
  have key: "hit v xs \<longleftrightarrow> v \<in> keys xs" by (rule hit_iff [OF list_ok_sorted [OF ok]])
  have hd: "(p, v) \<in> (\<lambda>i. (it_addr i, it_key i)) ` set xs \<longleftrightarrow> hit v xs \<and> p = ?d"
  proof
    assume "(p, v) \<in> (\<lambda>i. (it_addr i, it_key i)) ` set xs"
    then obtain h where m: "(p, v, h) \<in> set xs" by force
    then have h: "hit v xs" using key by (force simp: keys_def)
    have "(p, v, h) \<in> set (above v xs)" using m below_above [of xs v] below_less [of "(p, v, h)" v xs] by (metis UnE less_irrefl fst_conv set_append snd_conv)
    then have "hd (above v xs) = (p, v, h)" by (intro above_hd [OF list_ok_sorted [OF ok]]) simp_all
    with h show "hit v xs \<and> p = ?d" by simp
  next
    assume h: "hit v xs \<and> p = ?d"
    then have "hd (above v xs) \<in> set xs" "it_key (hd (above v xs)) = v"
      using above_subset [of v xs] hd_in_set [of "above v xs"] unfolding hit_def by blast+
    then show "(p, v) \<in> (\<lambda>i. (it_addr i, it_key i)) ` set xs" using h by (force simp: image_iff)
  qed
  show ?thesis
  proof (cases "hit v xs \<and> p \<noteq> ?d")
    case False
    then have "set_unlink tid head p s = set_erase tid head v s"
      using pos(1) r(3,4) v v' by (auto simp: set_unlink_def set_erase_def Let_def)
    moreover have "(p, v) \<in> (\<lambda>i. (it_addr i, it_key i)) ` set xs \<longleftrightarrow> v \<in> keys xs" using False hd key by blast
    moreover have "v \<notin> keys xs \<Longrightarrow> keys xs - {v} = keys xs" by blast
    ultimately show ?thesis using erase_spec [OF inv F tid, of v] by auto
  next
    case True
    let ?s' = "wg tid ?hs (rev ?gs @ g # fr2) s"
    have dist: "distinct (?gs @ g # fr2)" using fit(1) fr2 append_take_drop_id [of 64 ?fr] by (simp add: guards_fit_def)
    have g: "g < length hs'" "hs' ! g = 0"
    proof -
      have "g \<in> set ?fr" using fr2 in_set_dropD [of g 64 ?fr] by simp
      then show "g < length hs'" "hs' ! g = 0" using fit(1) r(1) dist by (auto simp: guards_fit_def hs_upd_def)
    qed
    have "hs'[g := ?d, g := 0] = hs'" using g list_update_id [of hs' g] by simp
    moreover have "drop_position tid pos' (wg tid hs' (g # fr2) s) = ?s'"
      by (rule drop_position_wg [OF tid r(2,1) guards_fit_take(1) [OF fit(1)]])
    ultimately have "set_unlink tid head p s = Some (False, ?s')"
      using pos(1) r(3,4) v v' tid True by (auto simp: set_unlink_def Let_def)
    moreover have "cds_inv ?s' F"
      using mset_take_drop [of 64 ?fr] fr2 by (intro cds_inv_wg [OF inv tid]) simp
    moreover have "F(head \<mapsto> xs) = F" using F by (simp add: map_upd_triv)
    ultimately show ?thesis
      using True hd by (intro exI [of _ ?s'] exI [of _ xs]) auto
  qed
qed

subsection \<open>Properties\<close>





text \<open>C17: \<open>clear\<close> stops: it extracts the items one by one and releases them, and ends with an empty set,
  every node freed or retired and every other set as it was.\<close>

theorem set_clear_correct:
  assumes "cds_inv s F" and "F head = Some xs" and "attached tid s"
  shows "\<exists>s'. set_clear tid head s = Some s' \<and> cds_inv s' (F(head \<mapsto> []))"
  by (rule set_clear_spec [OF assms])

lemma set_clear_correct_witness:
  "\<exists>s xs s'. set_insert 0 4096 8192 42 demo_set = Some (True, s) \<and> cds_inv s [4096 \<mapsto> xs] \<and> keys xs = {42} \<and>
    set_clear 0 4096 s = Some s' \<and> cds_inv s' [4096 \<mapsto> []]"
proof -
  obtain s xs where s: "set_insert 0 4096 8192 42 demo_set = Some (True, s)" "cds_inv s [4096 \<mapsto> xs]" "keys xs = {42}" "attached 0 s"
    using demo_insert by blast
  have "\<exists>s'. set_clear 0 4096 s = Some s' \<and> cds_inv s' ([4096 \<mapsto> xs](4096 \<mapsto> []))"
    by (rule set_clear_correct [OF s(2) _ s(4)]) simp
  with s show ?thesis by (auto simp del: fun_upd_apply)
qed

text \<open>C18: \<open>unlink\<close> removes the node it is given if that very node is in the set, and not another node with the
  same value.\<close>

theorem set_unlink_correct:
  assumes "cds_inv s F" and "F head = Some xs" and "tid_ok tid s" and "node_value p s = Some v"
  shows "\<exists>s' xs'. set_unlink tid head p s = Some ((p, v) \<in> (\<lambda>i. (it_addr i, it_key i)) ` set xs, s') \<and>
    cds_inv s' (F(head \<mapsto> xs')) \<and>
    keys xs' = (if (p, v) \<in> (\<lambda>i. (it_addr i, it_key i)) ` set xs then keys xs - {v} else keys xs)"
  by (rule set_unlink_spec [OF assms])

lemma set_unlink_correct_witness:
  "\<exists>s xs p s' xs'. set_insert 0 4096 8192 42 demo_set = Some (True, s) \<and> keys xs = {42} \<and> p \<in> it_addr ` set xs \<and>
    set_unlink 0 4096 p s = Some (True, s') \<and> cds_inv s' [4096 \<mapsto> xs'] \<and> keys xs' = {}"
proof -
  obtain s xs where s: "set_insert 0 4096 8192 42 demo_set = Some (True, s)" "cds_inv s [4096 \<mapsto> xs]" "keys xs = {42}" "tid_ok 0 s"
    using demo_insert by blast
  then obtain p h where p: "(p, 42, h) \<in> set xs" by (force simp: keys_def)
  have "item_ok (c_nodes s) (p, 42, h)" using cds_invD(4) [OF s(2), of 4096 xs] p by (auto simp: list_ok_def)
  then have v: "node_value p s = Some 42" by (rule item_ok_facts(3)) simp
  have m: "(p, 42) \<in> (\<lambda>i. (it_addr i, it_key i)) ` set xs" using p by force
  have "\<exists>s' xs'. set_unlink 0 4096 p s = Some ((p, 42) \<in> (\<lambda>i. (it_addr i, it_key i)) ` set xs, s') \<and>
      cds_inv s' ([4096 \<mapsto> xs](4096 \<mapsto> xs')) \<and>
      keys xs' = (if (p, 42) \<in> (\<lambda>i. (it_addr i, it_key i)) ` set xs then keys xs - {42} else keys xs)"
    by (rule set_unlink_correct [OF s(2) _ s(4) v]) simp
  moreover have "p \<in> it_addr ` set xs" using p by force
  ultimately show ?thesis using s m by (auto simp del: fun_upd_apply)
qed

end
