(* ===== verification/Skip_List_Iterator.thy ===== *)
theory Skip_List_Iterator
  imports Skip_List_Extract
begin

text \<open>
  The forward iterator of the skip list set: the class \<open>iterator\<close> of \<^verbatim>\<open>cds/intrusive/impl/skip_list.h\<close>, and
  what a traversal from \<open>begin()\<close> to \<open>end()\<close> visits.

  An iterator owns a guard and points to a node, or to none (0) at the end.
\<close>

subsection \<open>Iterators\<close>

record sl_iterator =
  m_guard :: nat
  m_pNode :: addr

text \<open>A node is marked from its highest level, which \<open>next\<close> looks at.\<close>

definition node_marked :: "addr \<Rightarrow> cds_state \<Rightarrow> bool option" where
  "node_marked a s = do { h \<leftarrow> node_height a s; p \<leftarrow> node_load a (h - 1) s; Some (mp_bits p \<noteq> 0) }"

partial_function (option) begin_loop :: "nat \<Rightarrow> nat \<Rightarrow> addr \<Rightarrow> cds_state \<Rightarrow> (addr \<times> cds_state) option" where
  "begin_loop tid g head s = do {
     (p, s) \<leftarrow> protect tid g head 0 s;
     if mp_ptr p = 0 then Some (0, assign tid g 0 s)
     else do {
       marked \<leftarrow> node_marked (mp_ptr p) s;
       if \<not> marked then Some (mp_ptr p, s) else begin_loop tid g head s
     }
   }"

definition iter_begin :: "nat \<Rightarrow> addr \<Rightarrow> cds_state \<Rightarrow> (sl_iterator \<times> cds_state) option" where
  "iter_begin tid head s = do {
     (g, s) \<leftarrow> new_guard tid s;
     (p, s) \<leftarrow> begin_loop tid g head s;
     Some (\<lparr>m_guard = g, m_pNode = p\<rparr>, s)
   }"

definition iter_end :: "nat \<Rightarrow> cds_state \<Rightarrow> (sl_iterator \<times> cds_state) option" where
  "iter_end tid s = do { (g, s) \<leftarrow> new_guard tid s; Some (\<lparr>m_guard = g, m_pNode = 0\<rparr>, s) }"

definition iter_copy :: "nat \<Rightarrow> sl_iterator \<Rightarrow> cds_state \<Rightarrow> (sl_iterator \<times> cds_state) option" where
  "iter_copy tid it s = do {
     (g, s) \<leftarrow> new_guard tid s;
     Some (\<lparr>m_guard = g, m_pNode = m_pNode it\<rparr>, assign tid g (m_pNode it) s)
   }"

definition iter_assign :: "nat \<Rightarrow> sl_iterator \<Rightarrow> sl_iterator \<Rightarrow> cds_state \<Rightarrow> sl_iterator \<times> cds_state" where
  "iter_assign tid it src s =
     (it\<lparr>m_pNode := m_pNode src\<rparr>, assign tid (m_guard it) (guard_get (m_guard src) (thread_of tid s)) s)"

definition iter_destroy :: "nat \<Rightarrow> sl_iterator \<Rightarrow> cds_state \<Rightarrow> cds_state" where
  "iter_destroy tid it s = drop_guard tid (m_guard it) s"

definition iter_value :: "sl_iterator \<Rightarrow> cds_state \<Rightarrow> int64 option" where
  "iter_value it s = (if m_pNode it = 0 then None else node_value (m_pNode it) s)"

definition iter_eq :: "sl_iterator \<Rightarrow> sl_iterator \<Rightarrow> bool" where
  "iter_eq it it' \<longleftrightarrow> m_pNode it = m_pNode it'"

text \<open>\<open>next\<close>: when the current node is marked, its link may point anywhere and the iterator becomes the end;
  while the next node is marked, it waits.\<close>

partial_function (option) next_loop :: "nat \<Rightarrow> sl_iterator \<Rightarrow> cds_state \<Rightarrow> (sl_iterator \<times> cds_state) option" where
  "next_loop tid it s = do {
     deleted \<leftarrow> node_marked (m_pNode it) s;
     if deleted then do {
       (e, s) \<leftarrow> iter_end tid s;
       let (it, s) = iter_assign tid it e s;
       Some (it, iter_destroy tid e s)
     } else do {
       (p, s) \<leftarrow> protect tid (m_guard it) (m_pNode it) 0 s;
       if mp_bits p \<noteq> 0 then next_loop tid it s
       else do {
         wait \<leftarrow> (if mp_ptr p \<noteq> 0 then node_marked (mp_ptr p) s else Some False);
         if wait then next_loop tid it s else Some (it\<lparr>m_pNode := mp_ptr p\<rparr>, s)
       }
     }
   }"

definition iter_next :: "nat \<Rightarrow> sl_iterator \<Rightarrow> cds_state \<Rightarrow> (sl_iterator \<times> cds_state) option" where
  "iter_next tid it s = do {
     (g, s) \<leftarrow> new_guard tid s;
     let s = assign tid g (guard_get (m_guard it) (thread_of tid s)) s;
     (it, s) \<leftarrow> next_loop tid it s;
     Some (it, drop_guard tid g s)
   }"

subsection \<open>A traversal\<close>

text \<open>A client that reads the values one by one, as a range-based loop does.\<close>

partial_function (option) visit :: "nat \<Rightarrow> sl_iterator \<Rightarrow> cds_state \<Rightarrow> (int64 list \<times> sl_iterator \<times> cds_state) option" where
  "visit tid it s = do {
     (e, s) \<leftarrow> iter_end tid s;
     let stop = iter_eq it e;
     let s = iter_destroy tid e s;
     if stop then Some ([], it, s)
     else do {
       v \<leftarrow> iter_value it s;
       (it, s) \<leftarrow> iter_next tid it s;
       (vs, it, s) \<leftarrow> visit tid it s;
       Some (v # vs, it, s)
     }
   }"

definition traverse :: "nat \<Rightarrow> addr \<Rightarrow> cds_state \<Rightarrow> (int64 list \<times> cds_state) option" where
  "traverse tid head s = do {
     (it, s) \<leftarrow> iter_begin tid head s;
     (vs, it, s) \<leftarrow> visit tid it s;
     Some (vs, iter_destroy tid it s)
   }"

subsection \<open>What it visits\<close>

lemma node_marked_item:
  assumes ok: "list_ok (c_nodes s) head xs" and mem: "(d, k, h) \<in> set xs"
  shows "node_marked d (wg tid hs fr s) = Some False"
proof -
  have item: "item_ok (c_nodes s) (d, k, h)" using ok mem by (simp add: list_ok_def)
  note f = item_ok_facts [OF item refl]
  have l: "h - 1 < 32" "h - 1 < h" using f(5,6) by linarith+
  then have "d \<in> set (lev (h - 1) xs)" using mem by (force simp: lev_def)
  then obtain c where "link (c_nodes s) (h - 1) d = Some c" "aligned c"
    using list_ok_link_item [OF ok l(1)] by blast
  moreover have "node_height d (wg tid hs fr s) = Some h" using f(4) by (simp add: node_height_def)
  ultimately show ?thesis by (simp add: node_marked_def node_load_link)
qed

lemma list_ok_next:
  assumes ok: "list_ok ns head xs" and split: "head # map it_addr xs = as @ p # map it_addr ys"
  shows "link ns 0 p = Some (first_or_null (map it_addr ys))"
proof -
  have "\<forall>x\<in>set xs. item_ok ns x" using ok by (simp add: list_ok_def)
  then have "lev 0 xs = map it_addr xs" by (rule lev_0(1))
  then show ?thesis using split by (intro path_split_link [OF ok, of 0 as]) simp_all
qed

lemma begin_wg:
  assumes ok: "list_ok (c_nodes s) head xs" and tid: "tid_ok tid s"
  shows "begin_loop tid g head (wg tid hs fr s) =
    Some (first_or_null (map it_addr xs), wg tid (hs[g := first_or_null (map it_addr xs)]) fr s)"
proof -
  have lk: "link (c_nodes s) 0 head = Some (first_or_null (map it_addr xs))"
    by (rule list_ok_next [OF ok, of "[]"]) simp
  show ?thesis
  proof (cases xs)
    case Nil
    then show ?thesis using lk tid by (subst begin_loop.simps) simp
  next
    case (Cons i ys)
    obtain d k h where i: "i = (d, k, h)" by (cases i)
    have "item_ok (c_nodes s) (d, k, h)" using ok Cons i by (simp add: list_ok_def)
    then have "d \<noteq> 0" "aligned d" by (simp_all add: item_ok_def)
    then show ?thesis
      using lk tid Cons i node_marked_item [OF ok, of d k h] by (subst begin_loop.simps) simp
  qed
qed

lemma next_wg:
  assumes ok: "list_ok (c_nodes s) head xs" and tid: "tid_ok tid s" and xs: "xs = as @ (d, k, h) # ys"
    and g: "g < length hs" "g' < length hs" "g \<noteq> g'" "hs ! g' = 0"
  shows "iter_next tid \<lparr>m_guard = g, m_pNode = d\<rparr> (wg tid hs (g' # fr) s) =
    Some (\<lparr>m_guard = g, m_pNode = first_or_null (map it_addr ys)\<rparr>,
      wg tid (hs[g := first_or_null (map it_addr ys)]) (g' # fr) s)"
proof -
  let ?c = "first_or_null (map it_addr ys)"
  have lk: "link (c_nodes s) 0 d = Some ?c"
    using xs by (intro list_ok_next [OF ok, of "head # map it_addr as"]) simp
  have m: "node_marked d (wg tid hs fr s) = Some False" for hs fr
    using xs by (intro node_marked_item [OF ok, of d k h]) simp
  let ?hs = "hs[g' := hs ! g]"
  have al: "aligned ?c \<and> (?c \<noteq> 0 \<longrightarrow> node_marked ?c (wg tid hs fr s) = Some False)" for hs fr
  proof (cases ys)
    case (Cons i zs)
    obtain a k' h' where i: "i = (a, k', h')" by (cases i)
    have mem: "(a, k', h') \<in> set xs" using xs Cons i by simp
    then have "item_ok (c_nodes s) (a, k', h')" using ok by (simp add: list_ok_def)
    then show ?thesis using Cons i node_marked_item [OF ok mem] by (simp add: item_ok_def)
  qed simp
  have "next_loop tid \<lparr>m_guard = g, m_pNode = d\<rparr> (wg tid ?hs fr s) =
      Some (\<lparr>m_guard = g, m_pNode = ?c\<rparr>, wg tid (?hs[g := ?c]) fr s)"
    using lk m al tid by (subst next_loop.simps) (auto simp: mp_unmarked intro: exI [of _ False])
  moreover have "?hs[g := ?c, g' := 0] = hs[g := ?c]"
    using g list_update_id [of hs g'] by (simp add: list_update_swap [of g g'])
  ultimately show ?thesis
    using tid g by (simp add: iter_next_def guard_get_def Let_def)
qed

lemma visit_wg:
  assumes ok: "list_ok (c_nodes s) head xs" and tid: "tid_ok tid s"
  shows "xs = as @ ys \<Longrightarrow> g < length hs \<Longrightarrow> g' < length hs \<Longrightarrow> g \<noteq> g' \<Longrightarrow> hs ! g' = 0 \<Longrightarrow>
    visit tid \<lparr>m_guard = g, m_pNode = first_or_null (map it_addr ys)\<rparr>
      (wg tid (hs[g := first_or_null (map it_addr ys)]) (g' # fr) s) =
    Some (map it_key ys, \<lparr>m_guard = g, m_pNode = 0\<rparr>, wg tid (hs[g := 0]) (g' # fr) s)"
proof (induction ys arbitrary: as)
  case Nil
  have "hs[g := 0, g' := 0] = hs[g := 0]"
    using Nil list_update_id [of "hs[g := 0]" g'] by simp
  then show ?case
    using tid by (subst visit.simps) (simp add: iter_end_def iter_destroy_def iter_eq_def Let_def)
next
  case (Cons i ys)
  obtain d k h where i: "i = (d, k, h)" by (cases i)
  have "(d, k, h) \<in> set xs" using Cons.prems(1) i by simp
  then have item: "item_ok (c_nodes s) (d, k, h)" using ok by (simp add: list_ok_def)
  note f = item_ok_facts [OF item refl]
  have v: "node_value d (wg tid hs fr s) = Some k" for hs fr using f(3) by (simp add: node_value_def)
  have z: "hs[g := d, g' := 0] = hs[g := d]"
    using Cons.prems list_update_id [of "hs[g := d]" g'] by simp
  let ?c = "first_or_null (map it_addr ys)"
  have n: "iter_next tid \<lparr>m_guard = g, m_pNode = d\<rparr> (wg tid (hs[g := d]) (g' # fr) s) =
      Some (\<lparr>m_guard = g, m_pNode = ?c\<rparr>, wg tid (hs[g := ?c]) (g' # fr) s)"
    using next_wg [OF ok tid, of as d k h ys g "hs[g := d]" g' fr] Cons.prems i by simp
  have "visit tid \<lparr>m_guard = g, m_pNode = ?c\<rparr> (wg tid (hs[g := ?c]) (g' # fr) s) =
      Some (map it_key ys, \<lparr>m_guard = g, m_pNode = 0\<rparr>, wg tid (hs[g := 0]) (g' # fr) s)"
    using Cons.prems by (intro Cons.IH [of "as @ [i]"]) simp_all
  then show ?case
    using tid f(1) v z n i
    by (subst visit.simps) (simp add: iter_end_def iter_destroy_def iter_eq_def iter_value_def Let_def)
qed

lemma traverse_spec:
  assumes inv: "cds_inv s F" and F: "F head = Some xs" and tid: "tid_ok tid s"
  shows "traverse tid head s = Some (map it_key xs, s)"
proof -
  note ok = cds_invD(4) [OF inv F]
  let ?hs = "tr_hazards (thread_of tid s)" and ?fr = "tr_free (thread_of tid s)"
  note fit = collector_ok_fit [OF cds_invD(1) [OF inv] tid]
  obtain g g' fr where fr: "?fr = g # g' # fr" using fit(2) by (cases ?fr; cases "tl ?fr") auto
  have g: "g < length ?hs" "g' < length ?hs" "g \<noteq> g'" "?hs ! g' = 0" "?hs ! g = 0"
    using fit(1) fr by (auto simp: guards_fit_def)
  have s: "s = wg tid ?hs (g # g' # fr) s" using wg_id [of tid s] fr by simp
  let ?c = "first_or_null (map it_addr xs)"
  have "iter_begin tid head s = Some (\<lparr>m_guard = g, m_pNode = ?c\<rparr>, wg tid (?hs[g := ?c]) (g' # fr) s)"
    by (subst s) (use begin_wg [OF ok tid] tid in \<open>simp add: iter_begin_def\<close>)
  moreover have "visit tid \<lparr>m_guard = g, m_pNode = ?c\<rparr> (wg tid (?hs[g := ?c]) (g' # fr) s) =
      Some (map it_key xs, \<lparr>m_guard = g, m_pNode = 0\<rparr>, wg tid (?hs[g := 0]) (g' # fr) s)"
    by (rule visit_wg [OF ok tid, of "[]"]) (use g in simp_all)
  moreover have "?hs[g := 0] = ?hs" using g list_update_id [of ?hs g] by simp
  ultimately show ?thesis using s tid by (simp add: traverse_def iter_destroy_def)
qed

text \<open>C20: A traversal of a well-formed set from \<open>begin()\<close> to \<open>end()\<close> returns; it reads every value of the set
  once, in ascending order, and gives back every guard, so that the state is as before.\<close>

theorem traverse_correct:
  assumes "cds_inv s F" and "F head = Some xs" and "tid_ok tid s"
  shows "\<exists>vs. traverse tid head s = Some (vs, s) \<and> set vs = keys xs \<and> sorted_wrt (<) (map sint vs)"
  using traverse_spec [OF assms] list_ok_sorted [OF cds_invD(4) [OF assms(1,2)]]
  by (simp add: keys_def comp_def)

lemma traverse_correct_witness:
  "\<exists>s xs. set_insert 0 4096 8192 42 demo_set = Some (True, s) \<and> cds_inv s [4096 \<mapsto> xs] \<and>
    (\<exists>vs. traverse 0 4096 s = Some (vs, s) \<and> set vs = {42} \<and> sorted_wrt (<) (map sint vs))"
proof -
  obtain s xs where s: "set_insert 0 4096 8192 42 demo_set = Some (True, s)" "cds_inv s [4096 \<mapsto> xs]" "keys xs = {42}" "tid_ok 0 s"
    using demo_insert by blast
  have "\<exists>vs. traverse 0 4096 s = Some (vs, s) \<and> set vs = keys xs \<and> sorted_wrt (<) (map sint vs)"
    by (rule traverse_correct [OF s(2) _ s(4)]) simp
  with s show ?thesis by auto
qed

end
