(* ===== verification/Skip_List_Update.thy ===== *)
theory Skip_List_Update
  imports Skip_List_Set
begin

text \<open>
  \<open>update\<close> of the skip list set: the function of \<^verbatim>\<open>cds/intrusive/impl/skip_list.h\<close> and the wrapper of
  \<^verbatim>\<open>cds/container/impl/skip_list_set.h\<close> that allocates the node. The functor that it calls on the item may not change the
  key, which for a set of numbers is the whole item, so it has no effect here.

  With \<open>bInsert\<close> the operation is \<open>insert\<close> with a different answer; the proof transfers what insert does.
\<close>

subsection \<open>Updating\<close>

text \<open>The answer is whether the operation succeeded and whether the item is new.\<close>

partial_function (option) update_loop ::
  "nat \<Rightarrow> addr \<Rightarrow> int64 \<Rightarrow> bool \<Rightarrow> addr \<Rightarrow> position \<Rightarrow> cds_state \<Rightarrow> ((bool \<times> bool) \<times> position \<times> cds_state) option" where
  "update_loop tid head val bInsert pNode pos s = do {
     (bFound, pos, s) \<leftarrow> find_position tid head val True pos s;
     if bFound then Some ((True, False), pos, s)
     else if \<not> bInsert then Some ((False, False), pos, s)
     else do {
       nHeight \<leftarrow> node_height pNode s;
       (ok, pos, s) \<leftarrow> insert_at_position tid head val pNode pos s;
       if \<not> ok then update_loop tid head val bInsert pNode pos s
       else do { s \<leftarrow> increase_height head nHeight s; Some ((True, True), pos, s) }
     }
   }"

definition update_node :: "nat \<Rightarrow> addr \<Rightarrow> addr \<Rightarrow> bool \<Rightarrow> cds_state \<Rightarrow> ((bool \<times> bool) \<times> cds_state) option" where
  "update_node tid head pNode bInsert s = do {
     (gNew, s) \<leftarrow> new_guard tid s;
     let s = assign tid gNew pNode s;
     val \<leftarrow> node_value pNode s;
     (pos, s) \<leftarrow> new_position tid s;
     (r, pos, s) \<leftarrow> update_loop tid head val bInsert pNode pos s;
     Some (r, drop_guard tid gNew (drop_position tid pos s))
   }"

definition set_update :: "nat \<Rightarrow> addr \<Rightarrow> addr \<Rightarrow> int64 \<Rightarrow> bool \<Rightarrow> cds_state \<Rightarrow> ((bool \<times> bool) \<times> cds_state) option" where
  "set_update tid head a val bInsert s = do {
     st \<leftarrow> c_sets s head;
     let (nHeight, nSeed) = random_level (ss_nSeed st);
     let s = s\<lparr>c_sets := (c_sets s)(head \<mapsto> st\<lparr>ss_nSeed := nSeed\<rparr>)\<rparr>;
     let s = node_New a nHeight val s;
     (bRes, s) \<leftarrow> update_node tid head a bInsert s;
     if fst bRes \<and> snd bRes then Some (bRes, s) else do { s \<leftarrow> dispose_node a s; Some (bRes, s) }
   }"

subsection \<open>What it does\<close>

lemma update_loop_insert:
  "set_insert_loop tid head v a pos s = Some y \<Longrightarrow>
     update_loop tid head v True a pos s = Some (case y of (r, pos', s') \<Rightarrow> ((True, r), pos', s'))"
proof (induction rule: set_insert_loop.raw_induct [rotated, consumes 1, case_names Step])
  case (Step f tid head v a pos s y)
  from Step(2) obtain found pos1 s1 where find: "find_position tid head v True pos s = Some (found, pos1, s1)" by auto
  show ?case
  proof (cases found)
    case True
    then show ?thesis using Step(2) find by (subst update_loop.simps) auto
  next
    case False
    then obtain h ok pos2 s2 where i: "node_height a s1 = Some h" "insert_at_position tid head v a pos1 s1 = Some (ok, pos2, s2)"
      using Step(2) find by auto
    show ?thesis
    proof (cases ok)
      case True
      then show ?thesis using Step(2) find i \<open>\<not> found\<close> by (subst update_loop.simps) auto
    next
      case False
      then have "f tid head v a pos2 s2 = Some y" using Step(2) find i \<open>\<not> found\<close> by simp
      then have "update_loop tid head v True a pos2 s2 = Some (case y of (r, pos', s') \<Rightarrow> ((True, r), pos', s'))" by (rule Step(1))
      then show ?thesis using find i False \<open>\<not> found\<close> by (subst update_loop.simps) simp
    qed
  qed
qed

lemma update_node_insert:
  "insert_node tid head a s = Some (r, s') \<Longrightarrow> update_node tid head a True s = Some ((True, r), s')"
  by (auto simp: insert_node_def update_node_def Let_def dest!: update_loop_insert)

lemma set_update_insert:
  assumes "set_insert tid head a v s = Some (r, s')"
  shows "set_update tid head a v True s = Some ((True, r), s')"
proof -
  obtain st h seed where st: "c_sets s head = Some st" "random_level (ss_nSeed st) = (h, seed)"
    using assms by (cases "c_sets s head"; cases "random_level (ss_nSeed (the (c_sets s head)))") (auto simp: set_insert_def)
  then show ?thesis
    using assms by (auto simp: set_insert_def set_update_def Let_def dest!: update_node_insert split: if_splits)
qed

lemma update_node_found:
  assumes ok: "list_ok (c_nodes s) head xs"
    and new: "fresh_node (c_nodes s) a v h" "a \<notin> blocks head xs"
    and tid: "tid_ok tid s" and fit: "guards_fit hs (g # fr) n" and len: "64 \<le> length fr"
  shows "update_node tid head a False (wg tid hs (g # fr) s) =
    Some ((v \<in> keys xs, False), wg tid hs (g # rev (take 64 fr) @ drop 64 fr) s)"
proof -
  let ?hs = "hs[g := a]" and ?gs = "take 64 fr" and ?fr = "drop 64 fr"
  have item: "item_ok (c_nodes s) (a, v, h)" using new by (simp add: fresh_node_def)
  note f = item_ok_facts [OF item refl]
  have fit': "guards_fit hs fr n" and g: "g < length hs" "hs ! g = 0" "g \<notin> set fr"
    using fit by (auto simp: guards_fit_def)
  have fith: "guards_fit ?hs fr n"
    using fit' g by (auto simp: guards_fit_def nth_list_update)
  obtain pos where pos: "new_position tid (wg tid ?hs fr s) = Some (pos, wg tid ?hs ?fr s)" "pos_ok pos ?gs"
    using new_position_wg [OF tid len] by blast
  obtain hs' pos' where r: "hs_upd (set ?gs) ?hs hs'" "pos_ok pos' ?gs"
    "find_position tid head v True pos (wg tid ?hs ?fr s) = Some (hit v xs, pos', wg tid hs' ?fr s)"
    using find_position_spec [OF ok tid pos(2), where v = v and hs = ?hs and stop = True and fr = ?fr] by auto
  have val: "node_value a (wg tid hs1 fr1 s) = Some v" for hs1 fr1
    using f(3) by (simp add: node_value_def)
  have restore: "drop_guard tid g (drop_position tid pos' (wg tid hs' ?fr s)) = wg tid hs (g # rev ?gs @ ?fr) s"
    using drop_position_wg [OF tid r(2,1) guards_fit_take(1) [OF fith]] tid g list_update_id [of hs g] by simp
  have "hit v xs \<longleftrightarrow> v \<in> keys xs" by (rule hit_iff [OF list_ok_sorted [OF ok]])
  then have "update_loop tid head v False a pos (wg tid ?hs ?fr s) = Some ((v \<in> keys xs, False), pos', wg tid hs' ?fr s)"
    using r(3) by (subst update_loop.simps) auto
  then show ?thesis using tid pos(1) val restore by (simp add: update_node_def)
qed

lemma update_only_spec:
  assumes inv: "cds_inv s F" and F: "F head = Some xs" and tid: "tid_ok tid s"
    and a: "a \<noteq> 0" "aligned a" "c_nodes s a = None"
  shows "\<exists>s'. set_update tid head a v False s = Some ((v \<in> keys xs, False), s') \<and> cds_inv s' F \<and>
    same_threads s s' \<and> c_nodes s' = c_nodes s"
proof -
  note i = cds_invD [OF inv] and o = others_disjoint [OF inv, of head]
  obtain st where st: "c_sets s head = Some st" "height_ok st xs" using i(6) [OF F] by blast
  let ?hs = "tr_hazards (thread_of tid s)"
  obtain h seed where rl: "random_level (ss_nSeed st) = (h, seed)" by (cases "random_level (ss_nSeed st)")
  have h: "1 \<le> h" "h \<le> 32" using random_level_range [of "ss_nSeed st"] rl by simp_all
  note fit = collector_ok_fit [OF i(1) tid]
  obtain g fr where fr: "tr_free (thread_of tid s) = g # fr" "64 \<le> length fr"
    using fit(2) by (cases "tr_free (thread_of tid s)") auto
  let ?fr' = "g # rev (take 64 fr) @ drop 64 fr"
  have ms: "mset ?fr' = mset (tr_free (thread_of tid s))"
    using fr(1) mset_take_drop [of 64 fr] by simp
  have "a \<notin> dom (c_nodes s)" using a(3) by auto
  then have ab: "a \<notin> blocks head xs" using o(4) [OF F] by auto
  let ?s2 = "s\<lparr>c_sets := (c_sets s)(head \<mapsto> st\<lparr>ss_nSeed := seed\<rparr>)\<rparr>"
  let ?s1 = "?s2\<lparr>c_nodes := (c_nodes s)(a \<mapsto> node_ctor h v)\<rparr>"
  have ok1: "list_ok (c_nodes ?s1) head xs"
    by (rule list_ok_cong [OF _ i(4) [OF F]]) (use ab in auto)
  have new: "fresh_node (c_nodes ?s1) a v h" using fresh_node_New [OF h a(1,2)] by simp
  have tid1: "tid_ok tid ?s1" using tid by simp
  note run = update_node_found [OF ok1 new ab tid1 fit(1) [unfolded fr(1)] fr(2)]
  have "wg tid ?hs (g # fr) ?s1 = ?s1" using wg_id [of tid ?s1] fr(1) by simp
  moreover have "(c_nodes ?s1)(a := None) = c_nodes s" using a(3) by (simp add: fun_upd_idem)
  then have "dispose_node a (wg tid ?hs ?fr' ?s1) = Some (wg tid ?hs ?fr' ?s2)"
    by (simp add: dispose_node_def cds_state_swap)
  ultimately have "set_update tid head a v False s = Some ((v \<in> keys xs, False), wg tid ?hs ?fr' ?s2)"
    using st(1) rl run by (simp add: set_update_def node_New_def Let_def)
  moreover have "cds_inv (wg tid ?hs ?fr' ?s2) (F(head \<mapsto> xs))" by (rule seed_inv [OF inv F tid st ms])
  moreover have "F(head \<mapsto> xs) = F" using F by (simp add: fun_upd_idem)
  ultimately show ?thesis by (intro exI [of _ "wg tid ?hs ?fr' ?s2"]) simp
qed

subsection \<open>Properties\<close>

text \<open>C19: \<open>update\<close> on a well-formed state returns. With \<open>bInsert\<close> it succeeds, says whether the value is new
  and adds exactly it, as insert does; without, it says whether the value is there and changes no node. In
  each case the invariant holds afterwards and the node allocated for the value is freed unless it was linked.\<close>

theorem set_update_correct:
  assumes "cds_inv s F" and "F head = Some xs" and "tid_ok tid s" and "a \<noteq> 0" and "aligned a" and "c_nodes s a = None"
  shows "(\<exists>s' xs'. set_update tid head a v True s = Some ((True, v \<notin> keys xs), s') \<and> cds_inv s' (F(head \<mapsto> xs')) \<and>
      keys xs' = insert v (keys xs) \<and> same_threads s s' \<and> dom (c_nodes s') \<subseteq> insert a (dom (c_nodes s))) \<and>
    (\<exists>s'. set_update tid head a v False s = Some ((v \<in> keys xs, False), s') \<and> cds_inv s' F \<and>
      same_threads s s' \<and> c_nodes s' = c_nodes s)"
  using insert_spec [OF assms, of v] update_only_spec [OF assms, of v] set_update_insert by blast

lemma set_update_correct_witness:
  "\<exists>s s' s'' xs. set_update 0 4096 8192 42 False demo_set = Some ((False, False), s) \<and>
    set_update 0 4096 8192 42 True demo_set = Some ((True, True), s') \<and> cds_inv s' [4096 \<mapsto> xs] \<and> keys xs = {42} \<and>
    set_update 0 4096 12288 42 False s' = Some ((True, False), s'')"
proof -
  have "8192 \<notin> dom (c_nodes demo_set)" by (simp add: demo_set_inv(3))
  then have a: "c_nodes demo_set 8192 = None" by auto
  have al: "aligned 8192" "(8192 :: addr) \<noteq> 0" "aligned 12288" "(12288 :: addr) \<noteq> 0" by (simp_all add: aligned_even)
  have "([4096 \<mapsto> []] :: addr \<rightharpoonup> item list) 4096 = Some []" by simp
  note u = set_update_correct [OF demo_set_inv(1) this demo_set_inv(2) al(2,1) a, of 42]
  obtain s' xs where s': "set_update 0 4096 8192 42 True demo_set = Some ((True, True), s')"
    "cds_inv s' [4096 \<mapsto> xs]" "keys xs = {42}" "same_threads demo_set s'" "dom (c_nodes s') \<subseteq> {8192, 4096}"
    using conjunct1 [OF u] demo_set_inv(3) by (auto simp: keys_def simp del: fun_upd_apply)
  have "c_nodes s' 12288 = None" using s'(5) by auto
  moreover have "tid_ok 0 s'" using same_threads_tid [OF s'(4)] demo_set_inv(2) by simp
  ultimately obtain s'' where "set_update 0 4096 12288 42 False s' = Some ((True, False), s'')"
    using set_update_correct [where head = 4096 and xs = xs and tid = 0 and v = 42, OF s'(2) _ _ al(4,3)] s'(3) by auto
  with u s' show ?thesis by (auto simp: keys_def)
qed

end
