(* ===== verification/Hazard_Storage.thy ===== *)
theory Hazard_Storage
  imports Hazard
begin

text \<open>
  The per-thread storage behind a thread record, as \<^verbatim>\<open>cds/gc/details/hp_common.h\<close> and \<^verbatim>\<open>cds/gc/hp.h\<close>
  lay it out: the array of guards, whose free guards are linked through \<open>next_\<close> from \<open>free_head_\<close>,
  and the array of retired pointers with its cursor \<open>current_\<close>. A pointer to a guard is its index in the array, or
  \<open>None\<close> for the null pointer, and a pointer into the retired array is an index too.

  The relations \<open>hp_repr\<close> and \<open>retired_repr\<close> say which thread record the storage stands for; the lemmas below
  show that every operation of the storage does to it what the operation of Hazard does to the record,
  with the same result and the same exceptions.
\<close>

subsection \<open>One guard\<close>

record guard =
  g_hp :: addr
  g_next :: "nat option"

definition guard_ctor :: guard where "guard_ctor = \<lparr>g_hp = 0, g_next = None\<rparr>"

definition g_set :: "addr \<Rightarrow> guard \<Rightarrow> guard" where "g_set ptr g = g\<lparr>g_hp := ptr\<rparr>"

definition g_clear :: "guard \<Rightarrow> guard" where "g_clear g = g\<lparr>g_hp := 0\<rparr>"

subsection \<open>An array of guard pointers\<close>

text \<open>\<open>guard_array<Capacity>\<close>; an index out of range and a pointer that the code asserts to be null, or
  not to be null, are \<open>None\<close>.\<close>

type_synonym guard_array = "nat option list"

definition guard_array_ctor :: "nat \<Rightarrow> guard_array" where "guard_array_ctor n = replicate n None"

definition guard_array_reset :: "nat \<Rightarrow> nat option \<Rightarrow> guard_array \<Rightarrow> guard_array option" where
  "guard_array_reset idx g arr = (if idx < length arr \<and> arr ! idx = None then Some (arr[idx := g]) else None)"

definition guard_array_release :: "nat \<Rightarrow> guard_array \<Rightarrow> (nat option \<times> guard_array) option" where
  "guard_array_release idx arr = (if idx < length arr then Some (arr ! idx, arr[idx := None]) else None)"

subsection \<open>The storage of guards\<close>

record thread_hp_storage =
  free_head :: "nat option"
  hp_array :: "guard list"
  hp_capacity :: nat

text \<open>The constructor. With \<open>nSize = 0\<close> the last statement writes before the array, hence \<open>None\<close>.\<close>

fun link_loop :: "nat \<Rightarrow> nat \<Rightarrow> guard list \<Rightarrow> guard list" where
  "link_loop arr 0 gs = gs"
| "link_loop arr (Suc n) gs = link_loop (Suc arr) n (gs[arr := (gs ! arr)\<lparr>g_next := Some (Suc arr)\<rparr>])"

definition storage_ctor :: "nat \<Rightarrow> thread_hp_storage option" where
  "storage_ctor nSize =
     (if nSize = 0 then None
      else let gs = link_loop 0 (nSize - 1) (replicate nSize guard_ctor)
           in Some \<lparr>free_head = Some 0,
                    hp_array = gs[nSize - 1 := (gs ! (nSize - 1))\<lparr>g_next := None\<rparr>],
                    hp_capacity = nSize\<rparr>)"

definition storage_full :: "thread_hp_storage \<Rightarrow> bool" where "storage_full s \<longleftrightarrow> free_head s = None"

definition storage_alloc :: "thread_hp_storage \<Rightarrow> (nat \<times> thread_hp_storage) option" where
  "storage_alloc s = (case free_head s of
      None \<Rightarrow> None
    | Some g \<Rightarrow> Some (g, s\<lparr>free_head := g_next (hp_array s ! g)\<rparr>))"

definition put_front :: "nat \<Rightarrow> nat option \<Rightarrow> guard list \<Rightarrow> guard list" where
  "put_front g gList gs = gs[g := (g_clear (gs ! g))\<lparr>g_next := gList\<rparr>]"

definition storage_free :: "nat option \<Rightarrow> thread_hp_storage \<Rightarrow> thread_hp_storage" where
  "storage_free g s = (case g of
      None \<Rightarrow> s
    | Some g \<Rightarrow> s\<lparr>hp_array := put_front g (free_head s) (hp_array s), free_head := Some g\<rparr>)"

text \<open>The loop of \<open>alloc\<close> for an array: \<open>i\<close> counts up while there is a free guard. The guards stay on
  the list when there are too few.\<close>

fun alloc_loop :: "guard list \<Rightarrow> nat \<Rightarrow> nat \<Rightarrow> nat option \<Rightarrow> guard_array \<Rightarrow> (nat \<times> nat option \<times> guard_array) option" where
  "alloc_loop gs 0 i g arr = Some (i, g, arr)"
| "alloc_loop gs (Suc n) i None arr = Some (i, None, arr)"
| "alloc_loop gs (Suc n) i (Some g) arr =
     do { arr \<leftarrow> guard_array_reset i (Some g) arr; alloc_loop gs n (Suc i) (g_next (gs ! g)) arr }"

definition storage_alloc_array :: "guard_array \<Rightarrow> thread_hp_storage \<Rightarrow> (guard_array \<times> thread_hp_storage) option" where
  "storage_alloc_array arr s = do {
     (i, g, arr') \<leftarrow> alloc_loop (hp_array s) (length arr) 0 (free_head s) arr;
     if i \<noteq> length arr then None else Some (arr', s\<lparr>free_head := g\<rparr>)
   }"

fun free_loop :: "guard_array \<Rightarrow> nat option \<Rightarrow> guard list \<Rightarrow> nat option \<times> guard list" where
  "free_loop [] gList gs = (gList, gs)"
| "free_loop (None # arr) gList gs = free_loop arr gList gs"
| "free_loop (Some g # arr) gList gs = free_loop arr (Some g) (put_front g gList gs)"

definition storage_free_array :: "guard_array \<Rightarrow> thread_hp_storage \<Rightarrow> thread_hp_storage" where
  "storage_free_array arr s =
     (let (gList, gs) = free_loop arr (free_head s) (hp_array s) in s\<lparr>hp_array := gs, free_head := gList\<rparr>)"

definition storage_clear :: "thread_hp_storage \<Rightarrow> thread_hp_storage" where
  "storage_clear s = s\<lparr>hp_array := map g_clear (hp_array s)\<rparr>"

definition storage_at :: "thread_hp_storage \<Rightarrow> nat \<Rightarrow> guard option" where
  "storage_at s idx = (if idx < hp_capacity s then Some (hp_array s ! idx) else None)"

text \<open>\<open>guard_array::set\<close> and \<open>clear\<close> go through the pointer at \<open>idx\<close> to the guard.\<close>

definition guard_array_set :: "nat \<Rightarrow> addr \<Rightarrow> guard_array \<Rightarrow> thread_hp_storage \<Rightarrow> thread_hp_storage option" where
  "guard_array_set idx ptr arr s = do {
     p \<leftarrow> at arr idx;
     g \<leftarrow> p;
     Some (s\<lparr>hp_array := (hp_array s)[g := g_set ptr (hp_array s ! g)]\<rparr>)
   }"

definition guard_array_clear :: "nat \<Rightarrow> guard_array \<Rightarrow> thread_hp_storage \<Rightarrow> thread_hp_storage option" where
  "guard_array_clear idx arr s = do {
     p \<leftarrow> at arr idx;
     g \<leftarrow> p;
     Some (s\<lparr>hp_array := (hp_array s)[g := g_clear (hp_array s ! g)]\<rparr>)
   }"

subsection \<open>The array of retired pointers\<close>

record retired_array =
  ra_current :: nat
  ra_last :: nat
  ra_retired :: "addr list"

definition retired_array_ctor :: "nat \<Rightarrow> retired_array" where
  "retired_array_ctor capacity = \<lparr>ra_current = 0, ra_last = capacity, ra_retired = replicate capacity 0\<rparr>"

definition ra_capacity :: "retired_array \<Rightarrow> nat" where "ra_capacity a = ra_last a"

definition ra_size :: "retired_array \<Rightarrow> nat" where "ra_size a = ra_current a"

definition ra_push :: "addr \<Rightarrow> retired_array \<Rightarrow> (bool \<times> retired_array) option" where
  "ra_push p a =
     (let cur = ra_current a in
      if cur < length (ra_retired a)
      then Some (cur + 1 < ra_last a, a\<lparr>ra_retired := (ra_retired a)[cur := p], ra_current := cur + 1\<rparr>)
      else None)"

definition ra_reset :: "nat \<Rightarrow> retired_array \<Rightarrow> retired_array" where
  "ra_reset nSize a = a\<lparr>ra_current := nSize\<rparr>"

definition ra_interthread_clear :: "retired_array \<Rightarrow> retired_array" where
  "ra_interthread_clear a = a\<lparr>ra_current := 0\<rparr>"

definition ra_full :: "retired_array \<Rightarrow> bool" where "ra_full a \<longleftrightarrow> ra_current a = ra_last a"

subsection \<open>The records they stand for\<close>

fun chain :: "guard list \<Rightarrow> nat option \<Rightarrow> nat list \<Rightarrow> bool" where
  "chain gs p [] \<longleftrightarrow> p = None"
| "chain gs p (x # xs) \<longleftrightarrow> p = Some x \<and> x < length gs \<and> chain gs (g_next (gs ! x)) xs"

definition hp_repr :: "thread_hp_storage \<Rightarrow> thread_record \<Rightarrow> bool" where
  "hp_repr s r \<longleftrightarrow> map g_hp (hp_array s) = tr_hazards r \<and> chain (hp_array s) (free_head s) (tr_free r) \<and>
     distinct (tr_free r) \<and> hp_capacity s = length (hp_array s)"

definition retired_repr :: "retired_array \<Rightarrow> thread_record \<Rightarrow> bool" where
  "retired_repr a r \<longleftrightarrow> ra_current a \<le> ra_last a \<and> ra_last a = length (ra_retired a) \<and>
     take (ra_current a) (ra_retired a) = tr_retired r \<and> ra_last a = tr_capacity r"

text \<open>Guards that a client holds: in the array, off the free list, each once.\<close>

definition held :: "nat list \<Rightarrow> thread_record \<Rightarrow> bool" where
  "held gs r \<longleftrightarrow> distinct gs \<and> set gs \<subseteq> {..<length (tr_hazards r)} - set (tr_free r)"

text \<open>Two results that agree: both throw, or both return the same value in states that correspond.\<close>

definition same_result :: "('s \<Rightarrow> 'r \<Rightarrow> bool) \<Rightarrow> ('v \<times> 's) option \<Rightarrow> ('v \<times> 'r) option \<Rightarrow> bool" where
  "same_result R x y = rel_option (rel_prod (=) R) x y"

subsection \<open>The chain of free guards\<close>

lemma put_front_length [simp]: "length (put_front g p gs) = length gs"
  by (simp add: put_front_def)

lemma put_front_nth: "g < length gs \<Longrightarrow> put_front g p gs ! i = (if i = g then \<lparr>g_hp = 0, g_next = p\<rparr> else gs ! i)"
  by (simp add: put_front_def g_clear_def nth_list_update)

lemma chain_cong: "length gs' = length gs \<Longrightarrow> (\<And>x. x \<in> set xs \<Longrightarrow> g_next (gs' ! x) = g_next (gs ! x)) \<Longrightarrow>
    chain gs' p xs = chain gs p xs"
  by (induction xs arbitrary: p) auto

lemma chain_put_front:
  assumes "chain gs p xs" "g < length gs" "g \<notin> set xs"
  shows "chain (put_front g p gs) (Some g) (g # xs)"
proof -
  have "chain (put_front g p gs) p xs = chain gs p xs"
    using assms(2,3) by (intro chain_cong) (auto simp: put_front_nth)
  then show ?thesis using assms by (simp add: put_front_nth)
qed

lemma put_front_hp: "g < length gs \<Longrightarrow> map g_hp (put_front g p gs) = (map g_hp gs)[g := 0]"
  by (rule nth_equalityI) (simp_all add: put_front_nth nth_list_update)

lemma chain_det: "chain gs p xs \<Longrightarrow> p = (case xs of [] \<Rightarrow> None | x # _ \<Rightarrow> Some x)"
  by (cases xs) auto

lemma link_loop_length [simp]: "length (link_loop i n gs) = length gs"
  by (induction n arbitrary: i gs) simp_all

lemma link_loop_nth:
  "i + n \<le> length gs \<Longrightarrow> j < length gs \<Longrightarrow>
   link_loop i n gs ! j = (if i \<le> j \<and> j < i + n then (gs ! j)\<lparr>g_next := Some (Suc j)\<rparr> else gs ! j)"
  by (induction n arbitrary: i gs) (auto simp: nth_list_update)

lemma chain_upt:
  assumes "length gs = n" "\<And>j. j < n \<Longrightarrow> g_next (gs ! j) = (if Suc j = n then None else Some (Suc j))"
  shows "i \<le> n \<Longrightarrow> chain gs (if i = n then None else Some i) [i..<n]"
proof (induction "n - i" arbitrary: i)
  case (Suc k)
  then have "[i..<n] = i # [Suc i..<n]" by (simp add: upt_rec)
  moreover have "chain gs (if Suc i = n then None else Some (Suc i)) [Suc i..<n]"
    using Suc by (intro Suc(1)) auto
  ultimately show ?case using Suc assms by simp
qed simp

subsection \<open>The operations\<close>

lemma storage_ctor_repr:
  assumes "0 < hazard_ptr_count m"
  shows "\<exists>s. storage_ctor (hazard_ptr_count m) = Some s \<and> hp_repr s (create_thread_data m)"
proof -
  let ?n = "hazard_ptr_count m"
  let ?l = "link_loop 0 (?n - 1) (replicate ?n guard_ctor)"
  let ?gs = "?l[?n - 1 := (?l ! (?n - 1))\<lparr>g_next := None\<rparr>]"
  have gs: "?gs ! j = \<lparr>g_hp = 0, g_next = if Suc j = ?n then None else Some (Suc j)\<rparr>" if "j < ?n" for j
    using that assms by (auto simp: nth_list_update link_loop_nth guard_ctor_def)
  have "chain ?gs (Some 0) [0..<?n]"
    using chain_upt [of ?gs ?n 0] gs assms by simp
  moreover have "map g_hp ?gs = replicate ?n 0"
    using gs by (intro nth_equalityI) simp_all
  ultimately show ?thesis using assms by (simp add: storage_ctor_def hp_repr_def create_thread_data_def Let_def)
qed

lemma storage_alloc_repr:
  "hp_repr s r \<Longrightarrow> same_result hp_repr (storage_alloc s) (guard_alloc r)"
  by (cases "tr_free r") (auto simp: same_result_def hp_repr_def storage_alloc_def guard_alloc_def)

lemma storage_free_repr:
  assumes "hp_repr s r" "g < length (tr_hazards r)" "g \<notin> set (tr_free r)"
  shows "hp_repr (storage_free (Some g) s) (guard_free g r)"
proof -
  have "g < length (hp_array s)" using assms by (metis hp_repr_def length_map)
  then show ?thesis
    using assms by (simp add: hp_repr_def storage_free_def guard_free_def put_front_hp chain_put_front del: chain.simps(2))
qed

lemma alloc_loop_chain:
  assumes "chain gs p xs" "length arr = i + n" "\<forall>j < length arr. i \<le> j \<longrightarrow> arr ! j = None"
  shows "\<exists>q arr'. alloc_loop gs n i p arr = Some (i + min n (length xs), q, arr') \<and> chain gs q (drop n xs) \<and>
    (n \<le> length xs \<longrightarrow> arr' = take i arr @ map Some (take n xs))"
  using assms
proof (induction n arbitrary: i p xs arr)
  case (Suc n)
  show ?case
  proof (cases xs)
    case (Cons x ys)
    let ?arr = "arr[i := Some x]"
    have "\<exists>q arr'. alloc_loop gs n (Suc i) (g_next (gs ! x)) ?arr = Some (Suc i + min n (length ys), q, arr') \<and>
        chain gs q (drop n ys) \<and> (n \<le> length ys \<longrightarrow> arr' = take (Suc i) ?arr @ map Some (take n ys))"
      using Suc(2-4) Cons by (intro Suc(1)) auto
    moreover have "take (Suc i) ?arr = take i arr @ [Some x]"
      using Suc(3) by (simp add: take_Suc_conv_app_nth)
    ultimately show ?thesis using Suc(2-4) Cons by (auto simp: guard_array_reset_def)
  qed (use Suc in auto)
qed auto

lemma storage_alloc_array_repr:
  assumes "hp_repr s r"
  shows "same_result hp_repr (storage_alloc_array (guard_array_ctor n) s)
    (map_option (\<lambda>(gs, r). (map Some gs, r)) (guard_array_alloc n r))"
proof -
  have "chain (hp_array s) (free_head s) (tr_free r)" using assms by (simp add: hp_repr_def)
  then obtain q arr' where "alloc_loop (hp_array s) n 0 (free_head s) (replicate n None) =
      Some (min n (length (tr_free r)), q, arr')" "chain (hp_array s) q (drop n (tr_free r))"
    "n \<le> length (tr_free r) \<longrightarrow> arr' = map Some (take n (tr_free r))"
    using alloc_loop_chain [of "hp_array s" "free_head s" "tr_free r" "replicate n None" 0 n] by auto
  then show ?thesis
    using assms by (auto simp: same_result_def storage_alloc_array_def guard_array_ctor_def guard_array_alloc_def hp_repr_def)
qed

lemma free_loop_fold:
  "free_loop (map Some gs) p a = fold (\<lambda>g (p, a). (Some g, put_front g p a)) gs (p, a)"
  by (induction gs arbitrary: p a) simp_all

lemma storage_free_array_fold:
  "storage_free_array (map Some gs) s = fold (\<lambda>g. storage_free (Some g)) gs s"
proof (induction gs arbitrary: s)
  case (Cons g gs)
  have "storage_free_array (map Some (g # gs)) s = storage_free_array (map Some gs) (storage_free (Some g) s)"
    by (simp add: storage_free_array_def storage_free_def split_beta)
  then show ?case using Cons by simp
qed (simp add: storage_free_array_def)

lemma held_free:
  "held (g # gs) r \<Longrightarrow> held gs (guard_free g r)"
  by (auto simp: held_def guard_free_def)

lemma storage_free_array_repr:
  "hp_repr s r \<Longrightarrow> held gs r \<Longrightarrow> hp_repr (storage_free_array (map Some gs) s) (guard_array_free gs r)"
  unfolding storage_free_array_fold guard_array_free_def
proof (induction gs arbitrary: s r)
  case (Cons g gs)
  have "hp_repr (storage_free (Some g) s) (guard_free g r)"
    using Cons(2,3) by (intro storage_free_repr) (auto simp: held_def)
  then show ?case using Cons(1) held_free [OF Cons(3)] by simp
qed simp

lemma guard_array_set_repr:
  assumes "hp_repr s r" "idx < length gs" "held gs r"
  shows "\<exists>s'. guard_array_set idx p (map Some gs) s = Some s' \<and> hp_repr s' (guard_set (gs ! idx) p r)"
    "guard_array_clear idx (map Some gs) s = guard_array_set idx 0 (map Some gs) s"
proof -
  let ?a = "(hp_array s)[gs ! idx := g_set p (hp_array s ! (gs ! idx))]"
  have l: "gs ! idx < length (hp_array s)"
    using assms nth_mem [OF assms(2)] by (metis DiffE held_def hp_repr_def length_map lessThan_iff subsetD)
  have "chain ?a (free_head s) (tr_free r) = chain (hp_array s) (free_head s) (tr_free r)"
    using l by (intro chain_cong) (auto simp: nth_list_update g_set_def)
  moreover have "map g_hp ?a = (map g_hp (hp_array s))[gs ! idx := p]"
    by (simp add: map_update g_set_def)
  ultimately show "\<exists>s'. guard_array_set idx p (map Some gs) s = Some s' \<and> hp_repr s' (guard_set (gs ! idx) p r)"
    using assms by (simp add: guard_array_set_def at_def hp_repr_def guard_set_def)
  show "guard_array_clear idx (map Some gs) s = guard_array_set idx 0 (map Some gs) s"
    by (simp add: guard_array_clear_def guard_array_set_def g_clear_def g_set_def)
qed

lemma ra_push_repr:
  "retired_repr a r \<Longrightarrow> same_result retired_repr (ra_push p a) (retired_push p r)"
proof -
  assume a: "retired_repr a r"
  then have "ra_current a = length (tr_retired r)"
    by (metis length_take min.absorb2 retired_repr_def)
  then show ?thesis
    using a by (auto simp: same_result_def retired_repr_def ra_push_def retired_push_def Let_def take_Suc_conv_app_nth)
qed

subsection \<open>Refinement\<close>

subsection \<open>Sequences of operations\<close>

text \<open>What \<^verbatim>\<open>thread_data\<close> holds: the guards and the retired pointers of one thread. The operations are those
  that the thread itself applies, with \<open>Gs\<close> the guards that they return.\<close>

record thread_data =
  hazards :: thread_hp_storage
  retired :: retired_array

definition thread_data_ctor :: "nat \<Rightarrow> nat \<Rightarrow> thread_data option" where
  "thread_data_ctor guard_count retired_capacity =
     map_option (\<lambda>h. \<lparr>hazards = h, retired = retired_array_ctor retired_capacity\<rparr>) (storage_ctor guard_count)"

datatype thread_op =
    Alloc
  | Alloc_Array nat
  | Free nat
  | Free_Array "nat list"
  | Set_Guard nat addr
  | Push addr

datatype op_result = Guards "nat list" | Room bool

fun data_step :: "thread_op \<Rightarrow> thread_data \<Rightarrow> (op_result \<times> thread_data) option" where
  "data_step Alloc d = do { (g, h) \<leftarrow> storage_alloc (hazards d); Some (Guards [g], d\<lparr>hazards := h\<rparr>) }"
| "data_step (Alloc_Array n) d =
     do { (arr, h) \<leftarrow> storage_alloc_array (guard_array_ctor n) (hazards d);
          Some (Guards (map the arr), d\<lparr>hazards := h\<rparr>) }"
| "data_step (Free g) d = Some (Guards [], d\<lparr>hazards := storage_free (Some g) (hazards d)\<rparr>)"
| "data_step (Free_Array gs) d = Some (Guards [], d\<lparr>hazards := storage_free_array (map Some gs) (hazards d)\<rparr>)"
| "data_step (Set_Guard g p) d =
     do { h \<leftarrow> guard_array_set 0 p [Some g] (hazards d); Some (Guards [], d\<lparr>hazards := h\<rparr>) }"
| "data_step (Push p) d = do { (room, a) \<leftarrow> ra_push p (retired d); Some (Room room, d\<lparr>retired := a\<rparr>) }"

fun record_step :: "thread_op \<Rightarrow> thread_record \<Rightarrow> (op_result \<times> thread_record) option" where
  "record_step Alloc r = do { (g, r) \<leftarrow> guard_alloc r; Some (Guards [g], r) }"
| "record_step (Alloc_Array n) r = do { (gs, r) \<leftarrow> guard_array_alloc n r; Some (Guards gs, r) }"
| "record_step (Free g) r = Some (Guards [], guard_free g r)"
| "record_step (Free_Array gs) r = Some (Guards [], guard_array_free gs r)"
| "record_step (Set_Guard g p) r = Some (Guards [], guard_set g p r)"
| "record_step (Push p) r = do { (room, r) \<leftarrow> retired_push p r; Some (Room room, r) }"

text \<open>A thread frees and sets only guards that it holds.\<close>

fun held_op :: "thread_op \<Rightarrow> thread_record \<Rightarrow> bool" where
  "held_op (Free g) r \<longleftrightarrow> held [g] r"
| "held_op (Free_Array gs) r \<longleftrightarrow> held gs r"
| "held_op (Set_Guard g p) r \<longleftrightarrow> held [g] r"
| "held_op _ r \<longleftrightarrow> True"

fun legal_run :: "('e \<Rightarrow> 'a \<Rightarrow> bool) \<Rightarrow> ('e \<Rightarrow> 'a \<Rightarrow> ('r \<times> 'a) option) \<Rightarrow> 'e list \<Rightarrow> 'a \<Rightarrow> bool" where
  "legal_run legal step [] a \<longleftrightarrow> True"
| "legal_run legal step (e # es) a \<longleftrightarrow>
     legal e a \<and> (case step e a of None \<Rightarrow> True | Some (_, a) \<Rightarrow> legal_run legal step es a)"

text \<open>The contract of an implementation: a legal operation agrees with that of the data it implements,
  exceptions included. A run of legal operations then agrees too.\<close>

locale simulation =
  fixes rel :: "'c \<Rightarrow> 'a \<Rightarrow> bool"
    and exec :: "'e \<Rightarrow> 'c \<Rightarrow> ('r \<times> 'c) option"
    and spec :: "'e \<Rightarrow> 'a \<Rightarrow> ('r \<times> 'a) option"
    and legal :: "'e \<Rightarrow> 'a \<Rightarrow> bool"
  assumes agree: "rel c a \<Longrightarrow> legal e a \<Longrightarrow> same_result rel (exec e c) (spec e a)"
begin

lemma agree_cases:
  assumes "rel c a" "legal e a"
  obtains (Throws) "exec e c = None" "spec e a = None"
  | (Returns) r c' a' where "exec e c = Some (r, c')" "spec e a = Some (r, a')" "rel c' a'"
  using agree [OF assms] by (cases "exec e c"; cases "spec e a") (auto simp: same_result_def)

lemma runs_agree:
  "rel c a \<Longrightarrow> legal_run legal spec es a \<Longrightarrow> same_result rel (exec_seq exec es c) (exec_seq spec es a)"
proof (induction es arbitrary: c a)
  case (Cons e es)
  from Cons(3) have "legal e a" by simp
  with Cons(2) show ?case
  proof (cases rule: agree_cases)
    case (Returns r c' a')
    then have "same_result rel (exec_seq exec es c') (exec_seq spec es a')" using Cons by simp
    then show ?thesis
      using Returns
      by (cases "exec_seq exec es c'"; cases "exec_seq spec es a'") (auto simp: same_result_def)
  qed (simp add: same_result_def)
qed (simp add: same_result_def)

end

definition data_repr :: "thread_data \<Rightarrow> thread_record \<Rightarrow> bool" where
  "data_repr d r \<longleftrightarrow> hp_repr (hazards d) r \<and> retired_repr (retired d) r"

lemma retired_kept:
  "retired_repr a (guard_free g r) = retired_repr a r" "retired_repr a (guard_set g p r) = retired_repr a r"
  "guard_alloc r = Some (g, r') \<Longrightarrow> retired_repr a r' = retired_repr a r"
  "guard_array_alloc n r = Some (gs, r') \<Longrightarrow> retired_repr a r' = retired_repr a r"
  by (auto simp: retired_repr_def guard_free_def guard_set_def guard_alloc_def guard_array_alloc_def
      split: list.splits if_splits)

lemma retired_kept_array: "retired_repr a (guard_array_free gs r) = retired_repr a r"
  unfolding guard_array_free_def by (induction gs arbitrary: r) (simp_all add: retired_kept)

lemma hazards_kept: "retired_push p r = Some (b, r') \<Longrightarrow> hp_repr h r' = hp_repr h r"
  by (auto simp: retired_push_def hp_repr_def split: if_splits)

lemma same_result_cases:
  assumes "same_result R x y"
  obtains (Throws) "x = None" "y = None" | (Returns) v s r where "x = Some (v, s)" "y = Some (v, r)" "R s r"
  using assms by (cases x; cases y) (auto simp: same_result_def)

lemma data_agrees:
  assumes d: "data_repr d r" and l: "held_op e r"
  shows "same_result data_repr (data_step e d) (record_step e r)"
proof -
  have h: "hp_repr (hazards d) r" and a: "retired_repr (retired d) r" using d by (simp_all add: data_repr_def)
  show ?thesis
  proof (cases e)
    case Alloc
    show ?thesis
      using storage_alloc_repr [OF h]
      by (cases rule: same_result_cases)
        (use a in \<open>auto simp: Alloc same_result_def data_repr_def retired_kept\<close>)
  next
    case (Alloc_Array n)
    show ?thesis
      using storage_alloc_array_repr [OF h, of n]
      by (cases rule: same_result_cases)
        (use a in \<open>auto simp: Alloc_Array same_result_def data_repr_def retired_kept comp_def\<close>)
  next
    case (Free g)
    then have "g < length (tr_hazards r)" "g \<notin> set (tr_free r)" using l by (auto simp: held_def)
    then show ?thesis
      using a storage_free_repr [OF h] by (simp add: Free same_result_def data_repr_def retired_kept)
  next
    case (Free_Array gs)
    then show ?thesis
      using a l storage_free_array_repr [OF h] by (simp add: same_result_def data_repr_def retired_kept_array)
  next
    case (Set_Guard g p)
    then obtain s' where "guard_array_set 0 p [Some g] (hazards d) = Some s'" "hp_repr s' (guard_set g p r)"
      using guard_array_set_repr(1) [OF h, of 0 "[g]" p] l by auto
    then show ?thesis using a by (simp add: Set_Guard same_result_def data_repr_def retired_kept)
  next
    case (Push p)
    show ?thesis
      using ra_push_repr [OF a, of p]
      by (cases rule: same_result_cases)
        (use h in \<open>auto simp: Push same_result_def data_repr_def hazards_kept\<close>)
  qed
qed

interpretation thread_storage: simulation data_repr data_step record_step held_op
  by unfold_locales (rule data_agrees)

lemma thread_data_ctor_repr:
  assumes "0 < hazard_ptr_count m"
  obtains d where "thread_data_ctor (hazard_ptr_count m) (max_retired_ptr_count m) = Some d"
    "data_repr d (create_thread_data m)"
  using storage_ctor_repr [OF assms] that
  by (auto simp: thread_data_ctor_def data_repr_def retired_repr_def retired_array_ctor_def create_thread_data_def)

subsection \<open>Refinement\<close>

text \<open>C12: The storage of a thread implements its record. From the constructors on, every sequence of
  operations in which the thread frees and sets only guards that it holds gives, on the linked list of guards and the
  array of retired pointers, the results that it gives on the record, and throws or runs past the array exactly when
  the record does.\<close>

theorem storage_refines:
  assumes "0 < hazard_ptr_count m" "legal_run held_op record_step es (create_thread_data m)"
  shows "\<exists>d. thread_data_ctor (hazard_ptr_count m) (max_retired_ptr_count m) = Some d \<and>
    same_result data_repr (exec_seq data_step es d) (exec_seq record_step es (create_thread_data m))"
  using thread_data_ctor_repr [OF assms(1)] thread_storage.runs_agree [OF _ assms(2)] by metis

theorem storage_refines_witness:
  "let m = HP 3; es = [Alloc, Alloc_Array 2, Set_Guard 1 64, Push 32, Free 0, Free_Array [2, 1], Alloc, Alloc] in
   legal_run held_op record_step es (create_thread_data m) \<and>
   map_option fst (exec_seq record_step es (create_thread_data m)) =
     Some [Guards [0], Guards [1, 2], Guards [], Room True, Guards [], Guards [], Guards [1], Guards [2]] \<and>
   (\<exists>d. thread_data_ctor 3 (max_retired_ptr_count m) = Some d \<and>
      same_result data_repr (exec_seq data_step es d) (exec_seq record_step es (create_thread_data m)))"
proof -
  let ?m = "HP 3"
  let ?es = "[Alloc, Alloc_Array 2, Set_Guard 1 64, Push 32, Free 0, Free_Array [2, 1], Alloc, Alloc]"
  have r: "create_thread_data ?m = \<lparr>tr_hazards = [0, 0, 0], tr_free = [0, 1, 2], tr_retired = [],
      tr_capacity = 600, tr_owner = 0, tr_bFree = False\<rparr>"
    by (simp add: create_thread_data_def HP_def smr_ctor_def calc_retired_size_def c_nMaxThreadCount_def upt_rec
        numeral_3_eq_3)
  have l: "legal_run held_op record_step ?es (create_thread_data ?m)"
    and e: "map_option fst (exec_seq record_step ?es (create_thread_data ?m)) =
      Some [Guards [0], Guards [1, 2], Guards [], Room True, Guards [], Guards [], Guards [1], Guards [2]]"
    unfolding r by code_simp+
  have n: "hazard_ptr_count ?m = 3" by (simp add: HP_def smr_ctor_def)
  show ?thesis using storage_refines [OF _ l] l e by (simp add: n Let_def del: data_step.simps record_step.simps legal_run.simps)
qed

end
