(* ===== verification/Hazard_Guards.thy ===== *)
theory Hazard_Guards
  imports Hazard_Storage Hazard_Detach
begin

text \<open>
  The objects through which clients use the guards of their thread: \<open>HP::Guard\<close>, \<open>HP::GuardArray\<close> and the
  ownership side of \<open>HP::guarded_ptr\<close>, all of \<^verbatim>\<open>cds/gc/hp.h\<close>. An object is its member \<open>guard_\<close>, the index of a guard or
  \<open>None\<close> when it is unlinked; a function that changes objects returns them updated.

  The objects that a thread has alive form a state, on which every constructor, assignment and destructor is
  a step. The lemmas show who owns a guard: each guard of the thread is on the free list or owned by exactly one
  object, whatever the objects do.
\<close>

subsection \<open>Guard\<close>

type_synonym guard_obj = "nat option"

definition Guard_null :: guard_obj where "Guard_null = None"

definition Guard_is_linked :: "guard_obj \<Rightarrow> bool" where "Guard_is_linked this \<longleftrightarrow> this \<noteq> None"

definition Guard_link :: "guard_obj \<Rightarrow> thread_record \<Rightarrow> (guard_obj \<times> thread_record) option" where
  "Guard_link this r =
     (if this = None then do { (g, r) \<leftarrow> guard_alloc r; Some (Some g, r) } else Some (this, r))"

definition Guard_ctor :: "thread_record \<Rightarrow> (guard_obj \<times> thread_record) option" where
  "Guard_ctor r = do { (g, r) \<leftarrow> guard_alloc r; Some (Some g, r) }"

definition Guard_unlink :: "guard_obj \<Rightarrow> thread_record \<Rightarrow> guard_obj \<times> thread_record" where
  "Guard_unlink this r = (case this of None \<Rightarrow> (None, r) | Some g \<Rightarrow> (None, guard_free g r))"

text \<open>The move constructor leaves the source unlinked; the move assignment swaps.\<close>

definition Guard_move :: "guard_obj \<Rightarrow> guard_obj \<times> guard_obj" where "Guard_move src = (src, None)"

definition Guard_move_assign :: "guard_obj \<Rightarrow> guard_obj \<Rightarrow> guard_obj \<times> guard_obj" where
  "Guard_move_assign this src = (src, this)"

definition Guard_assign :: "guard_obj \<Rightarrow> addr \<Rightarrow> thread_record \<Rightarrow> (addr \<times> thread_record) option" where
  "Guard_assign this p r = do { g \<leftarrow> this; Some (p, guard_set g p r) }"

definition Guard_assign_null :: "guard_obj \<Rightarrow> thread_record \<Rightarrow> thread_record option" where
  "Guard_assign_null this r = do { g \<leftarrow> this; Some (guard_set g 0 r) }"

definition Guard_assign_marked :: "guard_obj \<Rightarrow> marked_ptr \<Rightarrow> thread_record \<Rightarrow> (addr \<times> thread_record) option" where
  "Guard_assign_marked this p r = Guard_assign this (mp_ptr p) r"

definition Guard_clear :: "guard_obj \<Rightarrow> thread_record \<Rightarrow> thread_record option" where
  "Guard_clear this r = Guard_assign_null this r"

definition Guard_get_native :: "guard_obj \<Rightarrow> thread_record \<Rightarrow> addr option" where
  "Guard_get_native this r = do { g \<leftarrow> this; Some (guard_get g r) }"

definition Guard_copy :: "guard_obj \<Rightarrow> guard_obj \<Rightarrow> thread_record \<Rightarrow> thread_record option" where
  "Guard_copy this src r = do { p \<leftarrow> Guard_get_native src r; (_, r) \<leftarrow> Guard_assign this p r; Some r }"

definition Guard_release :: "guard_obj \<Rightarrow> guard_obj \<times> guard_obj" where "Guard_release this = (this, None)"

text \<open>\<open>guarded_ptr\<close> from a guard that another object gave up, and the move from a \<open>Guard\<close>.\<close>

definition guarded_ptr_ctor :: "guard_obj \<Rightarrow> guard_obj" where "guarded_ptr_ctor g = g"

definition guarded_ptr_of_Guard :: "guard_obj \<Rightarrow> guard_obj \<times> guard_obj" where
  "guarded_ptr_of_Guard g = (let (p, g) = Guard_release g in (p, g))"

definition guarded_ptr_reset :: "guard_obj \<Rightarrow> addr \<Rightarrow> thread_record \<Rightarrow> (guard_obj \<times> thread_record) option" where
  "guarded_ptr_reset this p r =
     do { (this, r) \<leftarrow> Guard_link this r; g \<leftarrow> this; Some (this, guard_set g p r) }"

subsection \<open>GuardArray\<close>

definition GuardArray_ctor :: "nat \<Rightarrow> thread_record \<Rightarrow> (guard_array \<times> thread_record) option" where
  "GuardArray_ctor n r = do { (gs, r) \<leftarrow> guard_array_alloc n r; Some (map Some gs, r) }"

definition present :: "guard_array \<Rightarrow> nat list" where
  "present arr = map the (filter (\<lambda>g. g \<noteq> None) arr)"

definition GuardArray_dtor :: "guard_array \<Rightarrow> thread_record \<Rightarrow> thread_record" where
  "GuardArray_dtor arr r = guard_array_free (present arr) r"

definition GuardArray_assign :: "guard_array \<Rightarrow> nat \<Rightarrow> addr \<Rightarrow> thread_record \<Rightarrow> (addr \<times> thread_record) option" where
  "GuardArray_assign this nIndex p r = do { g \<leftarrow> at this nIndex; Guard_assign g p r }"

definition GuardArray_assign_marked ::
  "guard_array \<Rightarrow> nat \<Rightarrow> marked_ptr \<Rightarrow> thread_record \<Rightarrow> (addr \<times> thread_record) option" where
  "GuardArray_assign_marked this nIndex p r = GuardArray_assign this nIndex (mp_ptr p) r"

definition GuardArray_get_native :: "guard_array \<Rightarrow> nat \<Rightarrow> thread_record \<Rightarrow> addr option" where
  "GuardArray_get_native this nIndex r = do { g \<leftarrow> at this nIndex; Guard_get_native g r }"

definition GuardArray_copy_guard :: "guard_array \<Rightarrow> nat \<Rightarrow> guard_obj \<Rightarrow> thread_record \<Rightarrow> thread_record option" where
  "GuardArray_copy_guard this nIndex src r =
     do { p \<leftarrow> Guard_get_native src r; (_, r) \<leftarrow> GuardArray_assign this nIndex p r; Some r }"

definition GuardArray_copy :: "guard_array \<Rightarrow> nat \<Rightarrow> nat \<Rightarrow> thread_record \<Rightarrow> thread_record option" where
  "GuardArray_copy this nDestIndex nSrcIndex r =
     do { p \<leftarrow> GuardArray_get_native this nSrcIndex r; (_, r) \<leftarrow> GuardArray_assign this nDestIndex p r; Some r }"

definition GuardArray_clear :: "guard_array \<Rightarrow> nat \<Rightarrow> thread_record \<Rightarrow> thread_record option" where
  "GuardArray_clear this nIndex r = do { g \<leftarrow> at this nIndex; Guard_assign_null g r }"

definition GuardArray_release :: "guard_array \<Rightarrow> nat \<Rightarrow> (guard_obj \<times> guard_array) option" where
  "GuardArray_release this nIndex = guard_array_release nIndex this"

subsection \<open>The objects of a thread\<close>

text \<open>The live objects with one guard, \<open>Guard\<close> or \<open>guarded_ptr\<close>, and the live arrays.\<close>

record guard_world =
  gw_tls :: thread_record
  gw_objs :: "guard_obj list"
  gw_arrays :: "guard_array list"

datatype guard_op =
    New_Guard
  | New_Unlinked
  | New_Moved nat
  | Move_Assign nat nat
  | Link nat
  | Unlink nat
  | Destroy nat
  | Assign nat addr
  | Clear nat
  | Copy nat nat
  | Reset nat addr
  | New_Array nat
  | Array_Assign nat nat addr
  | Array_Copy nat nat nat
  | Array_Clear nat nat
  | Array_Release nat nat
  | Destroy_Array nat

definition drop_nth :: "nat \<Rightarrow> 'a list \<Rightarrow> 'a list" where "drop_nth i xs = take i xs @ drop (Suc i) xs"

fun guard_step :: "guard_op \<Rightarrow> guard_world \<Rightarrow> guard_world option" where
  "guard_step New_Guard w =
     do { (g, r) \<leftarrow> Guard_ctor (gw_tls w); Some (w\<lparr>gw_tls := r, gw_objs := gw_objs w @ [g]\<rparr>) }"
| "guard_step New_Unlinked w = Some (w\<lparr>gw_objs := gw_objs w @ [Guard_null]\<rparr>)"
| "guard_step (New_Moved i) w =
     do { src \<leftarrow> at (gw_objs w) i;
          let (this, src) = Guard_move src;
          Some (w\<lparr>gw_objs := (gw_objs w)[i := src] @ [this]\<rparr>) }"
| "guard_step (Move_Assign i j) w =
     do { this \<leftarrow> at (gw_objs w) i; src \<leftarrow> at (gw_objs w) j;
          let (this, src) = Guard_move_assign this src;
          Some (w\<lparr>gw_objs := (gw_objs w)[i := this, j := src]\<rparr>) }"
| "guard_step (Link i) w =
     do { this \<leftarrow> at (gw_objs w) i; (this, r) \<leftarrow> Guard_link this (gw_tls w);
          Some (w\<lparr>gw_tls := r, gw_objs := (gw_objs w)[i := this]\<rparr>) }"
| "guard_step (Unlink i) w =
     do { this \<leftarrow> at (gw_objs w) i;
          let (this, r) = Guard_unlink this (gw_tls w);
          Some (w\<lparr>gw_tls := r, gw_objs := (gw_objs w)[i := this]\<rparr>) }"
| "guard_step (Destroy i) w =
     do { this \<leftarrow> at (gw_objs w) i;
          let (this, r) = Guard_unlink this (gw_tls w);
          Some (w\<lparr>gw_tls := r, gw_objs := drop_nth i (gw_objs w)\<rparr>) }"
| "guard_step (Assign i p) w =
     do { this \<leftarrow> at (gw_objs w) i; (_, r) \<leftarrow> Guard_assign this p (gw_tls w); Some (w\<lparr>gw_tls := r\<rparr>) }"
| "guard_step (Clear i) w =
     do { this \<leftarrow> at (gw_objs w) i; r \<leftarrow> Guard_clear this (gw_tls w); Some (w\<lparr>gw_tls := r\<rparr>) }"
| "guard_step (Copy i j) w =
     do { this \<leftarrow> at (gw_objs w) i; src \<leftarrow> at (gw_objs w) j; r \<leftarrow> Guard_copy this src (gw_tls w);
          Some (w\<lparr>gw_tls := r\<rparr>) }"
| "guard_step (Reset i p) w =
     do { this \<leftarrow> at (gw_objs w) i; (this, r) \<leftarrow> guarded_ptr_reset this p (gw_tls w);
          Some (w\<lparr>gw_tls := r, gw_objs := (gw_objs w)[i := this]\<rparr>) }"
| "guard_step (New_Array n) w =
     do { (arr, r) \<leftarrow> GuardArray_ctor n (gw_tls w); Some (w\<lparr>gw_tls := r, gw_arrays := gw_arrays w @ [arr]\<rparr>) }"
| "guard_step (Array_Assign k i p) w =
     do { arr \<leftarrow> at (gw_arrays w) k; (_, r) \<leftarrow> GuardArray_assign arr i p (gw_tls w); Some (w\<lparr>gw_tls := r\<rparr>) }"
| "guard_step (Array_Copy k i j) w =
     do { arr \<leftarrow> at (gw_arrays w) k; r \<leftarrow> GuardArray_copy arr i j (gw_tls w); Some (w\<lparr>gw_tls := r\<rparr>) }"
| "guard_step (Array_Clear k i) w =
     do { arr \<leftarrow> at (gw_arrays w) k; r \<leftarrow> GuardArray_clear arr i (gw_tls w); Some (w\<lparr>gw_tls := r\<rparr>) }"
| "guard_step (Array_Release k i) w =
     do { arr \<leftarrow> at (gw_arrays w) k; (g, arr) \<leftarrow> GuardArray_release arr i;
          Some (w\<lparr>gw_objs := gw_objs w @ [guarded_ptr_ctor g], gw_arrays := (gw_arrays w)[k := arr]\<rparr>) }"
| "guard_step (Destroy_Array k) w =
     do { arr \<leftarrow> at (gw_arrays w) k;
          Some (w\<lparr>gw_tls := GuardArray_dtor arr (gw_tls w), gw_arrays := drop_nth k (gw_arrays w)\<rparr>) }"

fun guard_run :: "guard_op list \<Rightarrow> guard_world \<Rightarrow> guard_world option" where
  "guard_run [] w = Some w"
| "guard_run (e # es) w = do { w \<leftarrow> guard_step e w; guard_run es w }"

text \<open>A thread that just attached, with no objects.\<close>

definition new_world :: "smr \<Rightarrow> guard_world" where
  "new_world m = \<lparr>gw_tls = create_thread_data m, gw_objs = [], gw_arrays = []\<rparr>"

subsection \<open>Who owns a guard\<close>

fun opt_mset :: "guard_obj \<Rightarrow> nat multiset" where
  "opt_mset None = {#}"
| "opt_mset (Some g) = {#g#}"

definition owned_by :: "guard_obj list \<Rightarrow> nat multiset" where "owned_by xs = sum_list (map opt_mset xs)"

definition owned :: "guard_world \<Rightarrow> nat multiset" where
  "owned w = owned_by (gw_objs w) + sum_list (map owned_by (gw_arrays w))"

definition account_ok :: "thread_record \<Rightarrow> nat multiset \<Rightarrow> bool" where
  "account_ok r M \<longleftrightarrow> M + mset (tr_free r) = mset [0..<length (tr_hazards r)] \<and>
     (\<forall>g \<in> set (tr_free r). tr_hazards r ! g = 0)"

abbreviation world_ok :: "guard_world \<Rightarrow> bool" where "world_ok w \<equiv> account_ok (gw_tls w) (owned w)"

lemma sum_list_update_add:
  fixes f :: "'a \<Rightarrow> 'b :: comm_monoid_add"
  assumes "i < length xs"
  shows "sum_list (map f (xs[i := y])) + f (xs ! i) = sum_list (map f xs) + f y"
    "sum_list (map f (drop_nth i xs)) + f (xs ! i) = sum_list (map f xs)"
proof -
  have "sum_list (map f xs) = sum_list (map f (take i xs)) + (f (xs ! i) + sum_list (map f (drop (Suc i) xs)))"
    using arg_cong [OF id_take_nth_drop [OF assms], of "\<lambda>xs. sum_list (map f xs)"] by simp
  then show "sum_list (map f (xs[i := y])) + f (xs ! i) = sum_list (map f xs) + f y"
    "sum_list (map f (drop_nth i xs)) + f (xs ! i) = sum_list (map f xs)"
    by (simp_all add: drop_nth_def upd_conv_take_nth_drop [OF assms] ac_simps)
qed

lemma owned_by_simps [simp]:
  "owned_by [] = {#}" "owned_by (xs @ ys) = owned_by xs + owned_by ys" "owned_by [g] = opt_mset g"
  by (simp_all add: owned_by_def)

lemma owned_by_Some [simp]: "owned_by (map Some gs) = mset gs"
  by (induction gs) (simp_all add: owned_by_def)

lemma owned_by_present: "owned_by arr = mset (present arr)"
proof (induction arr)
  case (Cons g arr)
  then show ?case by (cases g) (simp_all add: owned_by_def present_def)
qed (simp add: present_def)

lemma owned_by_update:
  assumes "i < length xs"
  shows "owned_by (xs[i := y]) + opt_mset (xs ! i) = owned_by xs + opt_mset y"
    "owned_by (drop_nth i xs) + opt_mset (xs ! i) = owned_by xs"
  unfolding owned_by_def by (rule sum_list_update_add [OF assms])+

lemma account_ok_owned:
  assumes "account_ok r M" "g \<in># M"
  shows "g < length (tr_hazards r)" "g \<notin> set (tr_free r)"
proof -
  let ?n = "length (tr_hazards r)"
  have "count M g + count (mset (tr_free r)) g = count (mset [0..<?n]) g"
    using assms(1) unfolding account_ok_def by (metis count_union)
  also have "\<dots> = (if g < ?n then 1 else 0)"
    using distinct_count_atmost_1 [of "[0..<?n]"] by (simp del: mset_upt)
  finally have c: "count M g + count (mset (tr_free r)) g = (if g < ?n then 1 else 0)" .
  have m: "0 < count M g" using assms(2) by simp
  show "g < ?n" using c m by (cases "g < ?n") simp_all
  then have "count (mset (tr_free r)) g = 0" using c m by (simp only: if_True)
  then show "g \<notin> set (tr_free r)" by (simp add: count_eq_zero_iff)
qed

lemma account_ok_alloc:
  "account_ok r M \<Longrightarrow> guard_alloc r = Some (g, r') \<Longrightarrow> account_ok r' (add_mset g M)"
  by (auto simp: guard_alloc_def account_ok_def split: list.splits)

lemma account_ok_free:
  assumes "account_ok r (add_mset g M)"
  shows "account_ok (guard_free g r) M"
proof -
  have "g < length (tr_hazards r)" using account_ok_owned(1) [OF assms] by simp
  then show ?thesis using assms by (auto simp: account_ok_def guard_free_def nth_list_update)
qed

lemma account_ok_set:
  assumes "account_ok r M" "g \<in># M"
  shows "account_ok (guard_set g p r) M"
  using assms account_ok_owned [OF assms] by (auto simp: account_ok_def guard_set_def nth_list_update)

lemma account_ok_alloc_array:
  assumes "account_ok r M" "guard_array_alloc n r = Some (gs, r')"
  shows "account_ok r' (mset gs + M)"
proof -
  have n: "n \<le> length (tr_free r)" "gs = take n (tr_free r)" "r' = r\<lparr>tr_free := drop n (tr_free r)\<rparr>"
    using assms(2) by (simp_all add: guard_array_alloc_def split: if_splits)
  have "mset gs + M + mset (tr_free r') = M + mset (take n (tr_free r) @ drop n (tr_free r))"
    unfolding n by (simp add: ac_simps del: append_take_drop_id)
  then have "mset gs + M + mset (tr_free r') = M + mset (tr_free r)" by (simp only: append_take_drop_id)
  then have "mset gs + M + mset (tr_free r') = mset [0..<length (tr_hazards r)]"
    using assms(1) unfolding account_ok_def by metis
  moreover have "\<forall>g \<in> set (tr_free r'). tr_hazards r ! g = 0"
    using assms(1) set_drop_subset [of n "tr_free r"] by (auto simp: account_ok_def n)
  moreover have "tr_hazards r' = tr_hazards r" by (simp add: n)
  ultimately show ?thesis unfolding account_ok_def by (simp only: simp_thms)
qed

lemma account_ok_free_array: "account_ok r (mset gs + M) \<Longrightarrow> account_ok (guard_array_free gs r) M"
  unfolding guard_array_free_def by (induction gs arbitrary: r) (simp_all add: account_ok_free)

lemma owned_obj: "at (gw_objs w) i = Some (Some g) \<Longrightarrow> g \<in># owned w"
  using owned_by_update(2) [of i "gw_objs w"]
  by (auto simp: at_def owned_def split: if_splits) (metis add_mset_add_single union_iff union_single_eq_member)

lemma owned_array:
  assumes "at (gw_arrays w) k = Some arr" "at arr i = Some (Some g)"
  shows "g \<in># owned w"
proof -
  have "g \<in># owned_by arr"
    using owned_by_update(2) [of i arr] assms(2)
    by (auto simp: at_def split: if_splits) (metis add_mset_add_single union_single_eq_member)
  moreover have "sum_list (map owned_by (gw_arrays w)) = sum_list (map owned_by (drop_nth k (gw_arrays w))) + owned_by arr"
    using assms(1) sum_list_update_add(2) [of k "gw_arrays w" owned_by] by (simp add: at_def split: if_splits)
  ultimately show ?thesis by (simp add: owned_def)
qed

subsection \<open>Every step keeps the account\<close>

text \<open>The guards that a step may write: those of the objects that it names, unless it only moves them.\<close>

fun touched :: "guard_op \<Rightarrow> guard_world \<Rightarrow> nat set" where
  "touched (Unlink i) w = set_option (Option.bind (at (gw_objs w) i) id)"
| "touched (Destroy i) w = set_option (Option.bind (at (gw_objs w) i) id)"
| "touched (Assign i p) w = set_option (Option.bind (at (gw_objs w) i) id)"
| "touched (Clear i) w = set_option (Option.bind (at (gw_objs w) i) id)"
| "touched (Copy i j) w = set_option (Option.bind (at (gw_objs w) i) id)"
| "touched (Reset i p) w =
     (case Option.bind (at (gw_objs w) i) id of Some g \<Rightarrow> {g} | None \<Rightarrow> set (take 1 (tr_free (gw_tls w))))"
| "touched (Array_Assign k i p) w = set_option (Option.bind (Option.bind (at (gw_arrays w) k) (\<lambda>arr. at arr i)) id)"
| "touched (Array_Copy k i j) w = set_option (Option.bind (Option.bind (at (gw_arrays w) k) (\<lambda>arr. at arr i)) id)"
| "touched (Array_Clear k i) w = set_option (Option.bind (Option.bind (at (gw_arrays w) k) (\<lambda>arr. at arr i)) id)"
| "touched (Destroy_Array k) w = (case at (gw_arrays w) k of None \<Rightarrow> {} | Some arr \<Rightarrow> set (present arr))"
| "touched _ w = {}"

lemmas guard_defs = Guard_ctor_def Guard_null_def Guard_link_def Guard_unlink_def Guard_move_def Guard_move_assign_def
  Guard_assign_def Guard_assign_null_def Guard_clear_def Guard_copy_def Guard_get_native_def
  guarded_ptr_reset_def guarded_ptr_ctor_def GuardArray_ctor_def GuardArray_assign_def GuardArray_copy_def
  GuardArray_get_native_def GuardArray_clear_def

text \<open>The frame of an operation on the storage: nothing but the guards named changes, and the size stays.\<close>

definition frame :: "nat set \<Rightarrow> thread_record \<Rightarrow> thread_record \<Rightarrow> bool" where
  "frame G r r' \<longleftrightarrow> length (tr_hazards r') = length (tr_hazards r) \<and>
     (\<forall>g. g \<notin> G \<longrightarrow> tr_hazards r' ! g = tr_hazards r ! g)"

lemma frame_storage:
  "frame {} r r" "guard_alloc r = Some (g, r') \<Longrightarrow> frame {} r r'" "frame {g} r (guard_free g r)"
  "frame {g} r (guard_set g p r)" "guard_array_alloc n r = Some (gs, r') \<Longrightarrow> frame {} r r'"
  by (auto simp: frame_def guard_alloc_def guard_free_def guard_set_def guard_array_alloc_def split: list.splits if_splits)

lemma frame_free_array: "frame (set gs) r (guard_array_free gs r)"
  unfolding guard_array_free_def
  by (induction gs arbitrary: r) (auto simp: frame_def guard_free_def)

lemma owned_simps:
  "owned (w\<lparr>gw_tls := r\<rparr>) = owned w"
  "owned (w\<lparr>gw_tls := r, gw_objs := xs\<rparr>) = owned_by xs + sum_list (map owned_by (gw_arrays w))"
  "owned (w\<lparr>gw_objs := xs\<rparr>) = owned_by xs + sum_list (map owned_by (gw_arrays w))"
  "owned (w\<lparr>gw_objs := xs, gw_arrays := as\<rparr>) = owned_by xs + sum_list (map owned_by as)"
  "owned (w\<lparr>gw_tls := r, gw_arrays := as\<rparr>) = owned_by (gw_objs w) + sum_list (map owned_by as)"
  by (simp_all add: owned_def)

text \<open>The account of a step: what the object at \<open>i\<close> owns comes off, what it owns afterwards is added.\<close>

lemma at_Some: "at xs i = Some x \<longleftrightarrow> i < length xs \<and> xs ! i = x"
  by (auto simp: at_def)

lemma owned_split:
  assumes "at (gw_objs w) i = Some x"
  shows "owned_by ((gw_objs w)[i := None]) + sum_list (map owned_by (gw_arrays w)) + opt_mset x = owned w"
    "owned_by ((gw_objs w)[i := Some g]) + sum_list (map owned_by (gw_arrays w)) + opt_mset x = add_mset g (owned w)"
    "owned_by (drop_nth i (gw_objs w)) + sum_list (map owned_by (gw_arrays w)) + opt_mset x = owned w"
  using assms owned_by_update(1) [of i "gw_objs w" None] owned_by_update(1) [of i "gw_objs w" "Some g"]
    owned_by_update(2) [of i "gw_objs w"]
  by (auto simp: at_Some owned_def ac_simps)

lemma owned_split_array:
  assumes "at (gw_arrays w) k = Some arr"
  shows "owned_by (gw_objs w) + sum_list (map owned_by (drop_nth k (gw_arrays w))) + owned_by arr = owned w"
    "i < length arr \<Longrightarrow> owned_by (gw_objs w @ [arr ! i]) + sum_list (map owned_by ((gw_arrays w)[k := arr[i := None]])) = owned w"
proof -
  have k: "k < length (gw_arrays w)" "gw_arrays w ! k = arr" using assms by (simp_all add: at_Some)
  show "owned_by (gw_objs w) + sum_list (map owned_by (drop_nth k (gw_arrays w))) + owned_by arr = owned w"
    using sum_list_update_add(2) [OF k(1), of owned_by] by (simp add: k owned_def ac_simps)
  assume i: "i < length arr"
  let ?S = "sum_list (map owned_by ((gw_arrays w)[k := arr[i := None]]))"
  have "?S + owned_by arr = sum_list (map owned_by (gw_arrays w)) + owned_by (arr[i := None])"
    using sum_list_update_add(1) [OF k(1), of owned_by "arr[i := None]"] by (simp add: k)
  moreover have "owned_by (arr[i := None]) + opt_mset (arr ! i) = owned_by arr"
    using owned_by_update(1) [OF i, of None] by simp
  ultimately have "?S + opt_mset (arr ! i) + owned_by (arr[i := None]) =
      sum_list (map owned_by (gw_arrays w)) + owned_by (arr[i := None])"
    by (metis union_assoc union_commute)
  then have "?S + opt_mset (arr ! i) = sum_list (map owned_by (gw_arrays w))" by simp
  then show "owned_by (gw_objs w @ [arr ! i]) + ?S = owned w" by (simp add: owned_def ac_simps)
qed

lemma owned_by_swap:
  assumes "at xs i = Some x" "at xs j = Some y"
  shows "owned_by (xs[i := y, j := x]) = owned_by xs"
proof -
  have "owned_by xs = sum_mset (image_mset opt_mset (mset xs))" for xs
    by (simp add: owned_by_def sum_mset_sum_list flip: mset_map)
  moreover have "mset (xs[i := y, j := x]) = mset xs"
    using assms mset_swap [of j xs i] by (auto simp: at_Some)
  ultimately show ?thesis by simp
qed

text \<open>Writing and unlinking through the object at a place that owns a guard, or owns none.\<close>

lemma write_ok:
  assumes "world_ok w" "Guard_assign this p (gw_tls w) = Some (q, r)" "set_option this \<subseteq> set_mset (owned w)"
  shows "account_ok r (owned w) \<and> frame (set_option this) (gw_tls w) r"
  using assms account_ok_set [OF assms(1)] frame_storage(4) by (cases this) (auto simp: Guard_assign_def)

lemma write_null: "Guard_assign_null this r = map_option snd (Guard_assign this 0 r)"
  by (cases this) (simp_all add: Guard_assign_def Guard_assign_null_def)

lemma write_copy: "Guard_copy this src r = Some r' \<Longrightarrow> \<exists>p. Guard_assign this p r = Some (p, r')"
  by (cases this; cases src) (auto simp: guard_defs)

lemma unlink_ok:
  assumes "account_ok r M" "M = N + opt_mset this"
  shows "account_ok (snd (Guard_unlink this r)) N \<and> frame (set_option this) r (snd (Guard_unlink this r)) \<and>
    fst (Guard_unlink this r) = None"
  using assms account_ok_free frame_storage(1,3) by (cases this) (auto simp: Guard_unlink_def)

lemma link_ok:
  assumes "account_ok r M" "Guard_link this r = Some (that, r')"
  shows "\<exists>N. account_ok r' N \<and> N + opt_mset this = M + opt_mset that \<and> frame {} r r' \<and> that \<noteq> None"
proof (cases this)
  case None
  then show ?thesis
    using assms(2) account_ok_alloc [OF assms(1)] frame_storage(2) by (fastforce simp: Guard_link_def)
next
  case (Some g)
  then show ?thesis using assms frame_storage(1) by (auto simp: Guard_link_def)
qed

lemma frame_trans: "frame G r r' \<Longrightarrow> frame H r' r'' \<Longrightarrow> frame (G \<union> H) r r''"
  by (auto simp: frame_def)

lemma obj_owned: "at (gw_objs w) i = Some this \<Longrightarrow> set_option this \<subseteq> set_mset (owned w)"
  by (cases this) (auto dest: owned_obj)

lemma array_owned: "at (gw_arrays w) k = Some arr \<Longrightarrow> at arr i = Some this \<Longrightarrow> set_option this \<subseteq> set_mset (owned w)"
  by (cases this) (auto dest: owned_array)

lemma guard_step_ok:
  assumes ok: "world_ok w" and step: "guard_step e w = Some w'"
  shows "world_ok w' \<and> frame (touched e w) (gw_tls w) (gw_tls w')"
proof (cases e)
  case New_Guard
  then show ?thesis
    using step account_ok_alloc [OF ok] frame_storage(2) by (auto simp: Guard_ctor_def owned_def)
next
  case New_Unlinked
  then show ?thesis using step ok by (auto simp: owned_def Guard_null_def frame_storage)
next
  case (New_Moved i)
  then obtain x where x: "at (gw_objs w) i = Some x" using step by auto
  have "owned w' = owned w"
    using step New_Moved x owned_split(1) [OF x] by (auto simp: Guard_move_def owned_simps ac_simps)
  then show ?thesis using step New_Moved x ok by (auto simp: Guard_move_def frame_storage)
next
  case (Move_Assign i j)
  then obtain x y where x: "at (gw_objs w) i = Some x" "at (gw_objs w) j = Some y" using step by auto
  then show ?thesis
    using step Move_Assign ok owned_by_swap [OF x] by (auto simp: Guard_move_assign_def frame_storage owned_def)
next
  case (Link i)
  then obtain x y r where x: "at (gw_objs w) i = Some x" and l: "Guard_link x (gw_tls w) = Some (y, r)"
    and w': "w' = w\<lparr>gw_tls := r, gw_objs := (gw_objs w)[i := y]\<rparr>" using step by auto
  obtain N g where N: "account_ok r N" "N + opt_mset x = owned w + opt_mset y" "frame {} (gw_tls w) r" "y = Some g"
    using link_ok [OF ok l] by auto
  have "owned w' + opt_mset x = N + opt_mset x"
    using owned_split(2) [OF x, of g] N by (simp add: w' owned_simps)
  then have "owned w' = N" by simp
  then show ?thesis using N w' Link by simp
next
  case (Unlink i)
  then obtain x where x: "at (gw_objs w) i = Some x" using step by auto
  show ?thesis
    using step Unlink x unlink_ok [OF ok owned_split(1) [OF x, symmetric]] by (auto simp: split_beta owned_simps)
next
  case (Destroy i)
  then obtain x where x: "at (gw_objs w) i = Some x" using step by auto
  show ?thesis
    using step Destroy x unlink_ok [OF ok owned_split(3) [OF x, symmetric]] by (auto simp: split_beta owned_simps)
next
  case (Assign i p)
  then show ?thesis using step write_ok [OF ok] obj_owned [of w i] by (auto simp: owned_simps)
next
  case (Clear i)
  then show ?thesis
    using step write_ok [OF ok] obj_owned [of w i] by (auto simp: owned_simps Guard_clear_def write_null)
next
  case (Copy i j)
  then show ?thesis
    using step write_ok [OF ok] obj_owned [of w i] by (auto simp: owned_simps dest!: write_copy)
next
  case (Reset i p)
  then obtain x y r g where x: "at (gw_objs w) i = Some x" and l: "Guard_link x (gw_tls w) = Some (y, r)"
    and w': "w' = w\<lparr>gw_tls := guard_set g p r, gw_objs := (gw_objs w)[i := y]\<rparr>" and y: "y = Some g"
    using step by (auto simp: guarded_ptr_reset_def)
  obtain N where N: "account_ok r N" "N + opt_mset x = owned w + opt_mset y" "frame {} (gw_tls w) r"
    using link_ok [OF ok l] by auto
  have "owned w' + opt_mset x = N + opt_mset x"
    using owned_split(2) [OF x, of g] N y by (simp add: w' owned_simps)
  then have o: "owned w' = N" by simp
  have g: "g \<in># N"
    using owned_obj [of w' i g] x y by (simp add: o [symmetric] w' at_Some)
  have "touched e w = {g}"
    using l x y by (cases x) (auto simp: Reset Guard_link_def guard_alloc_def split: list.splits if_splits)
  moreover have "frame ({} \<union> {g}) (gw_tls w) (guard_set g p r)"
    by (rule frame_trans [OF N(3) frame_storage(4)])
  ultimately show ?thesis using account_ok_set [OF N(1) g] by (simp add: w' o [unfolded w'])
next
  case (New_Array n)
  then show ?thesis
    using step account_ok_alloc_array [OF ok] frame_storage(5)
    by (auto simp: GuardArray_ctor_def owned_simps) (auto simp: owned_def ac_simps)
next
  case (Array_Assign k i p)
  then show ?thesis
    using step write_ok [OF ok] array_owned [of w k] by (fastforce simp: owned_simps GuardArray_assign_def)
next
  case (Array_Copy k i j)
  then show ?thesis
    using step write_ok [OF ok] array_owned [of w k]
    by (fastforce simp: owned_simps GuardArray_copy_def GuardArray_assign_def)
next
  case (Array_Clear k i)
  then show ?thesis
    using step write_ok [OF ok] array_owned [of w k]
    by (fastforce simp: owned_simps GuardArray_clear_def write_null)
next
  case (Array_Release k i)
  then obtain arr where a: "at (gw_arrays w) k = Some arr" "i < length arr"
    using step by (auto simp: GuardArray_release_def guard_array_release_def split: if_splits)
  then show ?thesis
    using step Array_Release ok owned_split_array(2) [OF a]
    by (auto simp: GuardArray_release_def guard_array_release_def guarded_ptr_ctor_def owned_simps frame_storage)
next
  case (Destroy_Array k)
  then obtain arr where a: "at (gw_arrays w) k = Some arr" using step by auto
  have "account_ok (gw_tls w) (mset (present arr) + (owned_by (gw_objs w) + sum_list (map owned_by (drop_nth k (gw_arrays w)))))"
    using ok owned_split_array(1) [OF a] by (simp add: owned_by_present ac_simps)
  then show ?thesis
    using step Destroy_Array a account_ok_free_array frame_free_array
    by (auto simp: GuardArray_dtor_def owned_simps)
qed

lemma new_world_ok: "world_ok (new_world m)"
  by (auto simp: new_world_def account_ok_def create_thread_data_def owned_def owned_by_def)

lemma guard_run_ok: "guard_run es w = Some w' \<Longrightarrow> world_ok w \<Longrightarrow>
    world_ok w' \<and> length (tr_hazards (gw_tls w')) = length (tr_hazards (gw_tls w))"
proof (induction es arbitrary: w)
  case (Cons e es)
  then obtain w1 where s: "guard_step e w = Some w1" "guard_run es w1 = Some w'" by auto
  then show ?case using guard_step_ok [OF Cons(3) s(1)] Cons(1) by (auto simp: frame_def)
qed simp

text \<open>A run in which no step writes the guard \<open>g\<close>.\<close>

fun untouched :: "nat \<Rightarrow> guard_op list \<Rightarrow> guard_world \<Rightarrow> bool" where
  "untouched g [] w \<longleftrightarrow> True"
| "untouched g (e # es) w \<longleftrightarrow>
     g \<notin> touched e w \<and> (case guard_step e w of None \<Rightarrow> True | Some w \<Rightarrow> untouched g es w)"

lemma untouched_run:
  "guard_run es w = Some w' \<Longrightarrow> world_ok w \<Longrightarrow> untouched g es w \<Longrightarrow>
   tr_hazards (gw_tls w') ! g = tr_hazards (gw_tls w) ! g"
proof (induction es arbitrary: w)
  case (Cons e es)
  then obtain w1 where s: "guard_step e w = Some w1" "guard_run es w1 = Some w'" by auto
  then show ?case using guard_step_ok [OF Cons(3) s(1)] Cons(1,4) by (auto simp: frame_def)
qed simp

lemma hazard_ptrs_mem:
  assumes "t < length (smr_threads s)" "tr_owner (smr_threads s ! t) \<noteq> 0" "p \<in> set (tr_hazards (smr_threads s ! t))" "p \<noteq> 0"
  shows "p \<in> set (hazard_ptrs s)"
  using assms nth_mem [OF assms(1)] by (force simp: hazard_ptrs_def)

lemma null_hazards:
  assumes "account_ok r {#}"
  shows "mset (tr_free r) = mset [0..<length (tr_hazards r)]" "set (tr_hazards r) \<subseteq> {0}"
proof -
  show m: "mset (tr_free r) = mset [0..<length (tr_hazards r)]" using assms by (simp add: account_ok_def)
  then have "set (tr_free r) = {0..<length (tr_hazards r)}" by (metis set_mset_mset set_upt)
  then show "set (tr_hazards r) \<subseteq> {0}" using assms by (auto simp: account_ok_def in_set_conv_nth)
qed

lemma alloc_fails:
  assumes "account_ok r M"
  shows "guard_alloc r = None \<longleftrightarrow> size M = length (tr_hazards r)"
proof -
  have "size M + length (tr_free r) = size (mset [0..<length (tr_hazards r)])"
    using assms unfolding account_ok_def by (metis size_mset size_union)
  then show ?thesis by (auto simp: guard_alloc_def split: list.splits)
qed

subsection \<open>Properties\<close>

text \<open>C13: Whatever constructors, moves, assignments, releases and destructors a thread runs on its guards, guard
  arrays and guarded pointers, each of its guards is owned by exactly one object or on the free list, and never
  both; the free guards hold null. So the allocation of one more guard throws exactly when all are owned, and once
  nothing owns a guard, all are free again and the thread holds no hazard pointer.\<close>

theorem guards_accounted:
  assumes "guard_run es (new_world m) = Some w"
  shows "owned w + mset (tr_free (gw_tls w)) = mset [0..<hazard_ptr_count m] \<and>
    (\<forall>g \<in> set (tr_free (gw_tls w)). tr_hazards (gw_tls w) ! g = 0) \<and>
    (guard_step New_Guard w = None \<longleftrightarrow> size (owned w) = hazard_ptr_count m) \<and>
    (owned w = {#} \<longrightarrow> mset (tr_free (gw_tls w)) = mset [0..<hazard_ptr_count m] \<and> set (tr_hazards (gw_tls w)) \<subseteq> {0})"
proof -
  have ok: "world_ok w" and l: "length (tr_hazards (gw_tls w)) = hazard_ptr_count m"
    using guard_run_ok [OF assms new_world_ok] by (simp_all add: new_world_def create_thread_data_def)
  have "guard_step New_Guard w = None \<longleftrightarrow> guard_alloc (gw_tls w) = None"
    by (cases "guard_alloc (gw_tls w)") (auto simp: Guard_ctor_def)
  moreover have "mset (tr_free (gw_tls w)) = mset [0..<hazard_ptr_count m] \<and> set (tr_hazards (gw_tls w)) \<subseteq> {0}"
    if "owned w = {#}" using null_hazards [of "gw_tls w"] ok l that by simp
  ultimately show ?thesis using ok l alloc_fails [OF ok] by (simp add: account_ok_def del: guard_step.simps)
qed

lemma guards_accounted_witness:
  "\<exists>w. guard_run [New_Array 2, New_Guard, New_Moved 0, Array_Release 0 1, Reset 2 96, Destroy_Array 0] (new_world (HP 4)) = Some w \<and>
    owned w + mset (tr_free (gw_tls w)) = mset [0, 1, 2, 3] \<and> guard_step New_Guard w \<noteq> None"
proof -
  let ?es = "[New_Array 2, New_Guard, New_Moved 0, Array_Release 0 1, Reset 2 96, Destroy_Array 0]"
  let ?r = "\<lparr>tr_hazards = [0, 96, 0, 0], tr_free = [0, 3], tr_retired = [], tr_capacity = 800, tr_owner = 0, tr_bFree = False\<rparr>"
  let ?w = "\<lparr>gw_tls = ?r, gw_objs = [None, Some 2, Some 1], gw_arrays = []\<rparr>"
  have n: "new_world (HP 4) = \<lparr>gw_tls = \<lparr>tr_hazards = [0, 0, 0, 0], tr_free = [0, 1, 2, 3], tr_retired = [], tr_capacity = 800,
      tr_owner = 0, tr_bFree = False\<rparr>, gw_objs = [], gw_arrays = []\<rparr>"
    by (simp add: new_world_def create_thread_data_def HP_def smr_ctor_def calc_retired_size_def c_nMaxThreadCount_def
        upt_rec numeral_eq_Suc)
  have r: "guard_run ?es (new_world (HP 4)) = Some ?w" unfolding n by code_simp
  have "hazard_ptr_count (HP 4) = 4" "[0..<4] = [0, 1, 2, 3]" by (simp_all add: HP_def smr_ctor_def upt_rec)
  then show ?thesis
    using guards_accounted [OF r] r by (intro exI [of _ ?w]) (auto simp: owned_def)
qed

text \<open>C14: A pointer that a guard holds stays protected while its owner is moved, swapped or released to another
  object and the other objects do anything: unless a step writes that guard, no scan of any thread frees the pointer.\<close>

theorem guarded_pointer_survives:
  assumes "guard_run es (new_world m) = Some w" and "g \<in># owned w" and "tr_hazards (gw_tls w) ! g = p" and "p \<noteq> 0"
    and "guard_run es' w = Some w'" and "untouched g es' w"
    and "smr_ok s" and "t < length (smr_threads s)" and "tr_owner (smr_threads s ! t) \<noteq> 0"
    and "tr_hazards (smr_threads s ! t) = tr_hazards (gw_tls w')" and "tid < length (smr_threads s)"
  shows "p \<notin> set (fst (scan tid s))"
proof -
  have ok: "world_ok w" using guard_run_ok [OF assms(1) new_world_ok] by simp
  have "g < length (tr_hazards (gw_tls w'))"
    using guard_run_ok [OF assms(5) ok] account_ok_owned(1) [OF ok assms(2)] by simp
  moreover have "tr_hazards (gw_tls w') ! g = p" using untouched_run [OF assms(5) ok assms(6)] assms(3) by simp
  ultimately have "p \<in> set (tr_hazards (smr_threads s ! t))" using assms(10) nth_mem by fastforce
  then have "p \<in> set (hazard_ptrs s)" by (rule hazard_ptrs_mem [OF assms(8,9) _ assms(4)])
  then show ?thesis using scan_spec [OF assms(7,11)] by auto
qed

lemma guarded_pointer_survives_witness:
  "16 \<in> set (tr_retired (smr_threads demo_ok ! 0)) \<and> 16 \<notin> set (fst (scan 0 demo_ok))"
proof -
  let ?r = "\<lambda>hs fr. \<lparr>tr_hazards = hs, tr_free = fr, tr_retired = [], tr_capacity = 7, tr_owner = 0, tr_bFree = False\<rparr>"
  let ?w = "\<lparr>gw_tls = ?r [16, 0] [1], gw_objs = [Some 0], gw_arrays = []\<rparr>"
  let ?w' = "\<lparr>gw_tls = ?r [16, 0] [1], gw_objs = [None, Some 0], gw_arrays = []\<rparr>"
  let ?es = "[New_Moved 0, New_Guard, Assign 2 64, Destroy 2]"
  have n: "new_world demo_ok = \<lparr>gw_tls = ?r [0, 0] [0, 1], gw_objs = [], gw_arrays = []\<rparr>"
    by (simp add: new_world_def create_thread_data_def demo_ok_def smr_ctor_def calc_retired_size_def upt_rec numeral_2_eq_2)
  have 1: "guard_run [New_Guard, Assign 0 16] (new_world demo_ok) = Some ?w" unfolding n by code_simp
  have 2: "guard_run ?es ?w = Some ?w'" "untouched 0 ?es ?w" by code_simp+
  have 3: "0 \<in># owned ?w" by (simp add: owned_def)
  have 4: "smr_ok demo_ok" using demo_ok by (simp add: detach_ok_def)
  have 5: "tr_retired (smr_threads demo_ok ! 0) = [48, 16, 32]" "length (smr_threads demo_ok) = 3"
    "tr_owner (smr_threads demo_ok ! 1) \<noteq> 0" "tr_hazards (smr_threads demo_ok ! 1) = [16, 0]"
    by (simp_all add: demo_ok_def)
  then show ?thesis using guarded_pointer_survives [OF 1 3 _ _ 2 4, of 16 1 0] by simp
qed

end
