(* ===== verification/Cds_Threads.thy ===== *)
theory Cds_Threads
  imports Redpar
begin

text \<open>
  Threads that attach to libcds and detach from it, and the end of the library: \<open>detachThread\<close> of
  \<^verbatim>\<open>cds/threading/details/pthread_manager.h\<close>, \<open>ThreadData::fini\<close> of \<^verbatim>\<open>src/thread_data.cpp\<close>, the detaching functions
  and \<open>destruct\<close> of \<^verbatim>\<open>src/hp.cpp\<close>, the destructor of the static \<open>HP\<close> object of \<^verbatim>\<open>redpar.cpp\<close> (\<^verbatim>\<open>cds/gc/hp.h\<close>), and
  \<open>Terminate\<close> of \<^verbatim>\<open>cds/init.h\<close>.

  The \<open>ThreadData\<close> of a thread exists exactly while its attach counter is not 0: \<open>attachThread\<close> allocates it and
  counts, and the last \<open>detachThread\<close> frees it.
\<close>

subsection \<open>Detaching\<close>

text \<open>A scan disposes the pointers it frees, through the disposer that the skip list gave them.\<close>

definition smr_detach_thread :: "nat \<Rightarrow> ('w, 'm) redpar_state_scheme \<Rightarrow> ('w, 'm) redpar_state_scheme option" where
  "smr_detach_thread t st =
     (case rp_tls st t of
        None \<Rightarrow> Some st
      | Some rec \<Rightarrow> do {
          let st = st\<lparr>rp_tls := (rp_tls st)(t := None)\<rparr>;
          (freed, m) \<leftarrow> free_thread_data rec (c_smr (st_cds st));
          cds \<leftarrow> dispose_all freed ((st_cds st)\<lparr>c_smr := m\<rparr>);
          Some (st\<lparr>st_cds := cds\<rparr>)
        })"

definition ThreadData_fini :: "nat \<Rightarrow> ('w, 'm) redpar_state_scheme \<Rightarrow> (bool \<times> ('w, 'm) redpar_state_scheme) option" where
  "ThreadData_fini t st =
     (let n = rp_nAttachCount st t - 1;
          st = st\<lparr>rp_nAttachCount := (rp_nAttachCount st)(t := n)\<rparr>
      in if n = 0
         then map_option (Pair True) (if rp_hp_used st then smr_detach_thread t st else Some st)
         else Some (False, st))"

text \<open>Without \<open>ThreadData\<close> the code throws \<open>pthread_exception\<close>.\<close>

definition detachThread :: "nat \<Rightarrow> ('w, 'm) redpar_state_scheme \<Rightarrow> ('w, 'm) redpar_state_scheme option" where
  "detachThread t st =
     (if rp_nAttachCount st t = 0 then None else map_option snd (ThreadData_fini t st))"

subsection \<open>The end of the library\<close>

text \<open>\<open>thread_list_\<close> starts with the newest record, at position \<open>i\<close> when \<open>i + 1\<close> are left.\<close>

fun detach_all_thread :: "nat \<Rightarrow> smr \<Rightarrow> (addr list \<times> smr) option" where
  "detach_all_thread 0 m = Some ([], m)"
| "detach_all_thread (Suc i) m =
     (if tr_owner (smr_threads m ! i) \<noteq> 0 then do {
        (freed, m) \<leftarrow> free_thread_data i m;
        (freed', m) \<leftarrow> detach_all_thread i m;
        Some (freed @ freed', m)
      } else detach_all_thread i m)"

definition smr_destruct :: "bool \<Rightarrow> ('w, 'm) redpar_state_scheme \<Rightarrow> ('w, 'm) redpar_state_scheme option" where
  "smr_destruct bDetachAll st =
     (if rp_hp_used st then do {
        let m = c_smr (st_cds st);
        (freed, m) \<leftarrow> (if bDetachAll then detach_all_thread (length (smr_threads m)) m else Some ([], m));
        cds \<leftarrow> dispose_all (freed @ smr_dtor m) ((st_cds st)\<lparr>c_smr := m\<rparr>);
        Some (st\<lparr>st_cds := cds, rp_hp_used := False\<rparr>)
      } else Some st)"

definition HP_dtor :: "('w, 'm) redpar_state_scheme \<Rightarrow> ('w, 'm) redpar_state_scheme option" where
  "HP_dtor st = smr_destruct True st"

definition fini_last_call :: "('w, 'm) redpar_state_scheme \<Rightarrow> bool \<times> ('w, 'm) redpar_state_scheme" where
  "fini_last_call st = (rp_nInitCallCount st = 1, st\<lparr>rp_nInitCallCount := rp_nInitCallCount st - 1\<rparr>)"

text \<open>What the last call finishes, the manager and the topology, keeps no state that the skip list reads.\<close>

definition cds_Terminate :: "('w, 'm) redpar_state_scheme \<Rightarrow> ('w, 'm) redpar_state_scheme" where
  "cds_Terminate st = snd (fini_last_call st)"

subsection \<open>The records of the collector\<close>

lemma scan_max_thread [simp]: "max_thread_count (snd (scan tid m)) = max_thread_count m"
  by (simp add: scan_def classic_scan_def inplace_scan_def set_retired_def Let_def split_beta split: scan_type.splits)

lemma scan_max_thread': "scan tid m = (freed, m') \<Longrightarrow> max_thread_count m' = max_thread_count m"
  using scan_max_thread [of tid m] by simp

lemma retire_max_thread: "retire tid p m = Some (freed, m') \<Longrightarrow> max_thread_count m' = max_thread_count m"
  by (auto simp: retire_def Let_def dest!: scan_max_thread' split: if_splits option.splits)

lemma help_move_max_thread: "help_move tid ps m = Some (freed, m') \<Longrightarrow> max_thread_count m' = max_thread_count m"
  by (induction ps arbitrary: m freed) (auto dest!: retire_max_thread split: option.splits)

lemma help_scan_max_thread: "help_scan tid n m = Some (freed, m') \<Longrightarrow> max_thread_count m' = max_thread_count m"
proof (induction n arbitrary: m freed)
  case (Suc n)
  show ?case
  proof (cases "n = tid \<or> tr_bFree (smr_threads m ! n) \<or> tr_owner (smr_threads m ! n) \<noteq> 0")
    case False
    then obtain fr m1 fr' where h:
      "help_move tid (tr_retired (smr_threads m ! n)) (own_record (tr_owner (smr_threads m ! tid)) n m) = Some (fr, m1)"
      "help_scan tid n (snd (scan tid (release_record n m1))) = Some (fr', m')"
      using Suc(2) by (auto simp: Let_def split_beta split: option.splits)
    then show ?thesis
      using Suc(1) [OF h(2)] help_move_max_thread [OF h(1)] by (simp add: own_record_def release_record_def)
  qed (use Suc in \<open>simp add: Let_def\<close>)
qed simp

lemma free_thread_max_thread: "free_thread_data tid m = Some (freed, m') \<Longrightarrow> max_thread_count m' = max_thread_count m"
  by (auto simp: free_thread_data_def Let_def split_beta dest!: help_scan_max_thread)

text \<open>A thread that attaches gets a record that nobody owned, the first such or a new one.\<close>

lemma find_free_record_None: "find_free_record rs n = None \<Longrightarrow> i < n \<Longrightarrow> tr_owner (rs ! i) \<noteq> 0"
  by (induction n) (auto simp: less_Suc_eq split: if_splits)

lemma find_free_record_Some: "find_free_record rs n = Some i \<Longrightarrow> i < n \<and> tr_owner (rs ! i) = 0"
  by (induction n) (auto split: if_splits)

lemma alloc_cases:
  assumes "alloc_thread_data t m = (i, m')"
  obtains (Reuse) "i < length (smr_threads m)" "tr_owner (smr_threads m ! i) = 0"
      "m' = m\<lparr>smr_threads := (smr_threads m)[i := (smr_threads m ! i)\<lparr>tr_owner := t, tr_bFree := False\<rparr>]\<rparr>"
  | (New) "i = length (smr_threads m)" "\<forall>j < length (smr_threads m). tr_owner (smr_threads m ! j) \<noteq> 0"
      "m' = m\<lparr>smr_threads := smr_threads m @ [(create_thread_data m)\<lparr>tr_owner := t\<rparr>]\<rparr>"
proof (cases "find_free_record (smr_threads m) (length (smr_threads m))")
  case None
  then show ?thesis
    using assms find_free_record_None [OF None] by (intro New) (auto simp: alloc_thread_data_def)
next
  case (Some j)
  then show ?thesis
    using assms find_free_record_Some [OF Some] by (intro Reuse) (auto simp: alloc_thread_data_def)
qed

lemma retired_set_records: "retired_set m = (\<Union>r \<in> set (smr_threads m). set (tr_retired r))"
  unfolding retired_set_def set_conv_nth [of "smr_threads m"] by blast

lemma new_record_ok:
  "record_ok (hazard_ptr_count m) k ((create_thread_data m)\<lparr>tr_owner := t\<rparr>) \<longleftrightarrow> 0 < k \<and> max_retired_ptr_count m = k"
  by (auto simp: record_ok_def guards_ok_def create_thread_data_def)

lemma alloc_detach_ok:
  assumes ok: "detach_ok m" and t: "t \<noteq> 0" and r: "alloc_thread_data t m = (i, m')"
    and room: "(\<forall>j < length (smr_threads m). tr_owner (smr_threads m ! j) \<noteq> 0) \<longrightarrow> length (smr_threads m) < max_thread_count m"
  shows "detach_ok m' \<and> retired_set m' = retired_set m \<and> max_thread_count m' = max_thread_count m"
  using r
proof (cases rule: alloc_cases)
  case Reuse
  have sok: "smr_ok m" using ok by (simp add: detach_ok_def)
  have "record_ok (hazard_ptr_count m) (max_retired_ptr_count m) ((smr_threads m ! i)\<lparr>tr_owner := t, tr_bFree := False\<rparr>)"
    using smr_ok_record [OF sok Reuse(1)] by (auto simp: record_ok_def guards_ok_def)
  then have "smr_ok m'" unfolding Reuse(3) by (rule smr_ok_update [OF sok])
  moreover have n: "smr_threads m' ! j = (if j = i then (smr_threads m ! i)\<lparr>tr_owner := t, tr_bFree := False\<rparr> else smr_threads m ! j)"
    if "j < length (smr_threads m)" for j using that by (simp add: Reuse(3) nth_list_update)
  moreover have l: "length (smr_threads m') = length (smr_threads m)" by (simp add: Reuse(3))
  ultimately have "detach_ok m'"
    using ok t unfolding detach_ok_def l by (simp add: n)
  moreover have "tr_retired (smr_threads m' ! j) = tr_retired (smr_threads m ! j)" if "j < length (smr_threads m)" for j
    using that by (simp add: n)
  then have "retired_set m' = retired_set m" by (simp add: retired_set_def l)
  ultimately show ?thesis by (simp add: Reuse(3))
next
  case New
  let ?n = "length (smr_threads m)"
  have "smr_ok m'"
    using ok room New(2) by (auto simp: New(3) detach_ok_def smr_ok_def new_record_ok)
  moreover have n: "smr_threads m' ! j = (if j < ?n then smr_threads m ! j else (create_thread_data m)\<lparr>tr_owner := t\<rparr>)"
    if "j < Suc ?n" for j using that by (simp add: New(3) nth_append)
  moreover have l: "length (smr_threads m') = Suc ?n" by (simp add: New(3))
  ultimately have "detach_ok m'"
    using ok t unfolding detach_ok_def l by (auto simp: n create_thread_data_def less_Suc_eq)
  moreover have "retired_set m' = retired_set m" by (simp add: retired_set_records New(3) create_thread_data_def)
  ultimately show ?thesis by (simp add: New(3))
qed

subsection \<open>The state of an attached library\<close>

text \<open>\<open>ts\<close> lists the calls of \<open>attachThread\<close> that are not yet matched by a \<open>detachThread\<close>, by thread.\<close>

abbreviation collector :: "('w, 'm) redpar_state_scheme \<Rightarrow> smr" where "collector st \<equiv> c_smr (st_cds st)"

definition threads_ok :: "('w, 'm) redpar_state_scheme \<Rightarrow> nat list \<Rightarrow> bool" where
  "threads_ok st ts \<longleftrightarrow> rp_hp_used st \<and> detach_ok (collector st) \<and>
     retired_set (collector st) \<subseteq> dom (c_nodes (st_cds st)) \<and> length ts < 2 ^ 64 \<and>
     (\<forall>t. rp_nAttachCount st t = of_nat (count_list ts t)) \<and>
     (\<forall>t. rp_tls st t \<noteq> None \<longleftrightarrow> t \<in> set ts) \<and>
     (\<forall>t i. rp_tls st t = Some i \<longrightarrow> t \<noteq> 0 \<and> i < length (smr_threads (collector st)) \<and> tr_owner (smr_threads (collector st) ! i) = t) \<and>
     (\<forall>i < length (smr_threads (collector st)). tr_owner (smr_threads (collector st) ! i) \<noteq> 0 \<longrightarrow>
        rp_tls st (tr_owner (smr_threads (collector st) ! i)) = Some i)"

lemma count_zero:
  assumes "length ts < 2 ^ 64"
  shows "(of_nat (count_list ts t) :: size64) = 0 \<longleftrightarrow> t \<notin> set ts"
proof -
  have "count_list ts t < 2 ^ 64" using count_le_length [of ts t] assms by linarith
  then have "(of_nat (count_list ts t) :: size64) = 0 \<longleftrightarrow> count_list ts t = 0"
    by (auto simp: word_of_nat_eq_0_iff dest!: dvd_imp_le)
  then show ?thesis by (simp add: count_list_0_iff)
qed

lemma threads_okD:
  assumes "threads_ok st ts"
  shows "rp_hp_used st" "detach_ok (collector st)" "retired_set (collector st) \<subseteq> dom (c_nodes (st_cds st))" "length ts < 2 ^ 64"
    "rp_nAttachCount st t = of_nat (count_list ts t)" "rp_tls st t = None \<longleftrightarrow> t \<notin> set ts"
    "rp_tls st t = Some i \<Longrightarrow> t \<noteq> 0 \<and> i < length (smr_threads (collector st)) \<and> tr_owner (smr_threads (collector st) ! i) = t"
    "i < length (smr_threads (collector st)) \<Longrightarrow> tr_owner (smr_threads (collector st) ! i) \<noteq> 0 \<Longrightarrow>
       rp_tls st (tr_owner (smr_threads (collector st) ! i)) = Some i"
  using assms unfolding threads_ok_def by blast+

lemma attached_bound:
  assumes ok: "threads_ok st ts" and all: "\<forall>i < length (smr_threads (collector st)). tr_owner (smr_threads (collector st) ! i) \<noteq> 0"
  shows "length (smr_threads (collector st)) \<le> card (set ts)"
proof -
  let ?n = "length (smr_threads (collector st))" and ?o = "\<lambda>i. tr_owner (smr_threads (collector st) ! i)"
  have tls: "rp_tls st (?o i) = Some i" if "i < ?n" for i using all that threads_okD(8) [OF ok that] by blast
  have "inj_on ?o {..<?n}"
  proof (rule inj_onI)
    fix i j assume "i \<in> {..<?n}" "j \<in> {..<?n}" "?o i = ?o j"
    then have "Some i = Some j" using tls [of i] tls [of j] by (metis lessThan_iff)
    then show "i = j" by simp
  qed
  moreover have "?o ` {..<?n} \<subseteq> set ts"
  proof (rule image_subsetI)
    fix i assume "i \<in> {..<?n}"
    then have "rp_tls st (?o i) \<noteq> None" using tls [of i] by simp
    then show "?o i \<in> set ts" using threads_okD(6) [OF ok, of "?o i"] by simp
  qed
  ultimately have "card {..<?n} \<le> card (set ts)" by (intro card_inj_on_le) simp_all
  then show ?thesis by simp
qed

subsection \<open>One call\<close>

lemma attach_spec:
  assumes ok: "threads_ok st ts" and t: "t \<noteq> 0" "length ts + 1 < 2 ^ 64"
    and room: "card (set (t # ts)) \<le> max_thread_count (collector st)"
  shows "threads_ok (attachThread t st) (t # ts) \<and> retired_set (collector (attachThread t st)) = retired_set (collector st) \<and>
    max_thread_count (collector (attachThread t st)) = max_thread_count (collector st) \<and>
    c_nodes (st_cds (attachThread t st)) = c_nodes (st_cds st)"
proof (cases "t \<in> set ts")
  case True
  let ?st = "st\<lparr>rp_nAttachCount := (rp_nAttachCount st)(t := rp_nAttachCount st t + 1)\<rparr>"
  have "rp_nAttachCount st t \<noteq> 0" using True count_zero [OF threads_okD(4) [OF ok]] threads_okD(5) [OF ok] by simp
  then have "attachThread t st = ?st" by (simp add: attachThread_def ThreadData_init_def)
  moreover have "threads_ok ?st (t # ts)"
    using ok t True unfolding threads_ok_def by (auto simp: add.commute)
  ultimately show ?thesis by simp
next
  case False
  let ?m = "collector st"
  obtain i m where a: "alloc_thread_data t ?m = (i, m)" by (cases "alloc_thread_data t ?m")
  let ?st = "st\<lparr>rp_nAttachCount := (rp_nAttachCount st)(t := 1), st_cds := (st_cds st)\<lparr>c_smr := m\<rparr>, rp_tls := (rp_tls st)(t \<mapsto> i)\<rparr>"
  have n: "rp_nAttachCount st t = 0" "rp_tls st t = None"
    using False threads_okD(5,6) [OF ok, of t] by simp_all
  then have st: "attachThread t st = ?st"
    using a threads_okD(1) [OF ok] by (simp add: attachThread_def ThreadData_init_def smr_attach_thread_def Let_def)
  have "length (smr_threads ?m) < max_thread_count ?m" if "\<forall>j < length (smr_threads ?m). tr_owner (smr_threads ?m ! j) \<noteq> 0"
    using attached_bound [OF ok that] room False by simp
  then have m: "detach_ok m" "retired_set m = retired_set ?m" "max_thread_count m = max_thread_count ?m"
    using alloc_detach_ok [OF threads_okD(2) [OF ok] t(1) a] by simp_all
  have o: "i < length (smr_threads m)" "i < length (smr_threads ?m) \<longrightarrow> tr_owner (smr_threads ?m ! i) = 0"
    "length (smr_threads ?m) \<le> length (smr_threads m)"
    "\<forall>j < length (smr_threads m). j \<noteq> i \<longrightarrow> j < length (smr_threads ?m)"
    "\<forall>j < length (smr_threads m). tr_owner (smr_threads m ! j) = (if j = i then t else tr_owner (smr_threads ?m ! j))"
    using a by (cases rule: alloc_cases; force simp: nth_list_update nth_append less_Suc_eq)+
  have tls: "u \<noteq> 0 \<and> j < length (smr_threads m) \<and> tr_owner (smr_threads m ! j) = u"
    if "((rp_tls st)(t \<mapsto> i)) u = Some j" for u j
  proof (cases "u = t")
    case True
    then show ?thesis using that t o(1,5) by auto
  next
    case False
    then have "rp_tls st u = Some j" using that by simp
    from threads_okD(7) [OF ok this] show ?thesis using o(2,3,5) by auto
  qed
  have own: "((rp_tls st)(t \<mapsto> i)) (tr_owner (smr_threads m ! j)) = Some j"
    if "j < length (smr_threads m)" "tr_owner (smr_threads m ! j) \<noteq> 0" for j
  proof (cases "j = i")
    case False
    then have "tr_owner (smr_threads m ! j) = tr_owner (smr_threads ?m ! j)" "j < length (smr_threads ?m)"
      using that o by auto
    moreover from this have "rp_tls st (tr_owner (smr_threads ?m ! j)) = Some j"
      using that threads_okD(8) [OF ok, of j] by simp
    ultimately show ?thesis using n(2) by auto
  qed (use that o(5) in auto)
  have "threads_ok ?st (t # ts)"
    unfolding threads_ok_def
  proof (intro conjI allI impI)
    show "detach_ok (collector ?st)" "rp_hp_used ?st" "length (t # ts) < 2 ^ 64"
      "retired_set (collector ?st) \<subseteq> dom (c_nodes (st_cds ?st))"
      using m t(2) threads_okD(1,3) [OF ok] by simp_all
    show "rp_nAttachCount ?st u = of_nat (count_list (t # ts) u)" for u
      using threads_okD(5) [OF ok, of u] False by (simp add: count_list_0_iff [THEN iffD2])
    show "rp_tls ?st u \<noteq> None \<longleftrightarrow> u \<in> set (t # ts)" for u using threads_okD(6) [OF ok, of u] by auto
    show "u \<noteq> 0" "j < length (smr_threads (collector ?st))" "tr_owner (smr_threads (collector ?st) ! j) = u"
      if "rp_tls ?st u = Some j" for u j using that tls [of u j] by simp_all
    show "rp_tls ?st (tr_owner (smr_threads (collector ?st) ! j)) = Some j"
      if "j < length (smr_threads (collector ?st))" "tr_owner (smr_threads (collector ?st) ! j) \<noteq> 0" for j
      using that own [of j] by simp
  qed
  then show ?thesis unfolding st using m by simp
qed

lemma count_list_remove1: "count_list (remove1 x xs) y = count_list xs y - (if x = y then 1 else 0)"
proof (induction xs)
  case (Cons z zs)
  then show ?case using count_list_0_iff [of zs y] by (cases "y \<in> set zs") (auto simp: Suc_diff_1 neq0_conv)
qed simp

lemma in_set_count: "x \<in> set xs \<longleftrightarrow> count_list xs x \<noteq> 0"
  by (simp add: count_list_0_iff)

text \<open>The last \<open>detachThread\<close> of a thread releases its record; the nodes that the scans free are gone, and they
  are those that left the arrays of retired pointers.\<close>

definition freed_between :: "('w, 'm) redpar_state_scheme \<Rightarrow> ('w, 'm) redpar_state_scheme \<Rightarrow> bool" where
  "freed_between st st' \<longleftrightarrow> retired_set (collector st') \<subseteq> retired_set (collector st) \<and>
     c_nodes (st_cds st') = c_nodes (st_cds st) |` (- (retired_set (collector st) - retired_set (collector st'))) \<and>
     max_thread_count (collector st') = max_thread_count (collector st)"

lemma freed_between_same:
  "retired_set (collector st') = retired_set (collector st) \<Longrightarrow> c_nodes (st_cds st') = c_nodes (st_cds st) \<Longrightarrow>
   max_thread_count (collector st') = max_thread_count (collector st) \<Longrightarrow> freed_between st st'"
  by (auto simp: freed_between_def restrict_map_def)

lemma freed_between_trans:
  assumes "freed_between st st'" "freed_between st' st''"
  shows "freed_between st st''"
proof -
  have "c_nodes (st_cds st'') = c_nodes (st_cds st) |` (- (retired_set (collector st) - retired_set (collector st'')))"
    using assms unfolding freed_between_def by (auto intro!: ext simp: restrict_map_def)
  then show ?thesis using assms unfolding freed_between_def by auto
qed

lemma detach_spec:
  assumes ok: "threads_ok st ts" and t: "t \<in> set ts"
  shows "\<exists>st'. detachThread t st = Some st' \<and> threads_ok st' (remove1 t ts) \<and> freed_between st st'"
proof -
  let ?c = "count_list ts t"
  let ?n = "rp_nAttachCount st t - 1"
  let ?st = "st\<lparr>rp_nAttachCount := (rp_nAttachCount st)(t := ?n)\<rparr>"
  have c: "?c \<noteq> 0" using t by (simp add: in_set_count)
  have l: "length (remove1 t ts) < 2 ^ 64" using threads_okD(4) [OF ok] length_remove1 [of t ts] by (simp split: if_splits)
  have n: "?n = of_nat (count_list (remove1 t ts) t)"
    using threads_okD(5) [OF ok, of t] c by (simp add: count_list_remove1 of_nat_diff)
  have z: "?n = 0 \<longleftrightarrow> t \<notin> set (remove1 t ts)" unfolding n by (rule count_zero [OF l])
  have nz: "rp_nAttachCount st t \<noteq> 0" using t count_zero [OF threads_okD(4) [OF ok]] threads_okD(5) [OF ok] by simp
  have cnt: "(rp_nAttachCount ?st) u = of_nat (count_list (remove1 t ts) u)" for u
    using n threads_okD(5) [OF ok, of u] by (simp add: count_list_remove1)
  show ?thesis
  proof (cases "t \<in> set (remove1 t ts)")
    case True
    then have "detachThread t st = Some ?st" using z nz by (simp add: detachThread_def ThreadData_fini_def Let_def)
    moreover have "u \<in> set (remove1 t ts) \<longleftrightarrow> u \<in> set ts" for u
      using True t by (cases "u = t") (simp_all add: in_set_count count_list_remove1)
    then have "threads_ok ?st (remove1 t ts)"
      unfolding threads_ok_def using cnt l threads_okD [OF ok] by (auto simp del: fun_upd_apply)
    ultimately show ?thesis by (auto intro!: freed_between_same)
  next
    case False
    let ?m = "collector st"
    obtain i where i: "rp_tls st t = Some i" using t threads_okD(6) [OF ok, of t] by auto
    have o: "i < length (smr_threads ?m)" "tr_owner (smr_threads ?m ! i) = t" "t \<noteq> 0" using threads_okD(7) [OF ok i] by simp_all
    obtain freed m where f: "free_thread_data i ?m = Some (freed, m)" "detach_ok m" "distinct freed"
      "set freed \<union> retired_set m = retired_set ?m" "set freed \<inter> retired_set m = {}"
      "length (smr_threads m) = length (smr_threads ?m)"
      "\<And>j. tr_owner (smr_threads m ! j) = (if j = i then 0 else tr_owner (smr_threads ?m ! j))"
      using free_thread_data_spec [OF threads_okD(2) [OF ok] o(1)] o by blast
    have mx: "max_thread_count m = max_thread_count ?m" by (rule free_thread_max_thread [OF f(1)])
    let ?cds = "(st_cds st)\<lparr>c_smr := m, c_nodes := c_nodes (st_cds st) |` (- set freed)\<rparr>"
    let ?st' = "?st\<lparr>rp_tls := (rp_tls st)(t := None), st_cds := ?cds\<rparr>"
    have "dispose_all freed ((st_cds st)\<lparr>c_smr := m\<rparr>) = Some ?cds"
      using dispose_all_spec [OF f(3), of "(st_cds st)\<lparr>c_smr := m\<rparr>"] f(4) threads_okD(3) [OF ok] by auto
    then have d: "detachThread t st = Some ?st'"
      using False z nz i f(1) threads_okD(1) [OF ok]
      by (simp add: detachThread_def ThreadData_fini_def smr_detach_thread_def Let_def)
    have r: "retired_set m = retired_set ?m - set freed" using f(4,5) by blast
    have "set freed = retired_set ?m - retired_set m" using f(4,5) by blast
    then have "freed_between st ?st'" using mx f(4) by (auto simp: freed_between_def)
    moreover have "threads_ok ?st' (remove1 t ts)"
      unfolding threads_ok_def
    proof (intro conjI allI impI)
      show "detach_ok (collector ?st')" "rp_hp_used ?st'" "length (remove1 t ts) < 2 ^ 64"
        using f(2) l threads_okD(1) [OF ok] by simp_all
      show "retired_set (collector ?st') \<subseteq> dom (c_nodes (st_cds ?st'))"
        using threads_okD(3) [OF ok] by (auto simp: r)
      show "rp_nAttachCount ?st' u = of_nat (count_list (remove1 t ts) u)" for u using cnt [of u] by simp
      show "rp_tls ?st' u \<noteq> None \<longleftrightarrow> u \<in> set (remove1 t ts)" for u
        using threads_okD(6) [OF ok, of u] False by (cases "u = t") (auto simp: in_set_count count_list_remove1)
      show "u \<noteq> 0" "j < length (smr_threads (collector ?st'))" "tr_owner (smr_threads (collector ?st') ! j) = u"
        if "rp_tls ?st' u = Some j" for u j
      proof -
        have "u \<noteq> t" "rp_tls st u = Some j" using that by (simp_all split: if_splits)
        then show "u \<noteq> 0" "j < length (smr_threads (collector ?st'))" "tr_owner (smr_threads (collector ?st') ! j) = u"
          using threads_okD(7) [OF ok, of u j] o f(6,7) by auto
      qed
      show "rp_tls ?st' (tr_owner (smr_threads (collector ?st') ! j)) = Some j"
        if "j < length (smr_threads (collector ?st'))" "tr_owner (smr_threads (collector ?st') ! j) \<noteq> 0" for j
      proof -
        have j: "j < length (smr_threads ?m)" "j \<noteq> i" "tr_owner (smr_threads ?m ! j) \<noteq> 0"
          "tr_owner (smr_threads m ! j) = tr_owner (smr_threads ?m ! j)" using that f(6,7) by (auto split: if_splits)
        have "rp_tls st (tr_owner (smr_threads ?m ! j)) = Some j" by (rule threads_okD(8) [OF ok j(1,3)])
        moreover from this have "tr_owner (smr_threads ?m ! j) \<noteq> t" using i j(2) by auto
        ultimately show ?thesis using j(4) by simp
      qed
    qed
    ultimately show ?thesis using d by blast
  qed
qed

subsection \<open>Sequences of calls\<close>

datatype thread_call = Attach nat | Detach nat

fun thread_calls :: "thread_call list \<Rightarrow> ('w, 'm) redpar_state_scheme \<Rightarrow> ('w, 'm) redpar_state_scheme option" where
  "thread_calls [] st = Some st"
| "thread_calls (Attach t # cs) st = thread_calls cs (attachThread t st)"
| "thread_calls (Detach t # cs) st = do { st \<leftarrow> detachThread t st; thread_calls cs st }"

text \<open>Calls of at most \<open>n\<close> threads at a time, in which a thread detaches only what it attached.\<close>

fun nested_calls :: "nat \<Rightarrow> thread_call list \<Rightarrow> nat list \<Rightarrow> bool" where
  "nested_calls n [] ts \<longleftrightarrow> True"
| "nested_calls n (Attach t # cs) ts \<longleftrightarrow>
     t \<noteq> 0 \<and> length ts + 1 < 2 ^ 64 \<and> card (set (t # ts)) \<le> n \<and> nested_calls n cs (t # ts)"
| "nested_calls n (Detach t # cs) ts \<longleftrightarrow> t \<in> set ts \<and> nested_calls n cs (remove1 t ts)"

fun open_calls :: "thread_call list \<Rightarrow> nat list \<Rightarrow> nat list" where
  "open_calls [] ts = ts"
| "open_calls (Attach t # cs) ts = open_calls cs (t # ts)"
| "open_calls (Detach t # cs) ts = open_calls cs (remove1 t ts)"

lemma thread_calls_spec:
  "threads_ok st ts \<Longrightarrow> nested_calls (max_thread_count (collector st)) cs ts \<Longrightarrow>
   \<exists>st'. thread_calls cs st = Some st' \<and> threads_ok st' (open_calls cs ts) \<and> freed_between st st'"
proof (induction cs arbitrary: st ts)
  case (Cons c cs)
  show ?case
  proof (cases c)
    case (Attach t)
    note a = attach_spec [OF Cons(2), of t]
    then have 1: "threads_ok (attachThread t st) (t # ts)" "freed_between st (attachThread t st)"
      "nested_calls (max_thread_count (collector (attachThread t st))) cs (t # ts)"
      using Cons(3) Attach by (auto intro!: freed_between_same)
    show ?thesis using Cons(1) [OF 1(1,3)] freed_between_trans [OF 1(2)] by (auto simp: Attach)
  next
    case (Detach t)
    then obtain st1 where d: "detachThread t st = Some st1" "threads_ok st1 (remove1 t ts)" "freed_between st st1"
      using detach_spec [OF Cons(2)] Cons(3) by auto
    moreover from d(3) have "nested_calls (max_thread_count (collector st1)) cs (remove1 t ts)"
      using Cons(3) Detach by (simp add: freed_between_def)
    ultimately show ?thesis using Cons(1) [OF d(2)] freed_between_trans by (auto simp: Detach)
  qed
qed (auto intro: freed_between_same)

subsection \<open>The destructor\<close>

lemma detach_all_spec:
  "detach_ok m \<Longrightarrow> n \<le> length (smr_threads m) \<Longrightarrow>
   \<exists>freed m'. detach_all_thread n m = Some (freed, m') \<and> detach_ok m' \<and> distinct freed \<and>
     set freed \<union> retired_set m' = retired_set m \<and> set freed \<inter> retired_set m' = {} \<and>
     (\<forall>i < n. tr_owner (smr_threads m' ! i) = 0) \<and> (\<forall>i. tr_owner (smr_threads m ! i) = 0 \<longrightarrow> tr_owner (smr_threads m' ! i) = 0) \<and>
     length (smr_threads m') = length (smr_threads m)"
proof (induction n arbitrary: m)
  case (Suc n)
  show ?case
  proof (cases "tr_owner (smr_threads m ! n) = 0")
    case True
    then show ?thesis using Suc(1) [OF Suc(2)] Suc(3) by (auto simp: less_Suc_eq)
  next
    case False
    have n: "n < length (smr_threads m)" using Suc(3) by simp
    obtain freed m1 where f: "free_thread_data n m = Some (freed, m1)" "detach_ok m1" "distinct freed"
      "set freed \<union> retired_set m1 = retired_set m" "set freed \<inter> retired_set m1 = {}"
      "length (smr_threads m1) = length (smr_threads m)"
      "\<And>j. tr_owner (smr_threads m1 ! j) = (if j = n then 0 else tr_owner (smr_threads m ! j))"
      using free_thread_data_spec [OF Suc(2) n False] by blast
    then obtain freed' m' where g: "detach_all_thread n m1 = Some (freed', m')" "detach_ok m'" "distinct freed'"
      "set freed' \<union> retired_set m' = retired_set m1" "set freed' \<inter> retired_set m' = {}"
      "\<forall>i < n. tr_owner (smr_threads m' ! i) = 0" "\<forall>i. tr_owner (smr_threads m1 ! i) = 0 \<longrightarrow> tr_owner (smr_threads m' ! i) = 0"
      "length (smr_threads m') = length (smr_threads m1)"
      using Suc(1) [OF f(2)] Suc(3) by auto
    have "detach_all_thread (Suc n) m = Some (freed @ freed', m')" using False f(1) g(1) by simp
    moreover have "distinct (freed @ freed')" using f(3,5) g(3,4) by auto
    moreover have "set (freed @ freed') \<union> retired_set m' = retired_set m" "set (freed @ freed') \<inter> retired_set m' = {}"
      using f(4,5) g(4,5) by auto
    moreover have "\<forall>i < Suc n. tr_owner (smr_threads m' ! i) = 0" using f(7) g(6,7) by (simp add: less_Suc_eq)
    moreover have "\<forall>i. tr_owner (smr_threads m ! i) = 0 \<longrightarrow> tr_owner (smr_threads m' ! i) = 0" using f(7) g(7) by simp
    ultimately show ?thesis using g(2,8) f(6) by (intro exI [of _ "freed @ freed'"] exI [of _ m']) simp
  qed
qed auto

lemma distinct_concat_rev:
  assumes "\<forall>r \<in> set rs. distinct (f r)" "sorted_wrt (\<lambda>r r'. set (f r) \<inter> set (f r') = {}) rs"
  shows "distinct (concat (map f (rev rs)))"
  using assms by (induction rs) auto

lemma smr_dtor_spec:
  assumes "detach_ok m"
  shows "distinct (smr_dtor m)" "set (smr_dtor m) = retired_set m"
proof -
  show "set (smr_dtor m) = retired_set m" by (simp add: smr_dtor_def retired_set_records)
  have "\<forall>r \<in> set (smr_threads m). distinct (tr_retired r)"
    using assms by (simp add: detach_ok_def smr_ok_def record_ok_def)
  moreover have "sorted_wrt (\<lambda>r r'. set (tr_retired r) \<inter> set (tr_retired r') = {}) (smr_threads m)"
    using assms by (auto simp: detach_ok_def sorted_wrt_iff_nth_less)
  ultimately show "distinct (smr_dtor m)" unfolding smr_dtor_def by (rule distinct_concat_rev)
qed

lemma HP_dtor_spec:
  assumes ok: "threads_ok st ts"
  shows "\<exists>st'. HP_dtor st = Some st' \<and> \<not> rp_hp_used st' \<and>
    c_nodes (st_cds st') = c_nodes (st_cds st) |` (- retired_set (collector st)) \<and>
    (\<forall>r \<in> set (smr_threads (collector st')). tr_owner r = 0)"
proof -
  let ?m = "collector st"
  obtain freed m where d: "detach_all_thread (length (smr_threads ?m)) ?m = Some (freed, m)" "detach_ok m" "distinct freed"
    "set freed \<union> retired_set m = retired_set ?m" "set freed \<inter> retired_set m = {}"
    "\<forall>i < length (smr_threads ?m). tr_owner (smr_threads m ! i) = 0" "length (smr_threads m) = length (smr_threads ?m)"
    using detach_all_spec [OF threads_okD(2) [OF ok] order_refl] by blast
  let ?fs = "freed @ smr_dtor m"
  have fs: "distinct ?fs" "set ?fs = retired_set ?m" using d(3,4,5) smr_dtor_spec [OF d(2)] by auto
  have "dispose_all ?fs ((st_cds st)\<lparr>c_smr := m\<rparr>) =
      Some ((st_cds st)\<lparr>c_smr := m, c_nodes := c_nodes (st_cds st) |` (- retired_set ?m)\<rparr>)"
    using dispose_all_spec [OF fs(1), of "(st_cds st)\<lparr>c_smr := m\<rparr>"] threads_okD(3) [OF ok] unfolding fs(2) by simp
  moreover have "\<forall>r \<in> set (smr_threads m). tr_owner r = 0" using d(6,7) by (auto simp: in_set_conv_nth)
  ultimately show ?thesis using d(1) threads_okD(1) [OF ok] by (simp add: HP_dtor_def smr_destruct_def Let_def)
qed

subsection \<open>A concrete state\<close>

text \<open>Threads 7 and 9 are attached, and their arrays and that of a record without an owner hold retired nodes.\<close>

definition threads_demo :: "unit redpar_state" where
  "threads_demo =
     \<lparr>st_srv = (), st_trace = [], st_ll = \<lparr>ll_nodes = Map.empty, ll_objs = Map.empty\<rparr>, st_llca = 0,
      st_cds = \<lparr>c_nodes = (\<lambda>a. if a \<in> {16, 32, 48, 64, 80, 96} then Some (node_ctor 1 0) else None), c_sets = Map.empty,
                c_smr = demo_ok\<rparr>, st_llca_conc = 0,
      rp_queue = \<lparr>eq_events = []\<rparr>, rp_fp = (\<lambda>_. 0), rp_nInitCallCount = 1, rp_hp_used = True,
      rp_nAttachCount = (\<lambda>t. if t \<in> {7, 9} then 1 else 0), rp_tls = [7 \<mapsto> 0, 9 \<mapsto> 1], rp_thread_pool = [9]\<rparr>"

lemma threads_demo: "threads_ok threads_demo [7, 9]" "retired_set (collector threads_demo) = {16, 32, 48, 64, 80}"
  "max_thread_count (collector threads_demo) = 3" "rp_hp_used threads_demo"
  "c_nodes (st_cds threads_demo) = (\<lambda>a. if a \<in> {16, 32, 48, 64, 80, 96} then Some (node_ctor 1 0) else None)"
proof -
  have m: "collector threads_demo = demo_ok" by (simp add: threads_demo_def)
  have r: "smr_threads demo_ok =
     [\<lparr>tr_hazards = [0, 0], tr_free = [0, 1], tr_retired = [48, 16, 32], tr_capacity = 7, tr_owner = 7, tr_bFree = False\<rparr>,
      \<lparr>tr_hazards = [16, 0], tr_free = [1], tr_retired = [80], tr_capacity = 7, tr_owner = 9, tr_bFree = False\<rparr>,
      \<lparr>tr_hazards = [0, 0], tr_free = [0, 1], tr_retired = [64], tr_capacity = 7, tr_owner = 0, tr_bFree = False\<rparr>]"
    by (simp add: demo_ok_def)
  show rs: "retired_set (collector threads_demo) = {16, 32, 48, 64, 80}"
    unfolding m by (auto simp: retired_set_records r)
  show n: "c_nodes (st_cds threads_demo) = (\<lambda>a. if a \<in> {16, 32, 48, 64, 80, 96} then Some (node_ctor 1 0) else None)"
    by (simp add: threads_demo_def)
  have sub: "retired_set (collector threads_demo) \<subseteq> dom (c_nodes (st_cds threads_demo))"
    unfolding rs n by (auto simp: dom_def)
  have t: "rp_hp_used threads_demo" "rp_nAttachCount threads_demo = (\<lambda>t. if t \<in> {7, 9} then 1 else 0)"
    "rp_tls threads_demo = [7 \<mapsto> 0, 9 \<mapsto> 1]" by (simp_all add: threads_demo_def)
  show "max_thread_count (collector threads_demo) = 3" "rp_hp_used threads_demo"
    unfolding m by (simp_all add: demo_ok_def smr_ctor_def t)
  show "threads_ok threads_demo [7, 9]"
    unfolding threads_ok_def
  proof (intro conjI allI impI)
    show "detach_ok (collector threads_demo)" unfolding m by (rule demo_ok)
    show "rp_tls threads_demo (tr_owner (smr_threads (collector threads_demo) ! i)) = Some i"
      if "i < length (smr_threads (collector threads_demo))" "tr_owner (smr_threads (collector threads_demo) ! i) \<noteq> 0" for i
    proof -
      have "i = 0 \<or> i = 1 \<or> i = 2" using that(1) unfolding m r by auto
      then show ?thesis using that(2) unfolding m r t by auto
    qed
  qed (use sub in \<open>auto simp: m r t split: if_splits\<close>)
qed

subsection \<open>Properties\<close>

text \<open>C10: Threads attach to libcds and detach from it any number of times, nested per thread and with not
  more threads at once than the collector was built for. Every call succeeds; a thread owns exactly one record
  while its counter is not 0 and none otherwise; and the nodes freed on the way are exactly the retired ones that
  left the arrays.\<close>

theorem attach_detach_sequences:
  assumes "threads_ok st ts" and "nested_calls (max_thread_count (collector st)) cs ts"
  shows "\<exists>st'. thread_calls cs st = Some st' \<and> threads_ok st' (open_calls cs ts) \<and>
    (\<forall>t. rp_tls st' t \<noteq> None \<longleftrightarrow> t \<in> set (open_calls cs ts)) \<and>
    retired_set (collector st') \<subseteq> retired_set (collector st) \<and>
    c_nodes (st_cds st') = c_nodes (st_cds st) |` (- (retired_set (collector st) - retired_set (collector st')))"
proof -
  obtain st' where "thread_calls cs st = Some st'" "threads_ok st' (open_calls cs ts)" "freed_between st st'"
    using thread_calls_spec [OF assms] by blast
  moreover from this(2) have "\<forall>t. rp_tls st' t \<noteq> None \<longleftrightarrow> t \<in> set (open_calls cs ts)"
    by (simp add: threads_okD(6))
  ultimately show ?thesis unfolding freed_between_def by blast
qed

lemma attach_detach_sequences_witness:
  "\<exists>st'. thread_calls [Attach 7, Attach 5, Detach 7, Detach 7, Attach 4, Detach 9, Detach 5] threads_demo = Some st' \<and>
    threads_ok st' [4] \<and> rp_tls st' 7 = None \<and> rp_tls st' 4 \<noteq> None \<and> c_nodes (st_cds st') 96 \<noteq> None"
proof -
  let ?cs = "[Attach 7, Attach 5, Detach 7, Detach 7, Attach 4, Detach 9, Detach 5]"
  have n: "nested_calls (max_thread_count (collector threads_demo)) ?cs [7, 9]" "open_calls ?cs [7, 9] = [4]"
    unfolding threads_demo(3) by (simp_all add: card_insert_if)
  from attach_detach_sequences [OF threads_demo(1) n(1)] obtain st' where
    s: "thread_calls ?cs threads_demo = Some st'" "threads_ok st' (open_calls ?cs [7, 9])"
      "\<forall>t. rp_tls st' t \<noteq> None \<longleftrightarrow> t \<in> set (open_calls ?cs [7, 9])"
      "c_nodes (st_cds st') = c_nodes (st_cds threads_demo) |`
         (- (retired_set (collector threads_demo) - retired_set (collector st')))" by blast
  have "c_nodes (st_cds st') 96 \<noteq> None"
    unfolding s(4) threads_demo(2) by (simp add: threads_demo(5) restrict_map_def)
  moreover have "rp_tls st' 7 = None" "rp_tls st' 4 \<noteq> None" using s(3) [rule_format, of 7] s(3) [rule_format, of 4] unfolding n(2) by simp_all
  ultimately show ?thesis using s(1,2) unfolding n(2) by blast
qed



end
