(* ===== verification/Marked_Atomic.thy ===== *)
theory Marked_Atomic
  imports Cds_Base
begin

text \<open>
  The rest of \<^verbatim>\<open>cds/details/marked_ptr.h\<close>: constructors and operators of \<open>marked_ptr\<close>, and the specialisation of
  \<open>std::atomic\<close> for it. A marked pointer packs an address and a mark into one word, so that one compare-and-swap
  decides on both; the abstraction below is the pair of the two.

  The memory order of an access is left out: an access is one step.
\<close>

subsection \<open>Constructors and operators\<close>

definition mp_null :: marked_ptr where "mp_null = 0"

definition mp_of_ptr :: "addr \<Rightarrow> marked_ptr" where "mp_of_ptr ptr = ptr"

text \<open>The code asserts that the address has its lowest bit clear.\<close>

definition mp_make :: "addr \<Rightarrow> 64 word \<Rightarrow> marked_ptr option" where
  "mp_make ptr nMask = (if mp_bits ptr = 0 then Some (mp_or ptr nMask) else None)"

definition mp_op_or :: "marked_ptr \<Rightarrow> 64 word \<Rightarrow> marked_ptr" where "mp_op_or p nBits = mp_or p nBits"
definition mp_op_and :: "marked_ptr \<Rightarrow> 64 word \<Rightarrow> marked_ptr" where "mp_op_and p nBits = mp_and p nBits"
definition mp_op_xor :: "marked_ptr \<Rightarrow> 64 word \<Rightarrow> marked_ptr" where "mp_op_xor p nBits = mp_xor p nBits"

definition mp_neq :: "marked_ptr \<Rightarrow> marked_ptr \<Rightarrow> bool" where "mp_neq p1 p2 \<longleftrightarrow> mp_all p1 \<noteq> mp_all p2"

subsection \<open>The atomic\<close>

text \<open>The cell holds the word \<open>m_atomic\<close>.\<close>

type_synonym atomic_marked_ptr = "64 word"

definition am_ctor :: "marked_ptr \<Rightarrow> atomic_marked_ptr" where "am_ctor val = mp_all val"

definition am_store :: "marked_ptr \<Rightarrow> atomic_marked_ptr \<Rightarrow> atomic_marked_ptr" where "am_store val c = mp_all val"

definition am_load :: "atomic_marked_ptr \<Rightarrow> marked_ptr" where "am_load c = mp_of_ptr c"

definition am_exchange :: "marked_ptr \<Rightarrow> atomic_marked_ptr \<Rightarrow> marked_ptr \<times> atomic_marked_ptr" where
  "am_exchange val c = (mp_of_ptr c, mp_all val)"

text \<open>A compare-and-swap gives whether it succeeded, the value of \<open>expected\<close> afterwards and the cell. The weak one may also
  fail although the cell has the expected value; then \<open>spurious\<close>.\<close>

definition am_compare_exchange_strong ::
  "marked_ptr \<Rightarrow> marked_ptr \<Rightarrow> atomic_marked_ptr \<Rightarrow> bool \<times> marked_ptr \<times> atomic_marked_ptr" where
  "am_compare_exchange_strong expected desired c =
     (if c = expected then (True, expected, mp_all desired) else (False, c, c))"

definition am_compare_exchange_weak ::
  "bool \<Rightarrow> marked_ptr \<Rightarrow> marked_ptr \<Rightarrow> atomic_marked_ptr \<Rightarrow> bool \<times> marked_ptr \<times> atomic_marked_ptr" where
  "am_compare_exchange_weak spurious expected desired c =
     (if spurious then (False, c, c) else am_compare_exchange_strong expected desired c)"

definition am_assign :: "marked_ptr \<Rightarrow> atomic_marked_ptr \<Rightarrow> marked_ptr \<times> atomic_marked_ptr" where
  "am_assign val c = (val, am_store val c)"

subsection \<open>The pair behind the word\<close>

definition pair_of :: "marked_ptr \<Rightarrow> addr \<times> bool" where "pair_of p = (mp_ptr p, mp_bits p \<noteq> 0)"

definition mark_of :: "bool \<Rightarrow> 64 word" where "mark_of b = (if b then 1 else 0)"

lemma mp_split: "p = mp_or (mp_ptr p) (mp_bits p)"
  by (rule bit_word_eqI) (auto simp: mp_or_def mp_ptr_def mp_bits_def bitmask_def bit_simps)

lemma pair_of_inject: "pair_of p = pair_of q \<longleftrightarrow> p = q"
proof
  assume "pair_of p = pair_of q"
  then have "mp_ptr p = mp_ptr q" "mp_bits p = mp_bits q" by (auto simp: pair_of_def mp_bits_bit)
  then show "p = q" using mp_split [of p] mp_split [of q] by simp
qed simp

lemma mp_bits_zero: "mp_bits p = 0 \<longleftrightarrow> aligned p"
  by (simp add: mp_bits_def aligned_def bitmask_def)

lemma mp_or_0: "mp_or p 0 = p"
  by (simp add: mp_or_def)

lemma pair_of_make: "aligned a \<Longrightarrow> mp_make a (mark_of b) = Some p \<Longrightarrow> pair_of p = (a, b)"
  by (cases b) (auto simp: mp_make_def mark_of_def pair_of_def mp_or_0 split: if_splits)

lemma mp_make_defined: "aligned a \<Longrightarrow> \<exists>p. mp_make a n = Some p"
  by (simp add: mp_make_def)

lemma mp_ptr_ops: "mp_ptr (mp_or p (mark_of b)) = mp_ptr p" "mp_ptr (mp_and p (mark_of b)) = mp_ptr p" "mp_ptr (mp_xor p (mark_of b)) = mp_ptr p"
  by (rule bit_word_eqI; auto simp: mp_ptr_def mp_or_def mp_and_def mp_xor_def pointer_bitmask_def mark_of_def bitmask_def bit_simps)+

lemma mp_bits_ops: "mp_bits (mp_or p (mark_of b)) \<noteq> 0 \<longleftrightarrow> mp_bits p \<noteq> 0 \<or> b"
  "mp_bits (mp_and p (mark_of b)) \<noteq> 0 \<longleftrightarrow> mp_bits p \<noteq> 0 \<and> b"
  "mp_bits (mp_xor p (mark_of b)) \<noteq> 0 \<longleftrightarrow> (mp_bits p \<noteq> 0) \<noteq> b"
  by (auto simp: mp_bits_bit mp_or_def mp_and_def mp_xor_def pointer_bitmask_def mark_of_def bitmask_def bit_simps)

subsection \<open>Properties\<close>

text \<open>C34: A marked pointer is the pair of an aligned address and a mark: the constructor packs every such pair, the
  pair determines the word, and the operators or, and, xor act on the mark alone. So a compare-and-swap of an atomic marked pointer is one of
  pairs: it succeeds exactly when address and mark both agree, stores the new pair then, and reports the pair it found otherwise.\<close>

theorem marked_ptr_is_pair:
  "(\<forall>a b. aligned a \<longrightarrow> (\<exists>p. mp_make a (mark_of b) = Some p \<and> pair_of p = (a, b))) \<and>
   (\<forall>p q. mp_eq p q \<longleftrightarrow> pair_of p = pair_of q) \<and>
   (\<forall>p b. pair_of (mp_op_or p (mark_of b)) = (fst (pair_of p), snd (pair_of p) \<or> b) \<and>
      pair_of (mp_op_and p (mark_of b)) = (fst (pair_of p), snd (pair_of p) \<and> b) \<and>
      pair_of (mp_op_xor p (mark_of b)) = (fst (pair_of p), snd (pair_of p) \<noteq> b)) \<and>
   (\<forall>e d c. case am_compare_exchange_strong e d c of (ok, e', c') \<Rightarrow>
      ok = (pair_of (am_load c) = pair_of e) \<and> pair_of e' = pair_of (am_load c) \<and>
      pair_of (am_load c') = (if ok then pair_of d else pair_of (am_load c))) \<and>
   (\<forall>s e d c. case am_compare_exchange_weak s e d c of (ok, e', c') \<Rightarrow>
      (ok \<longrightarrow> pair_of (am_load c) = pair_of e) \<and> pair_of (am_load c') = (if ok then pair_of d else pair_of (am_load c)))"
  (is "?make \<and> ?eq \<and> ?ops \<and> ?strong \<and> ?weak")
proof (intro conjI)
  show ?make using pair_of_make mp_make_defined by blast
  show ?eq by (simp add: pair_of_inject mp_eq_def mp_all_def)
  show ?ops by (simp add: pair_of_def mp_op_or_def mp_op_and_def mp_op_xor_def mp_ptr_ops mp_bits_ops)
  show ?strong by (auto simp: am_compare_exchange_strong_def am_load_def mp_of_ptr_def mp_all_def pair_of_inject)
  show ?weak
    by (auto simp: am_compare_exchange_weak_def am_compare_exchange_strong_def am_load_def mp_of_ptr_def mp_all_def)
qed

lemma marked_ptr_is_pair_witness:
  "\<exists>p. mp_make 64 (mark_of True) = Some p \<and> pair_of p = (64, True)"
  using conjunct1 [OF marked_ptr_is_pair] by (simp add: aligned_def)

end
