(* ===== verification/Node_Memory.thy ===== *)
theory Node_Memory
  imports Skip_List
begin

text \<open>
  The memory of a skip list node. The container allocates the node and its tower as one block
  (\<^verbatim>\<open>node_allocator\<close> of \<^verbatim>\<open>cds/container/details/skip_list_base.h\<close>, \<open>node_type\<close> of \<^verbatim>\<open>make_skip_list_set.h\<close>); a client of the intrusive set gets
  a tower of its own (\<^verbatim>\<open>intrusive_node_builder\<close> of \<^verbatim>\<open>cds/intrusive/details/skip_list_base.h\<close>).

  Addresses are numbers. The state has the allocated blocks, each with the allocator's element type and the number of elements it was asked
  for, the constructed nodes and the constructed items of towers by address. Deallocating must name the type and number that
  allocating named, as \<open>std::allocator\<close> demands; anything else, and a failed assertion, is \<open>None\<close>. The sizes and alignments of the types are
  a parameter.
\<close>

subsection \<open>State\<close>

datatype element_type = Bytes | Nodes | Items

record node_layout =
  sz_node :: nat
  sz_item :: nat
  al_node :: nat
  al_item :: nat

record mem_node =
  mn_pNext :: marked_ptr
  mn_nHeight :: nat
  mn_arrNext :: nat
  mn_nUnlink :: "32 word"
  mn_value :: int64

record node_mem =
  nm_blocks :: "nat \<rightharpoonup> element_type \<times> nat"
  nm_nodes :: "nat \<rightharpoonup> mem_node"
  nm_items :: "nat \<rightharpoonup> marked_ptr"

definition mem_allocate :: "element_type \<Rightarrow> nat \<Rightarrow> nat \<Rightarrow> node_mem \<Rightarrow> node_mem option" where
  "mem_allocate k n a m =
     (if a = 0 \<or> nm_blocks m a \<noteq> None then None else Some (m\<lparr>nm_blocks := (nm_blocks m)(a \<mapsto> (k, n))\<rparr>))"

text \<open>What was constructed in the \<open>sz\<close> bytes of the block is gone with it.\<close>

definition mem_deallocate :: "element_type \<Rightarrow> nat \<Rightarrow> nat \<Rightarrow> nat \<Rightarrow> node_mem \<Rightarrow> node_mem option" where
  "mem_deallocate k n sz a m =
     (if nm_blocks m a = Some (k, n)
      then Some (m\<lparr>nm_blocks := (nm_blocks m)(a := None), nm_items := nm_items m |` (- {a..<a + sz})\<rparr>)
      else None)"

subsection \<open>Sizes\<close>

definition c_nNodePadding :: "node_layout \<Rightarrow> nat" where "c_nNodePadding L = sz_node L mod sz_item L"

definition c_nNodeSize :: "node_layout \<Rightarrow> nat" where
  "c_nNodeSize L = sz_node L + (if c_nNodePadding L \<noteq> 0 then sz_item L - c_nNodePadding L else 0)"

definition node_size :: "node_layout \<Rightarrow> nat \<Rightarrow> nat" where
  "node_size L nHeight = c_nNodeSize L + (nHeight - 1) * sz_item L"

subsection \<open>The intrusive node\<close>

definition mem_node_ctor :: "int64 \<Rightarrow> mem_node" where
  "mem_node_ctor v = \<lparr>mn_pNext = 0, mn_nHeight = 1, mn_arrNext = 0, mn_nUnlink = 1, mn_value = v\<rparr>"

definition mem_make_tower :: "nat \<Rightarrow> nat \<Rightarrow> mem_node \<Rightarrow> mem_node option" where
  "mem_make_tower nHeight nextTower n =
     (if nHeight > 0 \<and> ((nHeight = 1 \<and> nextTower = 0) \<or> (nHeight > 1 \<and> nextTower \<noteq> 0))
      then Some (n\<lparr>mn_arrNext := nextTower, mn_nHeight := nHeight, mn_nUnlink := of_nat nHeight\<rparr>)
      else None)"

definition mem_release_tower :: "mem_node \<Rightarrow> nat \<times> mem_node" where
  "mem_release_tower n = (mn_arrNext n, n\<lparr>mn_arrNext := 0, mn_nHeight := 1\<rparr>)"

fun construct_items :: "nat \<Rightarrow> nat \<Rightarrow> nat \<Rightarrow> (nat \<rightharpoonup> marked_ptr) \<Rightarrow> nat \<rightharpoonup> marked_ptr" where
  "construct_items sz p 0 M = M"
| "construct_items sz p (Suc k) M = construct_items sz (p + sz) k (M(p \<mapsto> 0))"

text \<open>\<open>node_type::init_tower\<close>.\<close>

definition init_tower :: "node_layout \<Rightarrow> nat \<Rightarrow> nat \<Rightarrow> mem_node \<Rightarrow> node_mem \<Rightarrow> (mem_node \<times> node_mem) option" where
  "init_tower L nHeight pTower n m =
     (if nHeight > 1 then do {
        let m = m\<lparr>nm_items := construct_items (sz_item L) pTower (nHeight - 1) (nm_items m)\<rparr>;
        n \<leftarrow> mem_make_tower nHeight pTower n;
        Some (n, m)
      } else Some (n, m))"

subsection \<open>The allocator of the container\<close>

definition alloc_space :: "node_layout \<Rightarrow> nat \<Rightarrow> nat \<Rightarrow> node_mem \<Rightarrow> node_mem option" where
  "alloc_space L nHeight pMem m =
     (if nHeight > 1 then do {
        m \<leftarrow> mem_allocate Bytes (node_size L nHeight) pMem m;
        if pMem mod al_node L = 0 \<and> (pMem + c_nNodeSize L) mod al_item L = 0 then Some m else None
      } else mem_allocate Nodes 1 pMem m)"

definition free_space :: "node_layout \<Rightarrow> nat \<Rightarrow> nat \<Rightarrow> node_mem \<Rightarrow> node_mem option" where
  "free_space L p nHeight m =
     (if p = 0 then None
      else if nHeight = 1 then mem_deallocate Nodes 1 (sz_node L) p m
      else mem_deallocate Bytes (node_size L nHeight) (node_size L nHeight) p m)"

definition node_alloc_New :: "node_layout \<Rightarrow> nat \<Rightarrow> int64 \<Rightarrow> nat \<Rightarrow> node_mem \<Rightarrow> node_mem option" where
  "node_alloc_New L nHeight v pMem m = do {
     m \<leftarrow> alloc_space L nHeight pMem m;
     (n, m) \<leftarrow> init_tower L nHeight (if nHeight > 1 then pMem + c_nNodeSize L else 0) (mem_node_ctor v) m;
     Some (m\<lparr>nm_nodes := (nm_nodes m)(pMem \<mapsto> n)\<rparr>)
   }"

definition node_alloc_Delete :: "node_layout \<Rightarrow> nat \<Rightarrow> node_mem \<Rightarrow> node_mem option" where
  "node_alloc_Delete L p m = do {
     n \<leftarrow> nm_nodes m p;
     free_space L p (mn_nHeight n) (m\<lparr>nm_nodes := (nm_nodes m)(p := None)\<rparr>)
   }"

subsection \<open>The builder of the intrusive set\<close>

text \<open>\<open>Allocator::NewArray\<close> and \<open>Delete\<close> of \<^verbatim>\<open>cds/details/allocator.h\<close>: the latter destroys each item before it deallocates.\<close>

definition tower_NewArray :: "node_layout \<Rightarrow> nat \<Rightarrow> nat \<Rightarrow> node_mem \<Rightarrow> node_mem option" where
  "tower_NewArray L nCount p m = do {
     m \<leftarrow> mem_allocate Items nCount p m;
     Some (m\<lparr>nm_items := construct_items (sz_item L) p nCount (nm_items m)\<rparr>)
   }"

fun destroy_items :: "nat \<Rightarrow> nat \<Rightarrow> nat \<Rightarrow> (nat \<rightharpoonup> marked_ptr) \<Rightarrow> (nat \<rightharpoonup> marked_ptr) option" where
  "destroy_items sz p 0 M = Some M"
| "destroy_items sz p (Suc k) M = (if M p = None then None else destroy_items sz (p + sz) k (M(p := None)))"

definition tower_Delete :: "node_layout \<Rightarrow> nat \<Rightarrow> nat \<Rightarrow> node_mem \<Rightarrow> node_mem option" where
  "tower_Delete L p nCount m = do {
     M \<leftarrow> destroy_items (sz_item L) p nCount (nm_items m);
     mem_deallocate Items nCount (nCount * sz_item L) p (m\<lparr>nm_items := M\<rparr>)
   }"

definition builder_make_tower :: "node_layout \<Rightarrow> nat \<Rightarrow> nat \<Rightarrow> nat \<Rightarrow> node_mem \<Rightarrow> node_mem option" where
  "builder_make_tower L pNode nHeight a m =
     (if nHeight > 1 then do {
        m \<leftarrow> tower_NewArray L (nHeight - 1) a m;
        n \<leftarrow> nm_nodes m pNode;
        n \<leftarrow> mem_make_tower nHeight a n;
        Some (m\<lparr>nm_nodes := (nm_nodes m)(pNode \<mapsto> n)\<rparr>)
      } else Some m)"

definition builder_dispose_tower :: "node_layout \<Rightarrow> nat \<Rightarrow> node_mem \<Rightarrow> node_mem option" where
  "builder_dispose_tower L pNode m = do {
     n \<leftarrow> nm_nodes m pNode;
     let nHeight = mn_nHeight n;
     if nHeight > 1 then do {
       let (t, n) = mem_release_tower n;
       tower_Delete L t nHeight (m\<lparr>nm_nodes := (nm_nodes m)(pNode \<mapsto> n)\<rparr>)
     } else Some m
   }"

subsection \<open>Reading a node\<close>

text \<open>The node at an address with its tower, as the other theories have it.\<close>

definition mem_item :: "node_layout \<Rightarrow> mem_node \<Rightarrow> nat \<Rightarrow> nat" where
  "mem_item L n i = mn_arrNext n + i * sz_item L"

definition read_node :: "node_layout \<Rightarrow> nat \<Rightarrow> node_mem \<Rightarrow> sl_node option" where
  "read_node L p m = do {
     n \<leftarrow> nm_nodes m p;
     items \<leftarrow> those (map (\<lambda>i. nm_items m (mem_item L n i)) [0..<mn_nHeight n - 1]);
     Some \<lparr>sn_value = Some (mn_value n), sn_pNext = mn_pNext n, sn_nHeight = mn_nHeight n,
           sn_arrNext = items, sn_nUnlink = mn_nUnlink n\<rparr>
   }"

subsection \<open>Lemmas\<close>

lemma construct_items_nth:
  "0 < sz \<Longrightarrow> construct_items sz p k M x = (if \<exists>i < k. x = p + i * sz then Some 0 else M x)"
proof (induction k arbitrary: p M)
  case (Suc k)
  have "(\<exists>i < Suc k. x = p + i * sz) \<longleftrightarrow> x = p \<or> (\<exists>i < k. x = p + sz + i * sz)"
    by (auto simp: less_Suc_eq_0_disj)
  then show ?case using Suc by auto
qed simp

lemma those_replicate: "those (replicate k (Some x)) = Some (replicate k x)"
  by (induction k) simp_all

text \<open>The tower starts behind the node, aligned.\<close>

lemma node_size_padded:
  assumes "0 < sz_item L"
  shows "sz_node L \<le> c_nNodeSize L" "sz_item L dvd c_nNodeSize L"
proof -
  show "sz_node L \<le> c_nNodeSize L" by (simp add: c_nNodeSize_def)
  obtain q r where r: "sz_node L = q * sz_item L + r" "sz_node L mod sz_item L = r" "r < sz_item L"
    using div_mult_mod_eq [of "sz_node L" "sz_item L"] assms by (metis mod_less_divisor)
  have "c_nNodeSize L = q * sz_item L + (if r \<noteq> 0 then sz_item L else 0)"
    unfolding c_nNodeSize_def c_nNodePadding_def r(2) using r(3) by (simp add: r(1))
  then show "sz_item L dvd c_nNodeSize L" by simp
qed

definition layout_ok :: "node_layout \<Rightarrow> bool" where
  "layout_ok L \<longleftrightarrow> 0 < sz_item L \<and> 0 < sz_node L \<and> al_item L dvd sz_item L"

definition fresh_block :: "node_layout \<Rightarrow> nat \<Rightarrow> nat \<Rightarrow> node_mem \<Rightarrow> bool" where
  "fresh_block L sz a m \<longleftrightarrow> a \<noteq> 0 \<and> nm_blocks m a = None \<and> nm_nodes m a = None \<and> al_node L dvd a \<and> al_item L dvd a \<and>
     (\<forall>x \<in> {a..<a + sz}. nm_items m x = None)"

lemma items_restrict:
  assumes "0 < sz" "a \<le> p" "p + k * sz \<le> a + n" "\<forall>x \<in> {a..<a + n}. M x = None"
  shows "construct_items sz p k M |` (- {a..<a + n}) = M"
proof (rule ext)
  fix x
  have "x \<in> {a..<a + n}" if i: "i < k" "x = p + i * sz" for i
  proof -
    have "Suc i * sz \<le> k * sz" using i(1) by (intro mult_le_mono1) simp
    then show ?thesis using i assms(1-3) by simp
  qed
  then show "(construct_items sz p k M |` (- {a..<a + n})) x = M x"
    using assms(1,4) by (cases "x \<in> {a..<a + n}") (auto simp: restrict_map_def construct_items_nth)
qed

text \<open>The node that \<open>New\<close> constructs.\<close>

definition new_node :: "node_layout \<Rightarrow> nat \<Rightarrow> int64 \<Rightarrow> nat \<Rightarrow> mem_node" where
  "new_node L h v a =
     \<lparr>mn_pNext = 0, mn_nHeight = h, mn_arrNext = (if h > 1 then a + c_nNodeSize L else 0), mn_nUnlink = of_nat h, mn_value = v\<rparr>"

definition new_block :: "node_layout \<Rightarrow> nat \<Rightarrow> element_type \<times> nat" where
  "new_block L h = (if h > 1 then (Bytes, node_size L h) else (Nodes, 1))"

lemma node_alloc_New_eq:
  assumes L: "layout_ok L" and h: "1 \<le> h" and a: "fresh_block L (node_size L h) a m"
  shows "node_alloc_New L h v a m = Some (m\<lparr>nm_blocks := (nm_blocks m)(a \<mapsto> new_block L h),
      nm_nodes := (nm_nodes m)(a \<mapsto> new_node L h v a),
      nm_items := construct_items (sz_item L) (a + c_nNodeSize L) (h - 1) (nm_items m)\<rparr>)"
proof (cases "h = 1")
  case True
  then show ?thesis
    using a by (simp add: node_alloc_New_def alloc_space_def mem_allocate_def init_tower_def new_node_def new_block_def
        fresh_block_def mem_node_ctor_def)
next
  case False
  then have h1: "h > 1" using h by simp
  have "al_item L dvd c_nNodeSize L"
    using L node_size_padded(2) [of L] by (auto simp: layout_ok_def intro: dvd_trans)
  then have "a mod al_node L = 0" "(a + c_nNodeSize L) mod al_item L = 0" "a + c_nNodeSize L \<noteq> 0" "a \<noteq> 0" "nm_blocks m a = None"
    using a by (auto simp: fresh_block_def mod_eq_0_iff_dvd)
  then show ?thesis
    using h1 by (simp add: node_alloc_New_def alloc_space_def mem_allocate_def init_tower_def new_node_def new_block_def
        mem_node_ctor_def mem_make_tower_def)
qed

lemma tower_Delete_wrong: "nm_blocks m p \<noteq> Some (Items, k) \<Longrightarrow> tower_Delete L p k m = None"
  by (cases "destroy_items (sz_item L) p k (nm_items m)") (simp_all add: tower_Delete_def mem_deallocate_def)

subsection \<open>Properties\<close>

text \<open>C21: For every height and every layout of the types that the language allows, the container's \<open>New\<close> gives, in one block,
  a node that reads as the constructor says with each item of its tower aligned, behind the node and inside the block; \<open>Delete\<close> gives the block back as
  it was allocated and leaves memory as it was before.\<close>

theorem node_memory_roundtrip:
  assumes "layout_ok L" and "1 \<le> h" and "fresh_block L (node_size L h) a m"
  shows "\<exists>m'. node_alloc_New L h v a m = Some m' \<and> read_node L a m' = Some (node_ctor h v) \<and>
    (\<forall>n i. nm_nodes m' a = Some n \<and> i < h - 1 \<longrightarrow> a + sz_node L \<le> mem_item L n i \<and>
       mem_item L n i + sz_item L \<le> a + node_size L h \<and> al_item L dvd mem_item L n i) \<and>
    node_alloc_Delete L a m' = Some m"
proof -
  let ?M = "construct_items (sz_item L) (a + c_nNodeSize L) (h - 1) (nm_items m)"
  let ?m = "m\<lparr>nm_blocks := (nm_blocks m)(a \<mapsto> new_block L h), nm_nodes := (nm_nodes m)(a \<mapsto> new_node L h v a), nm_items := ?M\<rparr>"
  have L: "0 < sz_item L" "al_item L dvd sz_item L" using assms(1) by (simp_all add: layout_ok_def)
  note pad = node_size_padded [OF L(1)]
  have a: "a \<noteq> 0" "nm_blocks m a = None" "nm_nodes m a = None" "al_item L dvd a" "\<forall>x \<in> {a..<a + node_size L h}. nm_items m x = None"
    using assms(3) by (simp_all add: fresh_block_def)
  have item: "mem_item L (new_node L h v a) i = a + c_nNodeSize L + i * sz_item L" if "i < h - 1" for i
    using that by (auto simp: mem_item_def new_node_def)
  have "map (\<lambda>i. nm_items ?m (mem_item L (new_node L h v a) i)) [0..<h - 1] = replicate (h - 1) (Some 0)"
    using item L(1) by (intro nth_equalityI) (auto simp: construct_items_nth)
  moreover have "mn_nHeight (new_node L h v a) = h" "mn_value (new_node L h v a) = v" "mn_pNext (new_node L h v a) = 0"
    "mn_nUnlink (new_node L h v a) = of_nat h" by (simp_all add: new_node_def)
  moreover have "node_ctor h v = \<lparr>sn_value = Some v, sn_pNext = 0, sn_nHeight = h, sn_arrNext = replicate (h - 1) 0,
      sn_nUnlink = of_nat h\<rparr>"
    using assms(2) by (cases "h = 1") (simp_all add: node_ctor_def Let_def)
  ultimately have read: "read_node L a ?m = Some (node_ctor h v)"
    by (simp add: read_node_def those_replicate)
  have inside: "a + sz_node L \<le> mem_item L (new_node L h v a) i" "mem_item L (new_node L h v a) i + sz_item L \<le> a + node_size L h"
    "al_item L dvd mem_item L (new_node L h v a) i" if i: "i < h - 1" for i
  proof -
    show "a + sz_node L \<le> mem_item L (new_node L h v a) i" using item [OF i] pad(1) by simp
    have "Suc i * sz_item L \<le> (h - 1) * sz_item L" using i by (intro mult_le_mono1) simp
    then show "mem_item L (new_node L h v a) i + sz_item L \<le> a + node_size L h" using item [OF i] by (simp add: node_size_def)
    show "al_item L dvd mem_item L (new_node L h v a) i"
      unfolding item [OF i] using a(4) L(2) dvd_trans [OF L(2) pad(2)] by simp
  qed
  have rest: "?M |` (- {a..<a + node_size L h}) = nm_items m"
    using a(5) L(1) by (intro items_restrict) (simp_all add: node_size_def)
  have rest1: "nm_items m |` (- {a..<a + sz_node L}) = nm_items m" if "h = 1"
    using a(5) that pad(1) by (intro ext) (auto simp: restrict_map_def node_size_def)
  have "node_alloc_Delete L a ?m = Some m"
    using a(1-3) assms(2) rest rest1
    by (auto simp: node_alloc_Delete_def free_space_def mem_deallocate_def new_node_def new_block_def fun_upd_idem)
  then show ?thesis using node_alloc_New_eq [OF assms, of v] read inside by auto
qed

lemma node_memory_roundtrip_witness:
  "let L = \<lparr>sz_node = 44, sz_item = 8, al_node = 8, al_item = 8\<rparr>; m = \<lparr>nm_blocks = Map.empty, nm_nodes = Map.empty, nm_items = Map.empty\<rparr> in
   \<exists>m'. node_alloc_New L 5 42 64 m = Some m' \<and> read_node L 64 m' = Some (node_ctor 5 42) \<and> node_alloc_Delete L 64 m' = Some m"
proof -
  let ?L = "\<lparr>sz_node = 44, sz_item = 8, al_node = 8, al_item = 8\<rparr>"
  let ?m = "\<lparr>nm_blocks = Map.empty, nm_nodes = Map.empty, nm_items = Map.empty\<rparr>"
  have "layout_ok ?L" "fresh_block ?L (node_size ?L 5) 64 ?m" by (simp_all add: layout_ok_def fresh_block_def)
  from node_memory_roundtrip [OF this(1) _ this(2), of 42] show ?thesis by (auto simp: Let_def)
qed

text \<open>C35: The builder of the intrusive set allocates one item less than the tower is high, and \<open>dispose_tower\<close> hands back as many items as
  it is high: for every node with a tower this destroys an item that was never constructed, or breaks the contract of the allocator.\<close>

theorem dispose_tower_mismatch:
  assumes "nm_nodes m p = Some n" and "1 < h" and "a \<noteq> 0" and "nm_blocks m a = None"
  shows "\<exists>m'. builder_make_tower L p h a m = Some m' \<and> builder_dispose_tower L p m' = None"
proof -
  let ?m = "m\<lparr>nm_blocks := (nm_blocks m)(a \<mapsto> (Items, h - 1)),
      nm_nodes := (nm_nodes m)(p \<mapsto> n\<lparr>mn_arrNext := a, mn_nHeight := h, mn_nUnlink := of_nat h\<rparr>),
      nm_items := construct_items (sz_item L) a (h - 1) (nm_items m)\<rparr>"
  have "builder_make_tower L p h a m = Some ?m"
    using assms by (simp add: builder_make_tower_def tower_NewArray_def mem_allocate_def mem_make_tower_def)
  moreover have "builder_dispose_tower L p ?m = None"
    using assms(2) by (simp add: builder_dispose_tower_def mem_release_tower_def Let_def tower_Delete_wrong)
  ultimately show ?thesis by blast
qed

lemma dispose_tower_mismatch_witness:
  "let L = \<lparr>sz_node = 44, sz_item = 8, al_node = 8, al_item = 8\<rparr>;
       m = \<lparr>nm_blocks = Map.empty, nm_nodes = [16 \<mapsto> mem_node_ctor 42], nm_items = Map.empty\<rparr> in
   \<exists>m'. builder_make_tower L 16 3 64 m = Some m' \<and> builder_dispose_tower L 16 m' = None"
  unfolding Let_def by (rule dispose_tower_mismatch) simp_all

end
