(* ===== verification/Bit_Algorithms.thy ===== *)
theory Bit_Algorithms
  imports Cds_Base
begin

text \<open>
  The bit algorithms of libcds: the rest of \<^verbatim>\<open>cds/details/bitop_generic.h\<close>, the three algorithms for
  reversing the bits of a word of \<^verbatim>\<open>cds/algo/bit_reversal.h\<close>, and the binary logarithms and powers of two of
  \<^verbatim>\<open>cds/algo/int_algo.h\<close>. \<open>size_t\<close> has 64 bits. A shift by the width of the word or more, which C++
  leaves undefined, is \<open>None\<close>.
\<close>

subsection \<open>Powers of two, most and least significant bits\<close>

definition isPow2_32 :: "32 word \<Rightarrow> bool" where
  "isPow2_32 x \<longleftrightarrow> and x (x - 1) = 0 \<and> x \<noteq> 0"

definition isPow2_64 :: "64 word \<Rightarrow> bool" where
  "isPow2_64 x \<longleftrightarrow> and x (x - 1) = 0 \<and> x \<noteq> 0"

definition msb64 :: "64 word \<Rightarrow> int" where
  "msb64 x =
     (let h = ucast (drop_bit 32 x) :: 32 word in
      if h \<noteq> 0 then msb32 h + 32 else msb32 (ucast x))"

definition msb64nz :: "64 word \<Rightarrow> int" where "msb64nz x = msb64 x - 1"
definition lsb32nz :: "32 word \<Rightarrow> int" where "lsb32nz x = lsb32 x - 1"

definition lsb64 :: "64 word \<Rightarrow> int" where
  "lsb64 x =
     (if x = 0 then 0
      else if and x 0xffffffff \<noteq> 0 then lsb32 (ucast x)
      else lsb32 (ucast (drop_bit 32 x)) + 32)"

definition lsb64nz :: "64 word \<Rightarrow> int" where "lsb64nz x = lsb64 x - 1"

subsection \<open>Reversing the bits\<close>

definition rbo32 :: "32 word \<Rightarrow> 32 word" where
  "rbo32 x =
     (let x = or (and (drop_bit 1 x) 0x55555555) (push_bit 1 (and x 0x55555555));
          x = or (and (drop_bit 2 x) 0x33333333) (push_bit 2 (and x 0x33333333));
          x = or (and (drop_bit 4 x) 0x0F0F0F0F) (push_bit 4 (and x 0x0F0F0F0F));
          x = or (and (drop_bit 8 x) 0x00FF00FF) (push_bit 8 (and x 0x00FF00FF))
      in or (drop_bit 16 x) (push_bit 16 x))"

definition rbo64 :: "64 word \<Rightarrow> 64 word" where
  "rbo64 x = or (push_bit 32 (ucast (rbo32 (ucast x)))) (ucast (rbo32 (ucast (drop_bit 32 x))))"

text \<open>\<open>swar\<close>.\<close>

definition swar32 :: "32 word \<Rightarrow> 32 word" where
  "swar32 x =
     (let x = or (drop_bit 1 (and x 0xaaaaaaaa)) (push_bit 1 (and x 0x55555555));
          x = or (drop_bit 2 (and x 0xcccccccc)) (push_bit 2 (and x 0x33333333));
          x = or (drop_bit 4 (and x 0xf0f0f0f0)) (push_bit 4 (and x 0x0f0f0f0f));
          x = or (drop_bit 8 (and x 0xff00ff00)) (push_bit 8 (and x 0x00ff00ff))
      in or (drop_bit 16 x) (push_bit 16 x))"

definition swar64 :: "64 word \<Rightarrow> 64 word" where
  "swar64 x = or (push_bit 32 (ucast (swar32 (ucast x)))) (ucast (swar32 (ucast (drop_bit 32 x))))"

text \<open>\<open>lookup\<close>.\<close>

definition lookup_table :: "8 word list" where
  "lookup_table = [
     0x00, 0x80, 0x40, 0xC0, 0x20, 0xA0, 0x60, 0xE0, 0x10, 0x90, 0x50, 0xD0, 0x30, 0xB0, 0x70, 0xF0,
     0x08, 0x88, 0x48, 0xC8, 0x28, 0xA8, 0x68, 0xE8, 0x18, 0x98, 0x58, 0xD8, 0x38, 0xB8, 0x78, 0xF8,
     0x04, 0x84, 0x44, 0xC4, 0x24, 0xA4, 0x64, 0xE4, 0x14, 0x94, 0x54, 0xD4, 0x34, 0xB4, 0x74, 0xF4,
     0x0C, 0x8C, 0x4C, 0xCC, 0x2C, 0xAC, 0x6C, 0xEC, 0x1C, 0x9C, 0x5C, 0xDC, 0x3C, 0xBC, 0x7C, 0xFC,
     0x02, 0x82, 0x42, 0xC2, 0x22, 0xA2, 0x62, 0xE2, 0x12, 0x92, 0x52, 0xD2, 0x32, 0xB2, 0x72, 0xF2,
     0x0A, 0x8A, 0x4A, 0xCA, 0x2A, 0xAA, 0x6A, 0xEA, 0x1A, 0x9A, 0x5A, 0xDA, 0x3A, 0xBA, 0x7A, 0xFA,
     0x06, 0x86, 0x46, 0xC6, 0x26, 0xA6, 0x66, 0xE6, 0x16, 0x96, 0x56, 0xD6, 0x36, 0xB6, 0x76, 0xF6,
     0x0E, 0x8E, 0x4E, 0xCE, 0x2E, 0xAE, 0x6E, 0xEE, 0x1E, 0x9E, 0x5E, 0xDE, 0x3E, 0xBE, 0x7E, 0xFE,
     0x01, 0x81, 0x41, 0xC1, 0x21, 0xA1, 0x61, 0xE1, 0x11, 0x91, 0x51, 0xD1, 0x31, 0xB1, 0x71, 0xF1,
     0x09, 0x89, 0x49, 0xC9, 0x29, 0xA9, 0x69, 0xE9, 0x19, 0x99, 0x59, 0xD9, 0x39, 0xB9, 0x79, 0xF9,
     0x05, 0x85, 0x45, 0xC5, 0x25, 0xA5, 0x65, 0xE5, 0x15, 0x95, 0x55, 0xD5, 0x35, 0xB5, 0x75, 0xF5,
     0x0D, 0x8D, 0x4D, 0xCD, 0x2D, 0xAD, 0x6D, 0xED, 0x1D, 0x9D, 0x5D, 0xDD, 0x3D, 0xBD, 0x7D, 0xFD,
     0x03, 0x83, 0x43, 0xC3, 0x23, 0xA3, 0x63, 0xE3, 0x13, 0x93, 0x53, 0xD3, 0x33, 0xB3, 0x73, 0xF3,
     0x0B, 0x8B, 0x4B, 0xCB, 0x2B, 0xAB, 0x6B, 0xEB, 0x1B, 0x9B, 0x5B, 0xDB, 0x3B, 0xBB, 0x7B, 0xFB,
     0x07, 0x87, 0x47, 0xC7, 0x27, 0xA7, 0x67, 0xE7, 0x17, 0x97, 0x57, 0xD7, 0x37, 0xB7, 0x77, 0xF7,
     0x0F, 0x8F, 0x4F, 0xCF, 0x2F, 0xAF, 0x6F, 0xEF, 0x1F, 0x9F, 0x5F, 0xDF, 0x3F, 0xBF, 0x7F, 0xFF]"

definition lookup_byte :: "32 word \<Rightarrow> 8 word" where
  "lookup_byte i = lookup_table ! unat i"

definition lookup32 :: "32 word \<Rightarrow> 32 word" where
  "lookup32 x =
     or (or (or (push_bit 24 (ucast (lookup_byte (and x 0xff))))
                (push_bit 16 (ucast (lookup_byte (and (drop_bit 8 x) 0xff)))))
            (push_bit 8 (ucast (lookup_byte (and (drop_bit 16 x) 0xff)))))
        (ucast (lookup_byte (and (drop_bit 24 x) 0xff)))"

definition lookup64 :: "64 word \<Rightarrow> 64 word" where
  "lookup64 x = or (push_bit 32 (ucast (lookup32 (ucast x)))) (ucast (lookup32 (ucast (drop_bit 32 x))))"

text \<open>\<open>muldiv\<close>: one byte by multiplication and by multiplication and modulus, and the words made of them;
  the operator of a 64-bit build is the second.\<close>

definition muldiv32_byte :: "8 word \<Rightarrow> 8 word" where
  "muldiv32_byte b =
     ucast (drop_bit 16 ((or (and (ucast b * 0x0802) 0x22110) (and (ucast b * 0x8020) 0x88440) :: 64 word) * 0x10101))"

definition muldiv64_byte :: "8 word \<Rightarrow> 8 word" where
  "muldiv64_byte b = ucast ((and (ucast b * 0x0202020202) 0x010884422010 :: 64 word) mod 1023)"

definition muldiv_word32 :: "(8 word \<Rightarrow> 8 word) \<Rightarrow> 32 word \<Rightarrow> 32 word" where
  "muldiv_word32 f x =
     or (or (or (ucast (f (ucast (drop_bit 24 x)))) (push_bit 8 (ucast (f (ucast (drop_bit 16 x))))))
            (push_bit 16 (ucast (f (ucast (drop_bit 8 x))))))
        (push_bit 24 (ucast (f (ucast x))))"

definition muldiv_word64 :: "(8 word \<Rightarrow> 8 word) \<Rightarrow> 64 word \<Rightarrow> 64 word" where
  "muldiv_word64 f x =
     or (or (or (or (or (or (or (ucast (f (ucast (drop_bit 56 x)))) (push_bit 8 (ucast (f (ucast (drop_bit 48 x))))))
                            (push_bit 16 (ucast (f (ucast (drop_bit 40 x))))))
                        (push_bit 24 (ucast (f (ucast (drop_bit 32 x))))))
                    (push_bit 32 (ucast (f (ucast (drop_bit 24 x))))))
                (push_bit 40 (ucast (f (ucast (drop_bit 16 x))))))
            (push_bit 48 (ucast (f (ucast (drop_bit 8 x))))))
        (push_bit 56 (ucast (f (ucast x))))"

definition muldiv32_32 :: "32 word \<Rightarrow> 32 word" where "muldiv32_32 = muldiv_word32 muldiv32_byte"
definition muldiv32_64 :: "64 word \<Rightarrow> 64 word" where "muldiv32_64 = muldiv_word64 muldiv32_byte"
definition muldiv64_32 :: "32 word \<Rightarrow> 32 word" where "muldiv64_32 = muldiv_word32 muldiv64_byte"
definition muldiv64_64 :: "64 word \<Rightarrow> 64 word" where "muldiv64_64 = muldiv_word64 muldiv64_byte"

subsection \<open>Complementing a bit; xor-shift random numbers\<close>

text \<open>The new value of the argument and whether the bit was set.\<close>

definition complement32 :: "32 word \<Rightarrow> nat \<Rightarrow> (bool \<times> 32 word) option" where
  "complement32 arg nBit =
     (if nBit < 32 then Some (and arg (push_bit nBit 1) \<noteq> 0, xor arg (push_bit nBit 1)) else None)"

definition complement64 :: "64 word \<Rightarrow> nat \<Rightarrow> (bool \<times> 64 word) option" where
  "complement64 arg nBit =
     (if nBit < 64 then Some (and arg (push_bit nBit 1) \<noteq> 0, xor arg (push_bit nBit 1)) else None)"

text \<open>\<open>r1\<close> and \<open>r2\<close> are what the two calls of \<open>std::rand\<close> return.\<close>

definition RandXorShift32 :: "32 word \<Rightarrow> 32 word \<Rightarrow> 32 word \<Rightarrow> 32 word" where
  "RandXorShift32 r1 r2 x =
     (let x = (if x = 0 then push_bit 16 (r1 + 1) + r2 + 1 else x);
          x = xor x (push_bit 13 x);
          x = xor x (drop_bit 15 x)
      in xor x (push_bit 5 x))"

definition RandXorShift64 :: "64 word \<Rightarrow> 64 word" where
  "RandXorShift64 x =
     (let x = (if x = 0 then 88172645463325252 else x);
          x = xor x (push_bit 13 x);
          x = xor x (drop_bit 7 x)
      in xor x (push_bit 17 x))"

subsection \<open>Logarithms\<close>

definition log2floor :: "64 word \<Rightarrow> nat" where
  "log2floor n = (if n \<noteq> 0 then nat (msb64nz n) else 0)"

definition shl64 :: "64 word \<Rightarrow> nat \<Rightarrow> 64 word option" where
  "shl64 x k = (if k < 64 then Some (push_bit k x) else None)"

definition log2ceil :: "64 word \<Rightarrow> nat" where
  "log2ceil n = (let i = log2floor n in if push_bit i 1 < n then i + 1 else i)"

definition floor2 :: "64 word \<Rightarrow> 64 word option" where "floor2 n = shl64 1 (log2floor n)"
definition ceil2 :: "64 word \<Rightarrow> 64 word option" where "ceil2 n = shl64 1 (log2ceil n)"
definition is_power2 :: "64 word \<Rightarrow> bool" where "is_power2 n \<longleftrightarrow> and n (n - 1) = 0 \<and> n \<noteq> 0"
definition log2 :: "64 word \<Rightarrow> nat" where "log2 n = (if is_power2 n then log2floor n else 0)"

subsection \<open>The bits of a reversed word\<close>

lemma upt32: "[0..<32] = [0,1,2,3,4,5,6,7,8,9,10,11,12,13,14,15,16,17,18,19,20,21,22,23,24,25,26,27,28,29,30,31]"
  by code_simp

lemma all32: "(\<forall>i < 32 :: nat. P i) \<longleftrightarrow> list_all P [0,1,2,3,4,5,6,7,8,9,10,11,12,13,14,15,16,17,18,19,20,21,22,23,24,25,26,27,28,29,30,31]"
  unfolding upt32 [symmetric] by (auto simp: list_all_iff)

lemma bit_times_2: "bit (x * 2 :: 32 word) n \<longleftrightarrow> n \<noteq> 0 \<and> n < 32 \<and> bit x (n - 1)"
  using bit_double_iff [of x n] by (auto simp: mult.commute)

lemma bit_beyond: "32 \<le> n \<Longrightarrow> \<not> bit (x :: 32 word) n"
  using bit_imp_le_length [of x n] by auto

lemma swap_bits:
  fixes x :: "32 word"
  shows "i < 32 \<Longrightarrow> bit (or (and (drop_bit 1 x) 0x55555555) (push_bit 1 (and x 0x55555555))) i = bit x (if even i then i + 1 else i - 1)"
    "i < 32 \<Longrightarrow> bit (or (and (drop_bit 2 x) 0x33333333) (push_bit 2 (and x 0x33333333))) i = bit x (if even (i div 2) then i + 2 else i - 2)"
    "i < 32 \<Longrightarrow> bit (or (and (drop_bit 4 x) 0x0F0F0F0F) (push_bit 4 (and x 0x0F0F0F0F))) i = bit x (if even (i div 4) then i + 4 else i - 4)"
    "i < 32 \<Longrightarrow> bit (or (and (drop_bit 8 x) 0x00FF00FF) (push_bit 8 (and x 0x00FF00FF))) i = bit x (if even (i div 8) then i + 8 else i - 8)"
    "i < 32 \<Longrightarrow> bit (or (drop_bit 16 x) (push_bit 16 x)) i = bit x (if even (i div 16) then i + 16 else i - 16)"
proof -
  have "\<forall>i<32. bit (or (and (drop_bit 1 x) 0x55555555) (push_bit 1 (and x 0x55555555))) i = bit x (if even i then i + 1 else i - 1)"
    unfolding all32 by (simp add: bit_simps bit_times_2)
  then show "i < 32 \<Longrightarrow> bit (or (and (drop_bit 1 x) 0x55555555) (push_bit 1 (and x 0x55555555))) i = bit x (if even i then i + 1 else i - 1)" by blast
  have "\<forall>i<32. bit (or (and (drop_bit 2 x) 0x33333333) (push_bit 2 (and x 0x33333333))) i = bit x (if even (i div 2) then i + 2 else i - 2)"
    unfolding all32 by (simp add: bit_simps)
  then show "i < 32 \<Longrightarrow> bit (or (and (drop_bit 2 x) 0x33333333) (push_bit 2 (and x 0x33333333))) i = bit x (if even (i div 2) then i + 2 else i - 2)" by blast
  have "\<forall>i<32. bit (or (and (drop_bit 4 x) 0x0F0F0F0F) (push_bit 4 (and x 0x0F0F0F0F))) i = bit x (if even (i div 4) then i + 4 else i - 4)"
    unfolding all32 by (simp add: bit_simps)
  then show "i < 32 \<Longrightarrow> bit (or (and (drop_bit 4 x) 0x0F0F0F0F) (push_bit 4 (and x 0x0F0F0F0F))) i = bit x (if even (i div 4) then i + 4 else i - 4)" by blast
  have "\<forall>i<32. bit (or (and (drop_bit 8 x) 0x00FF00FF) (push_bit 8 (and x 0x00FF00FF))) i = bit x (if even (i div 8) then i + 8 else i - 8)"
    unfolding all32 by (simp add: bit_simps)
  then show "i < 32 \<Longrightarrow> bit (or (and (drop_bit 8 x) 0x00FF00FF) (push_bit 8 (and x 0x00FF00FF))) i = bit x (if even (i div 8) then i + 8 else i - 8)" by blast
  have "\<forall>i<32. bit (or (drop_bit 16 x) (push_bit 16 x)) i = bit x (if even (i div 16) then i + 16 else i - 16)"
    unfolding all32 by (simp add: bit_simps bit_beyond)
  then show "i < 32 \<Longrightarrow> bit (or (drop_bit 16 x) (push_bit 16 x)) i = bit x (if even (i div 16) then i + 16 else i - 16)" by blast
qed

lemma rbo32_bit:
  assumes "i < 32"
  shows "bit (rbo32 x) i = bit x (31 - i)"
proof -
  define x1 where "x1 = or (and (drop_bit 1 x) 0x55555555) (push_bit 1 (and x 0x55555555))"
  define x2 where "x2 = or (and (drop_bit 2 x1) 0x33333333) (push_bit 2 (and x1 0x33333333))"
  define x3 where "x3 = or (and (drop_bit 4 x2) 0x0F0F0F0F) (push_bit 4 (and x2 0x0F0F0F0F))"
  define x4 where "x4 = or (and (drop_bit 8 x3) 0x00FF00FF) (push_bit 8 (and x3 0x00FF00FF))"
  define x5 where "x5 = or (drop_bit 16 x4) (push_bit 16 x4)"
  have "rbo32 x = x5" unfolding x5_def x4_def x3_def x2_def x1_def rbo32_def Let_def by (rule refl)
  moreover note swap_bits(1) [of _ x, folded x1_def] swap_bits(2) [of _ x1, folded x2_def]
    swap_bits(3) [of _ x2, folded x3_def] swap_bits(4) [of _ x3, folded x4_def] swap_bits(5) [of _ x4, folded x5_def]
  ultimately have "\<forall>i<32. bit (rbo32 x) i = bit x (31 - i)"
    unfolding all32 by (simp flip: numeral_2_eq_2)
  with assms show ?thesis by blast
qed

lemma swar_steps:
  fixes x :: "32 word"
  shows "drop_bit 1 (and x 0xaaaaaaaa) = and (drop_bit 1 x) 0x55555555"
   "drop_bit 2 (and x 0xcccccccc) = and (drop_bit 2 x) 0x33333333"
   "drop_bit 4 (and x 0xf0f0f0f0) = and (drop_bit 4 x) 0x0f0f0f0f"
   "drop_bit 8 (and x 0xff00ff00) = and (drop_bit 8 x) 0x00ff00ff"
  by (simp_all add: drop_bit_and)

lemma swar32_rbo: "swar32 = rbo32"
  by (rule ext) (simp only: swar32_def rbo32_def swar_steps)

lemma byte_all: "P (b :: 8 word)" if "\<forall>b \<in> set (map word_of_nat [0..<256]). P b"
proof -
  have "b = word_of_nat (unat b)" "unat b < 256" using unsigned_less [of b] by simp_all
  then have "b \<in> set (map word_of_nat [0..<256])" by (metis atLeast0LessThan image_eqI lessThan_iff set_map set_upt)
  with that show ?thesis by blast
qed

lemma muldiv32_byte_eq: "muldiv32_byte b = muldiv64_byte b"
  by (rule byte_all) code_simp

lemma lookup_table_eq: "lookup_table ! unat b = muldiv64_byte b"
  by (rule byte_all [of "\<lambda>b. lookup_table ! unat b = muldiv64_byte b"]) code_simp

lemma muldiv64_byte_bit: "i < 8 \<Longrightarrow> bit (muldiv64_byte b) i = bit b (7 - i)"
proof -
  have "list_all (\<lambda>i. bit (muldiv64_byte b) i = bit b (7 - i)) [0..<8]"
    by (rule byte_all [of "\<lambda>b. list_all (\<lambda>i. bit (muldiv64_byte b) i = bit b (7 - i)) [0..<8]"]) code_simp
  then show "i < 8 \<Longrightarrow> bit (muldiv64_byte b) i = bit b (7 - i)" by (auto simp: list_all_iff)
qed

lemma byte_bits:
  "bit (muldiv64_byte b) n \<longleftrightarrow> n < 8 \<and> bit b (7 - n)"
  using muldiv64_byte_bit [of n b] bit_imp_le_length [of "muldiv64_byte b" n] by auto

lemma muldiv_word32_bit: "i < 32 \<Longrightarrow> bit (muldiv_word32 muldiv64_byte x) i = bit x (31 - i)"
proof -
  have "\<forall>i<32. bit (muldiv_word32 muldiv64_byte x) i = bit x (31 - i)"
    unfolding all32 by (simp add: muldiv_word32_def bit_simps byte_bits)
  then show "i < 32 \<Longrightarrow> bit (muldiv_word32 muldiv64_byte x) i = bit x (31 - i)" by blast
qed

lemma lookup_byte_eq: "lookup_byte (and x 0xff) = muldiv64_byte (ucast x)"
proof -
  have "unat (and x 0xff) = unat (ucast x :: 8 word)"
    by (simp add: unsigned_ucast_eq take_bit_eq_mask unsigned_and_eq mask_eq_exp_minus_1 flip: unsigned_take_bit_eq)
  then show ?thesis by (simp add: lookup_byte_def lookup_table_eq)
qed

lemma lookup32_eq: "lookup32 x = muldiv_word32 muldiv64_byte x"
  unfolding lookup32_def muldiv_word32_def lookup_byte_eq by (simp add: or.commute or.left_commute or.assoc)

lemma word32_eqI: "(\<And>i. i < 32 \<Longrightarrow> bit x i = bit y i) \<Longrightarrow> x = (y :: 32 word)"
  by (rule bit_word_eqI) simp

lemma muldiv_rbo: "muldiv_word32 muldiv64_byte x = rbo32 x"
  by (rule word32_eqI) (simp add: muldiv_word32_bit rbo32_bit)

lemma rbo64_bit: "bit (rbo64 x) i \<longleftrightarrow> i < 64 \<and> bit x (63 - i)"
proof (cases "i < 64")
  case True
  then show ?thesis
    by (cases "i < 32") (auto simp: rbo64_def bit_simps rbo32_bit bit_beyond)
qed (use bit_imp_le_length [of "rbo64 x" i] in auto)

lemma upt64: "[0..<64] = [0,1,2,3,4,5,6,7,8,9,10,11,12,13,14,15,16,17,18,19,20,21,22,23,24,25,26,27,28,29,30,31,
    32,33,34,35,36,37,38,39,40,41,42,43,44,45,46,47,48,49,50,51,52,53,54,55,56,57,58,59,60,61,62,63]"
  by code_simp

lemma muldiv_word64_bit: "i < 64 \<Longrightarrow> bit (muldiv_word64 muldiv64_byte x) i = bit x (63 - i)"
proof -
  have "list_all (\<lambda>i. bit (muldiv_word64 muldiv64_byte x) i = bit x (63 - i)) [0..<64]"
    unfolding upt64 by (simp add: muldiv_word64_def bit_simps byte_bits)
  then show "i < 64 \<Longrightarrow> bit (muldiv_word64 muldiv64_byte x) i = bit x (63 - i)" by (simp add: list_all_iff)
qed

lemma muldiv_rbo64: "muldiv_word64 muldiv64_byte x = rbo64 x"
  by (rule bit_word_eqI) (simp add: muldiv_word64_bit rbo64_bit)

lemma reversals:
  "swar32 = rbo32" "lookup32 = rbo32" "muldiv32_32 = rbo32" "muldiv64_32 = rbo32"
  "swar64 = rbo64" "lookup64 = rbo64" "muldiv32_64 = rbo64" "muldiv64_64 = rbo64"
proof -
  have m: "muldiv32_byte = muldiv64_byte" by (rule ext) (rule muldiv32_byte_eq)
  show 1: "swar32 = rbo32" "lookup32 = rbo32" "muldiv32_32 = rbo32" "muldiv64_32 = rbo32"
    by (simp_all add: swar32_rbo fun_eq_iff lookup32_eq muldiv_rbo muldiv32_32_def muldiv64_32_def m)
  show "swar64 = rbo64" "lookup64 = rbo64" by (simp_all add: fun_eq_iff swar64_def lookup64_def rbo64_def 1)
  show "muldiv32_64 = rbo64" "muldiv64_64 = rbo64" by (simp_all add: fun_eq_iff muldiv32_64_def muldiv64_64_def m muldiv_rbo64)
qed

subsection \<open>Logarithms and powers of two\<close>

lemma msb64_spec:
  assumes "x \<noteq> 0"
  shows "\<exists>n. msb64 x = int n \<and> 0 < n \<and> n \<le> 64 \<and> 2 ^ (n - 1) \<le> unat x \<and> unat x < 2 ^ n"
proof -
  let ?h = "ucast (drop_bit 32 x) :: 32 word"
  have hi: "unat ?h = unat x div 2 ^ 32"
  proof -
    have lt: "unat x < 2 ^ 32 * 2 ^ 32" using unsigned_less [of x] by simp
    then have "unat x div 2 ^ 32 < 2 ^ 32" by (rule less_mult_imp_div_less)
    moreover have "unat ?h = take_bit 32 (unat (drop_bit 32 x))" by (simp only: unsigned_ucast_eq len_bit0 len_num1 num_double) simp
    moreover have "unat (drop_bit 32 x) = unat x div 2 ^ 32" 
      using lt unsigned_drop_bit_eq [where 'b = 64 and n = 32 and w = x and 'a = nat]
      by (simp add: drop_bit_eq_div take_bit_nat_eq_self)
    ultimately show ?thesis by (simp add: take_bit_nat_eq_self)
  qed
  show ?thesis
  proof (cases "?h = 0")
    case True
    then have "unat x div 2 ^ 32 = 0" using hi by simp
    then have small: "unat x < 2 ^ 32" by (simp add: div_eq_0_iff)
    then have lo: "unat (ucast x :: 32 word) = unat x" by (simp add: unsigned_ucast_eq take_bit_nat_eq_self)
    then have "(ucast x :: 32 word) \<noteq> 0" using assms by (metis unat_eq_0)
    from msb32_spec [OF this] True lo show ?thesis by (auto simp: msb64_def)
  next
    case False
    from msb32_spec [OF False] obtain n where n: "msb32 ?h = int n" "0 < n" "n \<le> 32" "2 ^ (n - 1) \<le> unat ?h" "unat ?h < 2 ^ n"
      by blast
    have "2 ^ (n + 32 - 1) \<le> unat x"
    proof -
      have "(2 :: nat) ^ (n + 32 - 1) = 2 ^ (n - 1) * 2 ^ 32" using n(2) by (cases n) (simp_all add: power_add)
      also have "\<dots> \<le> unat x div 2 ^ 32 * 2 ^ 32" using n(4) hi by simp
      also have "\<dots> \<le> unat x" by (rule div_times_less_eq_dividend)
      finally show ?thesis .
    qed
    moreover have "unat x < 2 ^ (n + 32)"
    proof -
      have "unat x div 2 ^ 32 < 2 ^ n" using n(5) hi by simp
      then show ?thesis by (simp add: power_add div_less_iff_less_mult)
    qed
    ultimately show ?thesis using False n by (intro exI [of _ "n + 32"]) (simp add: msb64_def)
  qed
qed

lemma log2floor_spec: "n \<noteq> 0 \<Longrightarrow> log2floor n < 64 \<and> 2 ^ log2floor n \<le> unat n \<and> unat n < 2 * 2 ^ log2floor n"
proof -
  assume n: "n \<noteq> 0"
  from msb64_spec [OF n] obtain k where k: "msb64 n = int k" "0 < k" "k \<le> 64" "2 ^ (k - 1) \<le> unat n" "unat n < 2 ^ k" by blast
  have "log2floor n = k - 1" using n k(1,2) by (simp add: log2floor_def msb64nz_def)
  with k show ?thesis by (simp flip: power_Suc)
qed

lemma unat_power: "k < 64 \<Longrightarrow> unat (push_bit k 1 :: 64 word) = 2 ^ k"
proof -
  assume "k < 64"
  then have "(2 :: nat) ^ k < 2 ^ 64" by (intro power_strict_increasing) simp_all
  then show ?thesis
    using unsigned_push_bit_eq [where 'b = 64 and n = k and w = "1 :: 64 word" and 'a = nat]
    by (simp add: push_bit_eq_mult take_bit_nat_eq_self \<open>k < 64\<close>)
qed

lemma pow2_iff:
  fixes n :: "64 word"
  assumes "n \<noteq> 0"
  shows "and n (n - 1) = 0 \<longleftrightarrow> unat n = 2 ^ log2floor n"
proof -
  let ?k = "log2floor n"
  note k = log2floor_spec [OF assms]
  have bitk: "bit (m :: 64 word) ?k" if "2 ^ ?k \<le> unat m" "unat m < 2 * 2 ^ ?k" for m
  proof -
    have "unat m div 2 ^ ?k = 1" using that by (intro div_nat_eqI) simp_all
    then have "bit (unat m) ?k" by (simp add: bit_iff_odd)
    then show ?thesis by (simp add: bit_unsigned_iff)
  qed
  have sub: "unat (n - 1) = unat n - 1" using assms by (simp add: unat_minus_one)
  show ?thesis
  proof
    assume z: "and n (n - 1) = 0"
    show "unat n = 2 ^ ?k"
    proof (rule ccontr)
      assume "unat n \<noteq> 2 ^ ?k"
      then have "bit (n - 1) ?k" using k sub by (intro bitk) auto
      moreover have "bit n ?k" using k by (intro bitk) auto
      ultimately have "bit (and n (n - 1)) ?k" by (simp add: bit_and_iff)
      with z show False by simp
    qed
  next
    assume e: "unat n = 2 ^ ?k"
    then have n: "n = push_bit ?k 1" using k unat_power [of ?k] by (metis word_unat_eq_iff)
    then have "n - 1 = mask ?k" by (metis mask_eq_exp_minus_1 push_bit_of_1)
    moreover have "and (push_bit ?k 1) (mask ?k) = (0 :: 64 word)"
      by (rule bit_word_eqI) (simp only: bit_and_iff bit_push_bit_iff bit_mask_iff bit_0_eq bot_apply, auto)
    ultimately show "and n (n - 1) = 0" using n by metis
  qed
qed

lemma power2_spec:
  assumes "n \<noteq> 0"
  shows "is_power2 n \<longleftrightarrow> (\<exists>k. unat n = 2 ^ k)" "is_power2 n \<Longrightarrow> unat n = 2 ^ log2 n"
proof -
  have i: "is_power2 n \<longleftrightarrow> unat n = 2 ^ log2floor n" using pow2_iff [OF assms] assms by (simp add: is_power2_def)
  have "unat n = 2 ^ log2floor n" if "unat n = 2 ^ k" for k
  proof -
    note l = log2floor_spec [OF assms]
    have "(2 :: nat) ^ log2floor n \<le> 2 ^ k" "(2 :: nat) ^ k < 2 ^ Suc (log2floor n)" using l that by simp_all
    then have "log2floor n = k" using power_le_imp_le_exp [of 2 "log2floor n" k] power_less_imp_less_exp [of "2 :: nat" k "Suc (log2floor n)"] by simp
    with that show ?thesis by simp
  qed
  with i show "is_power2 n \<longleftrightarrow> (\<exists>k. unat n = 2 ^ k)" by blast
  from i show "is_power2 n \<Longrightarrow> unat n = 2 ^ log2 n" by (simp add: log2_def)
qed

lemma floor2_spec: "n \<noteq> 0 \<Longrightarrow> \<exists>p. floor2 n = Some p \<and> unat p = 2 ^ log2floor n \<and> unat p \<le> unat n \<and> unat n < 2 * unat p"
  using log2floor_spec [of n] unat_power [of "log2floor n"] by (auto simp: floor2_def shl64_def)

lemma ceil2_spec:
  assumes "n \<noteq> 0"
  shows "if unat n \<le> 2 ^ 63 then \<exists>q k. ceil2 n = Some q \<and> unat q = 2 ^ k \<and> unat n \<le> unat q \<and> unat q < 2 * unat n
    else ceil2 n = None"
proof -
  let ?k = "log2floor n"
  note l = log2floor_spec [OF assms]
  have u: "unat (push_bit ?k 1 :: 64 word) = 2 ^ ?k" using unat_power l by blast
  have lt: "push_bit ?k 1 < n \<longleftrightarrow> 2 ^ ?k < unat n" using u by (simp add: word_less_nat_alt)
  show ?thesis
  proof (cases "2 ^ ?k < unat n")
    case True
    then have c: "ceil2 n = shl64 1 (Suc ?k)" using lt by (simp add: ceil2_def log2ceil_def Let_def)
    show ?thesis
    proof (cases "?k = 63")
      case k: True
      then have "\<not> unat n \<le> 2 ^ 63" using True by simp
      then show ?thesis using c k by (simp add: shl64_def)
    next
      case False
      then have k: "Suc ?k < 64" using l by simp
      then have "(2 :: nat) ^ Suc ?k \<le> 2 ^ 63" by (intro power_increasing) simp_all
      then have "unat n \<le> 2 ^ 63" using l by simp
      moreover have "unat (push_bit (Suc ?k) 1 :: 64 word) = 2 ^ Suc ?k" using unat_power [OF k] .
      moreover have "\<exists>j. 2 ^ Suc ?k = (2 :: nat) ^ j" by blast
      moreover have "unat n \<le> 2 ^ Suc ?k" "2 ^ Suc ?k < 2 * unat n" using l True by simp_all
      ultimately show ?thesis using c k l True by (auto simp: shl64_def simp del: power_Suc)
    qed
  next
    case False
    then have e: "unat n = 2 ^ ?k" using l by simp
    then have "ceil2 n = Some (push_bit ?k 1)" using lt l by (simp add: ceil2_def log2ceil_def Let_def shl64_def)
    moreover have "(2 :: nat) ^ ?k \<le> 2 ^ 63" using l by (intro power_increasing) simp_all
    ultimately show ?thesis using e u by (auto intro!: exI [of _ ?k])
  qed
qed

lemma complement32_spec:
  assumes "k < 32"
  shows "\<exists>y. complement32 x k = Some (bit x k, y) \<and> (\<forall>i. bit y i = (if i = k then \<not> bit x k else bit x i))"
proof -
  have "and x (push_bit k 1) \<noteq> 0 \<longleftrightarrow> bit x k"
  proof
    assume "bit x k"
    then have "bit (and x (push_bit k 1)) k" using assms by (simp add: bit_simps)
    then show "and x (push_bit k 1) \<noteq> 0" using assms unfolding bit_eq_iff by auto
  next
    assume "and x (push_bit k 1) \<noteq> 0"
    then obtain i where "bit (and x (push_bit k 1)) i" by (auto simp: bit_eq_iff)
    then show "bit x k" by (auto simp: bit_simps)
  qed
  then show ?thesis using assms by (auto simp: complement32_def bit_simps)
qed

subsection \<open>Properties\<close>

text \<open>C39: The three algorithms for reversing the bits of a word (\<open>swar\<close>, \<open>lookup\<close> and \<open>muldiv\<close> in both of its
  variants) and \<open>rbo32\<close> and \<open>rbo64\<close> compute the same function, and bit \<open>i\<close> of the result is bit \<open>31 - i\<close>, or
  \<open>63 - i\<close>, of the argument.\<close>

theorem bit_reversal_equal:
  "swar32 x = rbo32 x \<and> lookup32 x = rbo32 x \<and> muldiv32_32 x = rbo32 x \<and> muldiv64_32 x = rbo32 x \<and>
   swar64 y = rbo64 y \<and> lookup64 y = rbo64 y \<and> muldiv32_64 y = rbo64 y \<and> muldiv64_64 y = rbo64 y \<and>
   (\<forall>i. bit (rbo32 x) i = (i < 32 \<and> bit x (31 - i))) \<and> (\<forall>i. bit (rbo64 y) i = (i < 64 \<and> bit y (63 - i)))"
  using reversals rbo32_bit [of _ x] rbo64_bit [of y] bit_imp_le_length [of "rbo32 x"] by auto

text \<open>C40: For a positive number \<open>floor2\<close> is the largest power of two that is not above it; \<open>ceil2\<close> is the least
  that is not below it if that fits in 64 bits, and above \<open>2 ^ 63\<close> its shift is undefined; \<open>is_power2\<close> recognises
  the powers of two, and \<open>log2\<close> is their exponent.\<close>

theorem power2_rounding:
  assumes "n \<noteq> 0"
  shows "(\<exists>p. floor2 n = Some p \<and> unat p = 2 ^ log2floor n \<and> unat p \<le> unat n \<and> unat n < 2 * unat p) \<and>
    (if unat n \<le> 2 ^ 63 then \<exists>q k. ceil2 n = Some q \<and> unat q = 2 ^ k \<and> unat n \<le> unat q \<and> unat q < 2 * unat n
      else ceil2 n = None) \<and>
    (is_power2 n \<longleftrightarrow> (\<exists>k. unat n = 2 ^ k)) \<and> (is_power2 n \<longrightarrow> unat n = 2 ^ log2 n)"
  using floor2_spec [OF assms] ceil2_spec [OF assms] power2_spec [OF assms] by blast

theorem power2_rounding_witness:
  "\<exists>q k. ceil2 17 = Some q \<and> unat q = 2 ^ k \<and> 17 \<le> unat q \<and> unat q < 34"
  using power2_rounding [of 17] by simp
end
