(* ===== verification/Bit_Splitters.thy ===== *)
theory Bit_Splitters
  imports Prelude "HOL-Library.Monad_Syntax"
begin

text \<open>
  The splitters of \<^verbatim>\<open>src/deps/cds/cds/algo/split_bitstring.h\<close>, which cut sequences of bits from a byte string
  or from a number. The model has the little-endian branch, the one of the platforms the module is built for.

  A bit string is the list of its bytes; \<open>cur_\<close> is the index of the current byte, \<open>first_\<close> is 0 and \<open>last_\<close>
  the length. The result type \<open>UInt\<close> is a word of any length. An assertion that fails, a read past the
  string and a shift that C++ leaves undefined are \<open>None\<close>.
\<close>

subsection \<open>\<open>split_bitstring\<close>\<close>

definition c_nBitPerByte :: nat where "c_nBitPerByte = 8"

record split_bitstring =
  sb_bytes :: "8 word list"
  sb_cur :: nat
  sb_offset :: nat

definition sb_start :: "8 word list \<Rightarrow> split_bitstring" where
  "sb_start h = \<lparr>sb_bytes = h, sb_cur = 0, sb_offset = 0\<rparr>"

definition sb_start_at :: "8 word list \<Rightarrow> nat \<Rightarrow> split_bitstring" where
  "sb_start_at h nBitOffset =
     \<lparr>sb_bytes = h, sb_cur = nBitOffset div c_nBitPerByte, sb_offset = nBitOffset mod c_nBitPerByte\<rparr>"

definition sb_eos :: "split_bitstring \<Rightarrow> bool" where
  "sb_eos s \<longleftrightarrow> sb_cur s \<ge> length (sb_bytes s)"

partial_function (option) sb_cut_loop ::
  "nat \<Rightarrow> nat \<Rightarrow> 'u::len word \<Rightarrow> split_bitstring \<Rightarrow> ('u word \<times> split_bitstring) option" where
  "sb_cut_loop count n result s =
     (if n < count then
        (if sb_cur s < length (sb_bytes s) \<and> n < LENGTH('u) then
           let bits = (if count - n > c_nBitPerByte - sb_offset s then c_nBitPerByte - sb_offset s else count - n);
               result = or result (push_bit n (ucast (and (drop_bit (sb_offset s) (sb_bytes s ! sb_cur s)) (mask bits))));
               offset = sb_offset s + bits;
               s = (if offset = c_nBitPerByte then s\<lparr>sb_offset := 0, sb_cur := sb_cur s + 1\<rparr>
                    else s\<lparr>sb_offset := offset\<rparr>)
           in sb_cut_loop count (n + bits) result s
         else None)
      else Some (result, s))"

definition sb_cut :: "nat \<Rightarrow> split_bitstring \<Rightarrow> ('u::len word \<times> split_bitstring) option" where
  "sb_cut count s = (if sb_eos s then None else sb_cut_loop count 0 0 s)"

definition sb_safe_cut :: "nat \<Rightarrow> split_bitstring \<Rightarrow> ('u::len word \<times> split_bitstring) option" where
  "sb_safe_cut count s =
     (if sb_eos s then Some (0, s)
      else
        let rest = (length (sb_bytes s) - sb_cur s - 1) * c_nBitPerByte + (c_nBitPerByte - sb_offset s);
            count = (if rest < count then rest else count)
        in if count \<noteq> 0 then sb_cut count s else Some (0, s))"

definition sb_reset :: "split_bitstring \<Rightarrow> split_bitstring" where
  "sb_reset s = s\<lparr>sb_cur := 0, sb_offset := 0\<rparr>"

definition sb_source :: "split_bitstring \<Rightarrow> 8 word list" where "sb_source s = sb_bytes s"

definition sb_bit_offset :: "split_bitstring \<Rightarrow> nat" where
  "sb_bit_offset s = sb_offset s + sb_cur s * c_nBitPerByte"

definition sb_rest_count :: "split_bitstring \<Rightarrow> nat" where
  "sb_rest_count s = length (sb_bytes s) * c_nBitPerByte - sb_bit_offset s"

subsection \<open>\<open>byte_splitter\<close>\<close>

record byte_splitter =
  bs_bytes :: "8 word list"
  bs_cur :: nat

definition bs_is_correct :: "nat \<Rightarrow> bool" where "bs_is_correct count \<longleftrightarrow> count mod 8 = 0"

definition bs_eos :: "byte_splitter \<Rightarrow> bool" where "bs_eos s \<longleftrightarrow> bs_cur s \<ge> length (bs_bytes s)"

definition bs_start :: "8 word list \<Rightarrow> byte_splitter" where "bs_start h = \<lparr>bs_bytes = h, bs_cur = 0\<rparr>"

definition bs_start_at :: "8 word list \<Rightarrow> nat \<Rightarrow> byte_splitter option" where
  "bs_start_at h nBitOffset =
     (let s = \<lparr>bs_bytes = h, bs_cur = nBitOffset div c_nBitPerByte\<rparr> in
      if bs_is_correct nBitOffset \<and> \<not> bs_eos s then Some s else None)"

function bs_cut_loop :: "nat \<Rightarrow> nat \<Rightarrow> 'u::len word \<Rightarrow> byte_splitter \<Rightarrow> ('u word \<times> byte_splitter) option" where
  "bs_cut_loop count i result s =
     (if i < count then
        (if bs_cur s < length (bs_bytes s) \<and> i < LENGTH('u)
         then bs_cut_loop count (i + c_nBitPerByte) (or result (push_bit i (ucast (bs_bytes s ! bs_cur s))))
                (s\<lparr>bs_cur := bs_cur s + 1\<rparr>)
         else None)
      else Some (result, s))"
  by pat_completeness auto
termination
  by (relation "measure (\<lambda>(count, i, _). count - i)") (auto simp: c_nBitPerByte_def)

declare bs_cut_loop.simps [simp del]

definition bs_cut :: "nat \<Rightarrow> byte_splitter \<Rightarrow> ('u::len word \<times> byte_splitter) option" where
  "bs_cut count s = (if bs_eos s \<or> \<not> bs_is_correct count then None else bs_cut_loop count 0 0 s)"

definition bs_safe_cut :: "nat \<Rightarrow> byte_splitter \<Rightarrow> ('u::len word \<times> byte_splitter) option" where
  "bs_safe_cut count s =
     (if bs_eos s then Some (0, s)
      else
        let rest = (length (bs_bytes s) - bs_cur s - 1) * c_nBitPerByte;
            count = (if rest < count then rest else count)
        in if count \<noteq> 0 then bs_cut count s else Some (0, s))"

definition bs_reset :: "byte_splitter \<Rightarrow> byte_splitter" where "bs_reset s = s\<lparr>bs_cur := 0\<rparr>"
definition bs_source :: "byte_splitter \<Rightarrow> 8 word list" where "bs_source s = bs_bytes s"
definition bs_bit_offset :: "byte_splitter \<Rightarrow> nat" where "bs_bit_offset s = bs_cur s * c_nBitPerByte"

definition bs_rest_count :: "byte_splitter \<Rightarrow> nat" where
  "bs_rest_count s = length (bs_bytes s) * c_nBitPerByte - bs_bit_offset s"

subsection \<open>\<open>number_splitter\<close>\<close>

text \<open>The mask of \<open>cut\<close> is computed in \<^verbatim>\<open>int\<close>: \<open>(1 << count) - 1\<close> is undefined from 31 bits on.\<close>

record 'n number_splitter =
  ns_number :: 'n
  ns_shift :: nat

definition ns_is_correct :: "'u::len itself \<Rightarrow> nat \<Rightarrow> bool" where
  "ns_is_correct u count \<longleftrightarrow> count < LENGTH('u)"

definition ns_eos :: "'u::len word number_splitter \<Rightarrow> bool" where "ns_eos s \<longleftrightarrow> ns_shift s \<ge> LENGTH('u)"

definition ns_start :: "'u::len word \<Rightarrow> 'u word number_splitter" where "ns_start n = \<lparr>ns_number = n, ns_shift = 0\<rparr>"

definition ns_start_at :: "'u::len word \<Rightarrow> nat \<Rightarrow> 'u word number_splitter option" where
  "ns_start_at n initial_offset =
     (if initial_offset < LENGTH('u) then Some \<lparr>ns_number = n, ns_shift = initial_offset\<rparr> else None)"

definition int_mask :: "nat \<Rightarrow> int option" where
  "int_mask count = (if count < 31 then Some (push_bit count 1 - 1) else None)"

definition ns_cut :: "nat \<Rightarrow> 'u::len word number_splitter \<Rightarrow> ('u word \<times> 'u word number_splitter) option" where
  "ns_cut count s =
     (if ns_eos s \<or> \<not> ns_is_correct TYPE('u) count then None
      else do {
        m \<leftarrow> int_mask count;
        Some (and (drop_bit (ns_shift s) (ns_number s)) (word_of_int m), s\<lparr>ns_shift := ns_shift s + count\<rparr>)
      })"

definition ns_rest_count :: "'u::len word number_splitter \<Rightarrow> nat" where
  "ns_rest_count s = LENGTH('u) - ns_shift s"

definition ns_safe_cut :: "nat \<Rightarrow> 'u::len word number_splitter \<Rightarrow> ('u word \<times> 'u word number_splitter) option" where
  "ns_safe_cut count s =
     (if ns_eos s then Some (0, s)
      else
        let rest = ns_rest_count s;
            count = (if rest < count then rest else count)
        in if count \<noteq> 0 then ns_cut count s else Some (0, s))"

definition ns_reset :: "'u::len word number_splitter \<Rightarrow> 'u word number_splitter" where "ns_reset s = s\<lparr>ns_shift := 0\<rparr>"
definition ns_source :: "'u::len word number_splitter \<Rightarrow> 'u word" where "ns_source s = ns_number s"
definition ns_bit_offset :: "'u::len word number_splitter \<Rightarrow> nat" where "ns_bit_offset s = ns_shift s"

subsection \<open>What a cut returns\<close>

text \<open>Bit \<open>k\<close> of a byte string.\<close>

definition str_bit :: "8 word list \<Rightarrow> nat \<Rightarrow> bool" where
  "str_bit h k = bit (h ! (k div 8)) (k mod 8)"

lemma bit_or_piece:
  fixes w :: "'u::len word" and v :: "8 word"
  assumes "c + l \<le> 8"
  shows "bit (or w (push_bit n (ucast (and (drop_bit c v) (mask l))))) i \<longleftrightarrow>
    bit w i \<or> n \<le> i \<and> i < LENGTH('u) \<and> i - n < 8 \<and> i - n < l \<and> bit v (c + (i - n))"
  using assms by (simp add: bit_or_iff bit_push_bit_iff bit_ucast_iff bit_and_iff bit_drop_bit_eq bit_mask_iff) (use assms in linarith)

lemma sb_cut_loop_spec:
  fixes result :: "'u::len word"
  assumes "n \<le> count" "count \<le> LENGTH('u)" "sb_offset s < 8" "sb_bit_offset s = P + n"
    and "P + count \<le> 8 * length (sb_bytes s)" and "\<And>i. bit result i = (i < n \<and> str_bit (sb_bytes s) (P + i))"
  shows "\<exists>r s'. sb_cut_loop count n result s = Some (r, s') \<and> sb_bytes s' = sb_bytes s \<and> sb_offset s' < 8 \<and>
    sb_bit_offset s' = P + count \<and> (\<forall>i. bit (r :: 'u word) i = (i < count \<and> str_bit (sb_bytes s) (P + i)))"
  using assms
proof (induction "count - n" arbitrary: n result s rule: less_induct)
  case less
  show ?case
  proof (cases "n < count")
    case False
    with less.prems show ?thesis by (subst sb_cut_loop.simps) auto
  next
    case True
    let ?o = "sb_offset s" and ?b = "sb_bytes s ! sb_cur s"
    define bits where "bits = (if count - n > 8 - ?o then 8 - ?o else count - n)"
    define r where "r = or result (push_bit n (ucast (and (drop_bit ?o ?b) (mask bits))))"
    define s1 where "s1 = (if ?o + bits = 8 then s\<lparr>sb_offset := 0, sb_cur := sb_cur s + 1\<rparr> else s\<lparr>sb_offset := ?o + bits\<rparr>)"
    have pos: "?o + sb_cur s * 8 = P + n" using less.prems(4) by (simp add: sb_bit_offset_def c_nBitPerByte_def)
    have bits: "0 < bits" "?o + bits \<le> 8" "n + bits \<le> count" using True less.prems(3) by (auto simp: bits_def)
    have cur: "sb_cur s < length (sb_bytes s)" using pos True less.prems(5) by linarith
    have step: "sb_cut_loop count n result s = sb_cut_loop count (n + bits) r s1"
    proof -
      have c: "sb_cur s < length (sb_bytes s) \<and> n < LENGTH('u)" using True cur less.prems(2) by simp
      show ?thesis
        by (subst sb_cut_loop.simps) (simp only: True c if_True simp_thms Let_def c_nBitPerByte_def bits_def r_def s1_def)
    qed
    have str: "str_bit (sb_bytes s) (P + i) = bit ?b (?o + (i - n))" if "n \<le> i" "?o + (i - n) < 8" for i
    proof -
      have "P + i = (?o + (i - n)) + sb_cur s * 8" using pos that by linarith
      then show ?thesis using that(2) by (simp add: str_bit_def)
    qed
    have br: "bit r i = (bit result i \<or> n \<le> i \<and> i < LENGTH('u) \<and> i - n < 8 \<and> i - n < bits \<and> bit ?b (?o + (i - n)))" for i
      unfolding r_def by (rule bit_or_piece) (simp add: bits(2))
    have rb: "bit r i = (i < n + bits \<and> str_bit (sb_bytes s) (P + i))" for i
    proof (cases "n \<le> i \<and> i < n + bits")
      case True
      then have "?o + (i - n) < 8" "i < LENGTH('u)" "i - n < 8" "i - n < bits" "n \<le> i" "\<not> i < n"
        using bits less.prems(2) by linarith+
      with True str [of i] show ?thesis unfolding br less.prems(6) by simp
    next
      case False
      then have "\<not> (n \<le> i \<and> i - n < bits)" "i < n \<longleftrightarrow> i < n + bits" by linarith+
      then show ?thesis unfolding br less.prems(6) by blast
    qed
    have s1: "sb_bytes s1 = sb_bytes s" "sb_offset s1 < 8" "sb_bit_offset s1 = P + (n + bits)"
      using pos bits by (auto simp: s1_def sb_bit_offset_def c_nBitPerByte_def)
    have "count - (n + bits) < count - n" using True bits by linarith
    from less.hyps [OF this, of s1 r] show ?thesis
      unfolding step using bits s1 less.prems(2,5) rb by simp
  qed
qed

lemma sb_cut_spec:
  assumes "sb_offset s < 8" "\<not> sb_eos s" "count \<le> LENGTH('u)" "count \<le> sb_rest_count s"
  shows "\<exists>r s'. sb_cut count s = Some (r, s') \<and> sb_bytes s' = sb_bytes s \<and> sb_offset s' < 8 \<and>
    sb_bit_offset s' = sb_bit_offset s + count \<and>
    (\<forall>i. bit (r :: 'u::len word) i = (i < count \<and> str_bit (sb_bytes s) (sb_bit_offset s + i)))"
proof -
  have "sb_bit_offset s \<le> 8 * length (sb_bytes s)"
    using assms(1,2) by (simp add: sb_bit_offset_def c_nBitPerByte_def sb_eos_def)
  then have "sb_bit_offset s + count \<le> 8 * length (sb_bytes s)"
    using assms(4) by (simp add: sb_rest_count_def c_nBitPerByte_def)
  from sb_cut_loop_spec [OF _ assms(3,1) _ this, of 0 0] assms(2) show ?thesis by (simp add: sb_cut_def)
qed

lemma sb_safe_cut_spec:
  assumes "sb_offset s < 8" "sb_cur s = length (sb_bytes s) \<longrightarrow> sb_offset s = 0" "sb_cur s \<le> length (sb_bytes s)"
    and "min count (sb_rest_count s) \<le> LENGTH('u)"
  shows "\<exists>r s'. sb_safe_cut count s = Some (r, s') \<and> sb_bytes s' = sb_bytes s \<and> sb_offset s' < 8 \<and>
    sb_bit_offset s' = sb_bit_offset s + min count (sb_rest_count s) \<and>
    (\<forall>i. bit (r :: 'u::len word) i = (i < min count (sb_rest_count s) \<and> str_bit (sb_bytes s) (sb_bit_offset s + i)))"
proof (cases "sb_eos s")
  case True
  then have "sb_rest_count s = 0" using assms by (simp add: sb_eos_def sb_rest_count_def sb_bit_offset_def)
  with True assms(1) show ?thesis by (intro exI [of _ 0] exI [of _ s]) (simp add: sb_safe_cut_def)
next
  case False
  then have "(length (sb_bytes s) - sb_cur s - 1) * 8 + (8 - sb_offset s) = sb_rest_count s"
    using assms(1) by (simp add: sb_eos_def sb_rest_count_def sb_bit_offset_def c_nBitPerByte_def diff_mult_distrib)
  then have eq: "(sb_safe_cut count s :: ('u word \<times> split_bitstring) option) = (if min count (sb_rest_count s) \<noteq> 0 then sb_cut (min count (sb_rest_count s)) s else Some (0, s))"
    using False by (simp add: sb_safe_cut_def Let_def c_nBitPerByte_def min_def)
  show ?thesis
  proof (cases "min count (sb_rest_count s) = 0")
    case True
    with eq assms(1) show ?thesis by (intro exI [of _ 0] exI [of _ s]) simp
  next
    case nz: False
    with eq sb_cut_spec [OF assms(1) False assms(4)] show ?thesis by simp
  qed
qed


subsection \<open>A sequence of cuts\<close>

text \<open>A client that cuts pieces of the given sizes, one after another.\<close>

primrec sb_pieces :: "nat list \<Rightarrow> split_bitstring \<Rightarrow> ('u::len word list \<times> split_bitstring) option" where
  "sb_pieces [] s = Some ([], s)"
| "sb_pieces (c # cs) s =
     do { (w, s) \<leftarrow> sb_safe_cut c s; (ws, s) \<leftarrow> sb_pieces cs s; Some (w # ws, s) }"

definition piece_bits :: "nat list \<Rightarrow> 'u::len word list \<Rightarrow> bool list" where
  "piece_bits cs ws = concat (map (\<lambda>(c, w). map (bit w) [0..<c]) (zip cs ws))"

lemma piece_bits_Cons: "piece_bits (c # cs) (w # ws) = map (bit w) [0..<c] @ piece_bits cs ws"
  by (simp add: piece_bits_def)

lemma bits_append: "map f [a..<a + c] @ map f [a + c..<a + c + d] = map f [a..<a + (c + d)]"
  by (metis ab_semigroup_add_class.add_ac(1) le_add1 map_append upt_add_eq_append)

lemma sb_pieces_spec:
  assumes "sb_offset s < 8" "sb_bit_offset s + sum_list cs \<le> 8 * length (sb_bytes s)" "\<forall>c\<in>set cs. c \<le> LENGTH('u::len)"
  shows "\<exists>ws s'. sb_pieces cs s = Some (ws :: 'u word list, s') \<and> length ws = length cs \<and> sb_bytes s' = sb_bytes s \<and>
    sb_bit_offset s' = sb_bit_offset s + sum_list cs \<and>
    piece_bits cs ws = map (str_bit (sb_bytes s)) [sb_bit_offset s..<sb_bit_offset s + sum_list cs]"
  using assms
proof (induction cs arbitrary: s)
  case Nil
  then show ?case by (simp add: piece_bits_def)
next
  case (Cons c cs)
  have m: "min c (sb_rest_count s) = c"
    using Cons.prems(2) by (simp add: sb_rest_count_def c_nBitPerByte_def)
  have wf: "sb_cur s = length (sb_bytes s) \<longrightarrow> sb_offset s = 0" "sb_cur s \<le> length (sb_bytes s)"
    using Cons.prems(1,2) by (auto simp: sb_bit_offset_def c_nBitPerByte_def)
  have c: "min c (sb_rest_count s) \<le> LENGTH('u)" using Cons.prems(3) m by simp
  obtain w s1 where w: "sb_safe_cut c s = Some (w :: 'u word, s1)" "sb_bytes s1 = sb_bytes s" "sb_offset s1 < 8"
      "sb_bit_offset s1 = sb_bit_offset s + c" "\<And>i. bit w i = (i < c \<and> str_bit (sb_bytes s) (sb_bit_offset s + i))"
    using sb_safe_cut_spec [OF Cons.prems(1) wf c] unfolding m by blast
  obtain ws s2 where ws: "sb_pieces cs s1 = Some (ws :: 'u word list, s2)" "length ws = length cs" "sb_bytes s2 = sb_bytes s1"
      "sb_bit_offset s2 = sb_bit_offset s1 + sum_list cs"
      "piece_bits cs ws = map (str_bit (sb_bytes s1)) [sb_bit_offset s1..<sb_bit_offset s1 + sum_list cs]"
    using Cons.IH [OF w(3)] Cons.prems(2,3) w(2,4) by auto
  have "map (bit w) [0..<c] = map (str_bit (sb_bytes s)) [sb_bit_offset s..<sb_bit_offset s + c]"
    by (rule nth_equalityI) (simp_all add: w(5))
  then have "piece_bits (c # cs) (w # ws) = map (str_bit (sb_bytes s)) [sb_bit_offset s..<sb_bit_offset s + (c + sum_list cs)]"
    by (simp add: piece_bits_Cons ws(5) w(2,4) bits_append)
  with w ws show ?case by simp
qed



subsection \<open>The byte splitter\<close>

lemma bs_cut_loop_sb:
  assumes "8 dvd (count - i)" "i \<le> count"
  shows "map_option (\<lambda>(w, s). (w, bs_cur s)) (bs_cut_loop count i (r :: 'u::len word) \<lparr>bs_bytes = h, bs_cur = k\<rparr>) =
    map_option (\<lambda>(w, s). (w, sb_cur s)) (sb_cut_loop count i r \<lparr>sb_bytes = h, sb_cur = k, sb_offset = 0\<rparr>)"
  using assms
proof (induction "count - i" arbitrary: i r k rule: less_induct)
  case less
  show ?case
  proof (cases "i < count \<and> k < length h \<and> i < LENGTH('u)")
    case False
    then have ic: "i < count \<Longrightarrow> \<not> (k < length h \<and> i < LENGTH('u))" by blast
    have "bs_cut_loop count i r \<lparr>bs_bytes = h, bs_cur = k\<rparr> =
        (if i < count then None else Some (r, \<lparr>bs_bytes = h, bs_cur = k\<rparr>))"
      by (subst bs_cut_loop.simps) (use False in auto)
    moreover have "sb_cut_loop count i r \<lparr>sb_bytes = h, sb_cur = k, sb_offset = 0\<rparr> =
        (if i < count then None else Some (r, \<lparr>sb_bytes = h, sb_cur = k, sb_offset = 0\<rparr>))"
      using ic by (cases "i < count"; subst sb_cut_loop.simps) (simp_all only: if_True if_False split_bitstring.select_convs simp_thms)
    ultimately show ?thesis by simp
  next
    case True
    then have n: "8 \<le> count - i" using less.prems(1) by (intro dvd_imp_le) simp_all
    have d: "8 dvd (count - (i + 8))" unfolding diff_diff_left [symmetric] by (rule dvd_diff_nat [OF less.prems(1) dvd_refl])
    have m: "and v (mask 8) = v" for v :: "8 word" by (rule bit_word_eqI) (simp add: bit_and_iff bit_mask_iff)
    have bits: "(if count - i > 8 - 0 then 8 - 0 else count - i) = (8 :: nat)" using n by simp
    have "bs_cut_loop count i r \<lparr>bs_bytes = h, bs_cur = k\<rparr> =
        bs_cut_loop count (i + 8) (or r (push_bit i (ucast (h ! k)))) \<lparr>bs_bytes = h, bs_cur = k + 1\<rparr>"
      using True by (subst bs_cut_loop.simps) (simp add: c_nBitPerByte_def)
    moreover have "sb_cut_loop count i r \<lparr>sb_bytes = h, sb_cur = k, sb_offset = 0\<rparr> =
        sb_cut_loop count (i + 8) (or r (push_bit i (ucast (h ! k)))) \<lparr>sb_bytes = h, sb_cur = k + 1, sb_offset = 0\<rparr>"
    proof -
      have "\<not> 8 < count - i \<Longrightarrow> count = i + 8" using n by linarith
      with True show ?thesis
        by (cases "8 < count - i"; subst sb_cut_loop.simps) (simp_all add: c_nBitPerByte_def Let_def m)
    qed
    ultimately show ?thesis using less.hyps [of "i + 8"] n d by simp
  qed
qed



subsection \<open>The number splitter\<close>

lemma ns_cut_bits:
  assumes "count < 31" "count < LENGTH('u::len)" "ns_shift s < LENGTH('u)"
  shows "ns_cut count (s :: 'u word number_splitter) =
    Some (take_bit count (drop_bit (ns_shift s) (ns_number s)), s\<lparr>ns_shift := ns_shift s + count\<rparr>)"
proof -
  have "word_of_int (push_bit count 1 - 1) = (mask count :: 'u word)" by (simp add: mask_eq_exp_minus_1 push_bit_eq_mult)
  with assms show ?thesis
    by (simp add: ns_cut_def ns_eos_def ns_is_correct_def int_mask_def take_bit_eq_mask)
qed

text \<open>C38: \<open>number_splitter::cut\<close> returns the next bits of the number and moves past them for sizes of at most 30 bits;
  from 31 bits on it has no value for any type, as the mask is computed in \<^verbatim>\<open>int\<close>. \<open>safe_cut\<close> of the whole number
  from its start asks \<open>cut\<close> for the full width, which the assertion of \<open>cut\<close> rejects.\<close>

theorem number_splitter_cut:
  assumes "ns_shift s < LENGTH('u::len)" "count < LENGTH('u)"
  shows "ns_cut count (s :: 'u word number_splitter) =
      (if count < 31 then Some (take_bit count (drop_bit (ns_shift s) (ns_number s)), s\<lparr>ns_shift := ns_shift s + count\<rparr>)
       else None) \<and>
    ns_safe_cut (LENGTH('u) + k) (ns_start n :: 'u word number_splitter) = None"
  using assms ns_cut_bits [of count s]
  by (simp add: ns_cut_def int_mask_def ns_eos_def ns_safe_cut_def ns_start_def ns_rest_count_def
    ns_is_correct_def Let_def)

lemma number_splitter_cut_witness:
  "ns_cut 8 \<lparr>ns_number = (0xABCD :: 32 word), ns_shift = 4\<rparr> = Some (0xBC, \<lparr>ns_number = 0xABCD, ns_shift = 12\<rparr>) \<and>
   ns_safe_cut 32 (ns_start (7 :: 32 word)) = None"
proof -
  have "take_bit 8 (drop_bit 4 (0xABCD :: 32 word)) = 0xBC" by code_simp
  with number_splitter_cut [of "\<lparr>ns_number = (0xABCD :: 32 word), ns_shift = 4\<rparr>" 8 0 7] show ?thesis
    by simp
qed

end
