(* ===== verification/Spec2Isabelle.thy ===== *)
theory Spec2Isabelle
  imports Llca_Persist Module_Run Skip_List_Iterator Skip_List_Update Hazard_Guards Cds_Threads Marked_Atomic Node_Memory Bit_Algorithms Bit_Splitters
begin

text \<open>
  RedPar is a module for the Redis server that adds two data types of 64-bit integers. One is a sorted linked list
  that the server's thread works on (\<^verbatim>\<open>src/src/llca.cpp\<close>); the other is a lock-free skip list of the vendored library libcds
  (\<^verbatim>\<open>src/deps/cds\<close>), on which a pool of worker threads works too (\<^verbatim>\<open>src/src/skip_list.cpp\<close>). A command is either run at once in
  the server's thread or turned into an event, for which the client is blocked, and put into a queue
  (\<^verbatim>\<open>src/src/eventqueue.h\<close>, \<^verbatim>\<open>eventqueue.cpp\<close>) that the workers empty. \<^verbatim>\<open>src/src/redpar.cpp\<close> loads the module, starts libcds and the
  workers. Nodes that leave a skip list are freed by the hazard pointers of libcds (\<^verbatim>\<open>cds/gc/hp.h\<close>, \<^verbatim>\<open>src/hp.cpp\<close>).

  \<^bold>\<open>Theories\<close>

  \<^item> Prelude: the types of addresses and integers, lists as links, the collections of simplification rules, the locale
    \<open>step_refinement\<close> of operations that implement functions on abstract values, with runs of such operations.
  \<^item> RedisModule: the API of \<^verbatim>\<open>redis/redismodule.h\<close>. Each call is recorded in a trace with what the server answered; the server is the
    parameter \<open>redis_api\<close>, a record of functions on a state \<open>'w\<close>. \<open>RedisModule_Init\<close> is modelled in full. Call_Trace
    has the predicates on traces. Redis_Server states the documented behaviour of the server as laws (\<open>redis_laws\<close>), and Redis_Sim
    is a concrete server that satisfies them, on which the witnesses run.
  \<^item> Llca_List: nodes, objects and the four operations of \<^verbatim>\<open>llca.cpp\<close> on a heap of nodes; Llca_Commands: its commands, events and
    type methods and \<open>LLCA_OnLoad\<close>; Llca_Spec: the database of lists that they implement; Llca_Events: the interpretation of
    \<open>step_refinement\<close>, calls and locks; Llca_Persist: RDB, AOF and the wrong element count after a remove.
  \<^item> Event_Queue: \<open>event\<close>, \<open>event_queue\<close> with the locale \<open>fifo\<close>, \<open>conc_handler\<close> and \<open>seq_handler\<close>.
  \<^item> Cds_Base: marked pointers, comparators, the bit searches and the level generators. Bit_Algorithms (\<^verbatim>\<open>cds/algo/bit_reversal.h\<close>,
    \<^verbatim>\<open>int_algo.h\<close>, \<^verbatim>\<open>bitop_generic.h\<close>) and Bit_Splitters (\<^verbatim>\<open>cds/algo/split_bitstring.h\<close>).
    Marked_Atomic: the rest of \<^verbatim>\<open>marked_ptr.h\<close>, with the atomic; Node_Memory: how nodes and their towers are allocated and freed.
  \<^item> Hazard: thread records, guards, retired pointers, both scans, retiring, detaching; Hazard_Detach: what scans, retiring and
    detaching free; Hazard_Storage: the arrays and the linked free list behind a record, with the locale \<open>simulation\<close>;
    Hazard_Guards: \<open>Guard\<close>, \<open>GuardArray\<close> and \<open>guarded_ptr\<close>, and who owns a guard.
  \<^item> Skip_List: the set of \<^verbatim>\<open>cds/intrusive/impl/skip_list.h\<close> with its container \<^verbatim>\<open>cds/container/impl/skip_list_set.h\<close>: nodes with their towers,
    positions, insert, erase, contains, construction and destruction. Skip_List_State, Skip_List_Find, Skip_List_Insert,
    Skip_List_Erase and Skip_List_Set verify them. Skip_List_Extract (extract, clear, unlink), Skip_List_Iterator
    and Skip_List_Update add the other operations, each with its proofs.
  \<^item> Conc_Commands: the commands, events and type methods of \<^verbatim>\<open>skip_list.cpp\<close> and \<open>LLCA_Conc_OnLoad\<close>; Conc_Spec: the database of sets;
    Conc_Events: the interpretation of \<open>step_refinement\<close>.
  \<^item> Redpar: \<open>RedisModule_OnLoad\<close>, the worker and the start of libcds; the system of the server's thread and the workers is the
    inductive relation \<open>redpar_step\<close>, whose steps are whole command functions and whole turns of a worker.
    Module_Run: the loaded module running. Cds_Threads: detaching threads and the end of libcds.

  \<^bold>\<open>State\<close>

  The records extend each other as the components call each other: the state of the server and the trace (\<open>host_state\<close>), the
  heap of the lists (\<open>llca_state\<close>), the state of libcds (\<open>conc_state\<close>: the nodes, the sets and the collector \<open>smr\<close>), and the
  queue with the per-thread data (\<open>redpar_state\<close>). An address is a 64-bit word; a heap is a partial map, so that reading, writing or freeing
  a block that is not allocated is \<open>None\<close>, as are exceptions, failed assertions and undefined behaviour. The allocator is a
  parameter that returns blocks that are not in use. Integers have the width they have in the code: list values and counts 64
  bits, the number of levels still to unlink 32 bits.

  \<^bold>\<open>Lemmas\<close>

  The list is related to the values along its links; the skip list to its items (\<open>list_ok\<close>: at every
  level the links visit the items that are that high, in order). \<open>cds_inv\<close> says that the allocated blocks are exactly those of the sets and of
  the retired pointers, so each property of an operation also says what is freed. \<open>smr_ok\<close> and \<open>detach_ok\<close> are the invariants of the
  collector, \<open>threads_ok\<close> that of the attached threads. The properties are: functional behaviour of every operation on every branch
  that its callers can take; refinement of the two abstract databases by sequences of events, errors included, on every server that obeys the laws;
  the calls an event makes and the locks it holds; the order in which clients are answered, and that a worker with enough turns answers
  all of them; safety of the collector from a single scan up to the end of the process; round trips of the stored formats and of the bit
  splitters; equality of the bit routines with reference definitions.

  \<^bold>\<open>Loops\<close>

  A loop is a structural recursion or a \<open>function\<close> with a measure where its bound is in the code, and a \<open>partial_function\<close> where it
  follows pointers or waits for other threads; then each property shows that a value is returned, which includes termination. The worker never stops by itself: \<open>work\<close>
  has the number of its turns as an argument, and every theorem about it holds for each number, or for each that is large enough.

  \<^bold>\<open>Not modelled\<close>

  \<^item> Other threads between the steps of one operation of the skip list or the collector, and the memory orders of the atomics. The branches
    for a lost race are in the definitions, and the lemmas show that they are not taken when nobody interferes. The queue holds its mutex
    for a whole operation, so there the interleaving is complete.
  \<^item> The lifetime of the strings in \<open>argv\<close>: an event keeps a pointer to them, the model keeps their value.
  \<^item> The server behind the API, the allocator and the seeds of the random levels, which are parameters.
  \<^item> get, and find and erase with a functor, of the skip list; statistics and item counters, which are compiled out or
    empty; the allocator hooks of the collector; topology and the thread-local keys of the platform.
  \<^item> The rest of libcds (other containers and collectors, which the module does not use), turf (vendored and not called), the benchmark client in
    Go and the build files.
\<close>

end
